(* ===== verification/Xv6_Prelude.thy ===== *)
theory Xv6_Prelude
  imports "HOL-Library.Word"
begin

text \<open>
  Shared vocabulary of the development: the machine types of types.h, the constants of param.h
  and fs.h, the outcome type of kernel routines (with its sequencing operator), sleep channels,
  and the little-endian byte layout x86 gives to the 16- and 32-bit fields of the structures the
  kernel casts disk blocks and pages to.  The generic lemmas on arrays and words that the component
  theories share are collected here.
\<close>

unbundle bit_operations_syntax

named_theorems layout_simps \<open>byte layout and array slices\<close>
named_theorems kres_simps \<open>sequencing of kernel outcomes\<close>

subsection \<open>Machine types\<close>

type_synonym u8 = "8 word"
type_synonym u16 = "16 word"
type_synonym u32 = "32 word"
type_synonym block = "u8 list"

subsection \<open>Constants of param.h and fs.h\<close>

abbreviation (input) "NPROC \<equiv> (64 :: nat)"
abbreviation (input) "NOFILE \<equiv> (16 :: nat)"
abbreviation (input) "NFILE \<equiv> (100 :: nat)"
abbreviation (input) "NINODE \<equiv> (50 :: nat)"
abbreviation (input) "NDEV \<equiv> (10 :: nat)"
abbreviation (input) "ROOTDEV \<equiv> (1 :: nat)"
abbreviation (input) "MAXARG \<equiv> (32 :: nat)"
abbreviation (input) "MAXOPBLOCKS \<equiv> (10 :: nat)"
abbreviation (input) "LOGSIZE \<equiv> (30 :: nat)"     \<comment> \<open>\<open>MAXOPBLOCKS * 3\<close>\<close>
abbreviation (input) "NBUF \<equiv> (30 :: nat)"        \<comment> \<open>\<open>MAXOPBLOCKS * 3\<close>\<close>
abbreviation (input) "FSSIZE \<equiv> (1000 :: nat)"
abbreviation (input) "ROOTINO \<equiv> (1 :: nat)"
abbreviation (input) "BSIZE \<equiv> (512 :: nat)"
abbreviation (input) "NDIRECT \<equiv> (12 :: nat)"
abbreviation (input) "NINDIRECT \<equiv> (128 :: nat)"  \<comment> \<open>\<open>BSIZE / sizeof(uint)\<close>\<close>
abbreviation (input) "MAXFILE \<equiv> (140 :: nat)"    \<comment> \<open>\<open>NDIRECT + NINDIRECT\<close>\<close>
abbreviation (input) "IPB \<equiv> (8 :: nat)"          \<comment> \<open>\<open>BSIZE / sizeof(struct dinode)\<close>\<close>
abbreviation (input) "BPB \<equiv> (4096 :: nat)"       \<comment> \<open>\<open>BSIZE * 8\<close>\<close>
abbreviation (input) "DIRSIZ \<equiv> (14 :: nat)"

subsection \<open>Outcomes of kernel routines\<close>

text \<open>
  A kernel routine runs in the context of one process.  It returns a value (with the new state),
  or it reaches \<open>panic\<close>, which halts the machine, or it calls \<open>sleep\<close> on a channel.  The fourth
  outcome marks the points where the model does not follow the code: an access outside an array,
  which C leaves undefined, and a pointer loop that has outrun the bound given to it.  The channels are the addresses the source passes to \<open>sleep\<close> and \<open>wakeup\<close>.
\<close>

datatype chan =
    ChBufLock nat      \<comment> \<open>the sleep lock of a buffer\<close>
  | ChBuf nat          \<comment> \<open>a buffer waiting for the disk\<close>
  | ChInodeLock nat    \<comment> \<open>the sleep lock of a cached inode\<close>
  | ChInode nat        \<comment> \<open>a cached inode\<close>
  | ChLog              \<comment> \<open>the log\<close>
  | ChPipeRead nat     \<comment> \<open>the nread field of a pipe\<close>
  | ChPipeWrite nat    \<comment> \<open>the nwrite field of a pipe\<close>
  | ChInput            \<comment> \<open>the read index of the console input\<close>
  | ChTicks            \<comment> \<open>the tick counter\<close>
  | ChProc nat         \<comment> \<open>a slot of the process table\<close>

datatype 'a kres = OK 'a | Panic string | Sleep chan | Stuck string

primrec kbind :: "'a kres \<Rightarrow> ('a \<Rightarrow> 'b kres) \<Rightarrow> 'b kres" where
  "kbind (OK x) f = f x"
| "kbind (Panic m) f = Panic m"
| "kbind (Sleep c) f = Sleep c"
| "kbind (Stuck m) f = Stuck m"

lemma kbind_cong [fundef_cong]:
  "m = m' \<Longrightarrow> (\<And>x. m' = OK x \<Longrightarrow> f x = f' x) \<Longrightarrow> kbind m f = kbind m' f'"
  by (cases m') auto

lemma kbind_OK_iff [kres_simps]: "kbind m f = OK y \<longleftrightarrow> (\<exists>x. m = OK x \<and> f x = OK y)"
  by (cases m) auto

lemma kbind_assoc: "kbind (kbind m f) g = kbind m (\<lambda>x. kbind (f x) g)"
  by (cases m) auto

lemma kbind_OK_right [simp]: "kbind m OK = m"
  by (cases m) auto

text \<open>A counted loop whose body may fail.\<close>

primrec kfor :: "('i \<Rightarrow> 's \<Rightarrow> 's kres) \<Rightarrow> 'i list \<Rightarrow> 's \<Rightarrow> 's kres" where
  "kfor f [] s = OK s"
| "kfor f (i # is) s = kbind (f i s) (kfor f is)"

lemma kfor_append: "kfor f (xs @ ys) = (\<lambda>s. kbind (kfor f xs s) (kfor f ys))"
proof (induction xs)
  case (Cons x xs)
  show ?case by (rule ext) (simp add: Cons.IH kbind_assoc)
qed (simp add: fun_eq_iff)

lemma unat_u32_less: "unat (w :: u32) < 4294967296"
  using unsigned_less [of w, where 'a = nat] by simp

subsection \<open>Arrays: reading and overwriting a range\<close>

definition slice :: "'a list \<Rightarrow> nat \<Rightarrow> nat \<Rightarrow> 'a list" where
  "slice xs off n = take n (drop off xs)"

definition overwrite :: "'a list \<Rightarrow> nat \<Rightarrow> 'a list \<Rightarrow> 'a list" where
  "overwrite xs off ys = take off xs @ ys @ drop (off + length ys) xs"

lemma length_slice [layout_simps]: "length (slice xs off n) = min n (length xs - off)"
  by (simp add: slice_def)

lemma length_overwrite [layout_simps]:
  "off + length ys \<le> length xs \<Longrightarrow> length (overwrite xs off ys) = length xs"
  by (simp add: overwrite_def)

lemma slice_overwrite_same [layout_simps]:
  "off + length ys \<le> length xs \<Longrightarrow> slice (overwrite xs off ys) off (length ys) = ys"
  by (simp add: slice_def overwrite_def)

lemma nth_slice [layout_simps]:
  "i < n \<Longrightarrow> off + i < length xs \<Longrightarrow> slice xs off n ! i = xs ! (off + i)"
  by (simp add: slice_def)

lemma nth_overwrite [layout_simps]:
  assumes "off + length ys \<le> length xs" and "i < length xs"
  shows "overwrite xs off ys ! i =
    (if off \<le> i \<and> i < off + length ys then ys ! (i - off) else xs ! i)"
  using assms by (auto simp: overwrite_def nth_append min_def)

lemma slice_overwrite_other [layout_simps]:
  assumes "off + length ys \<le> length xs" and "o2 + n \<le> off \<or> off + length ys \<le> o2"
    and "o2 + n \<le> length xs"
  shows "slice (overwrite xs off ys) o2 n = slice xs o2 n"
  using assms by (intro nth_equalityI) (auto simp: length_slice nth_slice length_overwrite nth_overwrite)

lemma overwrite_nil [simp]: "overwrite xs off [] = xs"
  by (simp add: overwrite_def)

lemma slice_all [simp]: "length xs = n \<Longrightarrow> slice xs 0 n = xs"
  by (simp add: slice_def)

lemma overwrite_all: "length ys = length xs \<Longrightarrow> overwrite xs 0 ys = ys"
  by (simp add: overwrite_def)

subsection \<open>Scanning a table for the first entry with a property\<close>

primrec find_idx :: "('a \<Rightarrow> bool) \<Rightarrow> 'a list \<Rightarrow> nat option" where
  "find_idx P [] = None"
| "find_idx P (x # xs) = (if P x then Some 0 else map_option Suc (find_idx P xs))"

lemma find_idx_None_iff: "find_idx P xs = None \<longleftrightarrow> (\<forall>x \<in> set xs. \<not> P x)"
  by (induction xs) auto

lemma find_idx_Some_iff:
  "find_idx P xs = Some i \<longleftrightarrow> i < length xs \<and> P (xs ! i) \<and> (\<forall>j<i. \<not> P (xs ! j))"
proof (induction xs arbitrary: i)
  case (Cons x xs)
  then show ?case by (cases i) (auto simp: All_less_Suc2)
qed simp

lemma find_idx_SomeD:
  "find_idx P xs = Some i \<Longrightarrow> i < length xs \<and> P (xs ! i)"
  by (simp add: find_idx_Some_iff)

lemma find_idx_exists: "x \<in> set xs \<Longrightarrow> P x \<Longrightarrow> \<exists>i. find_idx P xs = Some i"
  by (induction xs) auto

lemma find_SomeD: "find P xs = Some x \<Longrightarrow> x \<in> set xs \<and> P x"
  by (induction xs) (auto split: if_splits)

subsection \<open>Little-endian layout\<close>

definition le16 :: "u16 \<Rightarrow> u8 list" where
  "le16 w = [ucast w, ucast (drop_bit 8 w)]"

definition le32 :: "u32 \<Rightarrow> u8 list" where
  "le32 w = [ucast w, ucast (drop_bit 8 w), ucast (drop_bit 16 w), ucast (drop_bit 24 w)]"

fun of_le16 :: "u8 list \<Rightarrow> u16" where
  "of_le16 [a, b] = ucast a OR push_bit 8 (ucast b)"
| "of_le16 _ = 0"

fun of_le32 :: "u8 list \<Rightarrow> u32" where
  "of_le32 [a, b, c, d] =
     ucast a OR push_bit 8 (ucast b) OR push_bit 16 (ucast c) OR push_bit 24 (ucast d)"
| "of_le32 _ = 0"

lemma length_le16 [simp]: "length (le16 w) = 2"
  by (simp add: le16_def)

lemma length_le32 [simp]: "length (le32 w) = 4"
  by (simp add: le32_def)

lemma of_le16_le16 [simp]: "of_le16 (le16 w) = w"
  by (rule bit_word_eqI)
     (auto simp: le16_def bit_or_iff bit_push_bit_iff bit_ucast_iff bit_drop_bit_eq)

lemma of_le32_le32 [simp]: "of_le32 (le32 w) = w"
proof (rule bit_word_eqI)
  fix n :: nat
  assume "n < LENGTH(32)"
  then have n: "n < 32" by simp
  consider "n < 8" | "8 \<le> n" "n < 16" | "16 \<le> n" "n < 24" | "24 \<le> n" by linarith
  then show "bit (of_le32 (le32 w)) n = bit w n"
    using n by cases
      (auto simp: le32_def bit_or_iff bit_push_bit_iff bit_ucast_iff bit_drop_bit_eq)
qed

lemma list4_cases:
  assumes "length xs = 4"
  obtains a b c d where "xs = [a, b, c, d]"
  using assms by (auto simp: length_Suc_conv eval_nat_numeral)

lemma le32_of_le32 [simp]:
  assumes "length bs = 4"
  shows "le32 (of_le32 bs) = bs"
proof -
  obtain a b c d where bs: "bs = [a, b, c, d]" using assms by (rule list4_cases)
  have byte: "8 \<le> n \<Longrightarrow> \<not> bit x n" for x :: u8 and n
    using bit_imp_le_length [of x n] by auto
  show ?thesis
    unfolding bs le32_def
    by (auto intro!: bit_word_eqI
        simp: byte bit_or_iff bit_push_bit_iff bit_ucast_iff bit_drop_bit_eq)
qed

text \<open>An array of 32-bit words as its bytes, and back.\<close>

definition bytes_of_words :: "u32 list \<Rightarrow> u8 list" where
  "bytes_of_words ws = concat (map le32 ws)"

fun words_of_bytes :: "u8 list \<Rightarrow> u32 list" where
  "words_of_bytes (a # b # c # d # bs) = of_le32 [a, b, c, d] # words_of_bytes bs"
| "words_of_bytes _ = []"

lemma length_bytes_of_words [simp]: "length (bytes_of_words ws) = 4 * length ws"
  by (induction ws) (simp_all add: bytes_of_words_def)

lemma words_of_bytes_append4:
  "length xs = 4 \<Longrightarrow> words_of_bytes (xs @ ys) = of_le32 xs # words_of_bytes ys"
  by (erule list4_cases) simp

lemma words_of_bytes_of_words [simp]: "words_of_bytes (bytes_of_words ws) = ws"
  by (induction ws) (simp_all add: bytes_of_words_def words_of_bytes_append4)

lemma length_words_of_bytes [simp]: "length (words_of_bytes bs) = length bs div 4"
  by (induction bs rule: words_of_bytes.induct) simp_all

lemma bytes_of_words_of_bytes [simp]:
  "4 dvd length bs \<Longrightarrow> bytes_of_words (words_of_bytes bs) = bs"
proof (induction bs rule: words_of_bytes.induct)
  case (1 a b c d bs)
  then have "4 dvd length bs" by (simp add: dvd_def) presburger
  with "1.IH" have "bytes_of_words (words_of_bytes bs) = bs" by simp
  then show ?case
    using le32_of_le32 [of "[a, b, c, d]"] by (simp add: bytes_of_words_def del: of_le32.simps)
qed (auto simp: bytes_of_words_def dest: dvd_imp_le)

text \<open>A 32-bit field at a byte offset.\<close>

definition get32 :: "u8 list \<Rightarrow> nat \<Rightarrow> u32" where
  "get32 d off = of_le32 (slice d off 4)"

definition put32 :: "u8 list \<Rightarrow> nat \<Rightarrow> u32 \<Rightarrow> u8 list" where
  "put32 d off w = overwrite d off (le32 w)"

lemma length_put32 [simp]: "off + 4 \<le> length d \<Longrightarrow> length (put32 d off w) = length d"
  by (simp add: put32_def length_overwrite)

lemma get32_put32 [simp]: "off + 4 \<le> length d \<Longrightarrow> get32 (put32 d off w) off = w"
  using slice_overwrite_same [of off "le32 w" d] by (simp add: get32_def put32_def)

lemma get32_put32_other:
  "off + 4 \<le> length d \<Longrightarrow> o2 + 4 \<le> length d \<Longrightarrow> o2 + 4 \<le> off \<or> off + 4 \<le> o2 \<Longrightarrow>
   get32 (put32 d off w) o2 = get32 d o2"
  by (simp add: get32_def put32_def slice_overwrite_other)

text \<open>A 16-bit field at a byte offset.\<close>

definition get16 :: "u8 list \<Rightarrow> nat \<Rightarrow> u16" where
  "get16 d off = of_le16 (slice d off 2)"

definition put16 :: "u8 list \<Rightarrow> nat \<Rightarrow> u16 \<Rightarrow> u8 list" where
  "put16 d off w = overwrite d off (le16 w)"

lemma length_put16 [simp]: "off + 2 \<le> length d \<Longrightarrow> length (put16 d off w) = length d"
  by (simp add: put16_def length_overwrite)

lemma get16_put16 [simp]: "off + 2 \<le> length d \<Longrightarrow> get16 (put16 d off w) off = w"
  using slice_overwrite_same [of off "le16 w" d] by (simp add: get16_def put16_def)

lemma get16_put16_other:
  "off + 2 \<le> length d \<Longrightarrow> o2 + 2 \<le> length d \<Longrightarrow> o2 + 2 \<le> off \<or> off + 2 \<le> o2 \<Longrightarrow>
   get16 (put16 d off w) o2 = get16 d o2"
  by (simp add: get16_def put16_def slice_overwrite_other)

end
