(* ===== verification/Cstring.thy ===== *)
theory Cstring
  imports Xv6_Prelude
begin

text \<open>
  The kernel's string.c, with the \<open>rep stos\<close> helpers of x86.h, and the copy routine of the user
  library.  Routines that store through pointers work on a byte-addressed 32-bit memory, so that
  pointer wrap-around and overlapping ranges are what they are on the machine.  Routines that
  compare or copy bounded character arrays take the array a pointer denotes as a function from
  the index to the byte.  Each loop of the source is one recursive definition; the lemmas give its
  closed form.
\<close>

type_synonym mem = "u32 \<Rightarrow> u8"

subsection \<open>memset\<close>

definition load32 :: "mem \<Rightarrow> u32 \<Rightarrow> u32" where
  "load32 m a = of_le32 [m a, m (a + 1), m (a + 2), m (a + 3)]"

definition store32 :: "mem \<Rightarrow> u32 \<Rightarrow> u32 \<Rightarrow> mem" where
  "store32 m a w = m(a := le32 w ! 0, a + 1 := le32 w ! 1, a + 2 := le32 w ! 2, a + 3 := le32 w ! 3)"

primrec stosb :: "mem \<Rightarrow> u32 \<Rightarrow> u8 \<Rightarrow> nat \<Rightarrow> mem" where
  "stosb m a c 0 = m"
| "stosb m a c (Suc n) = stosb (m(a := c)) (a + 1) c n"

primrec stosl :: "mem \<Rightarrow> u32 \<Rightarrow> u32 \<Rightarrow> nat \<Rightarrow> mem" where
  "stosl m a w 0 = m"
| "stosl m a w (Suc n) = stosl (store32 m a w) (a + 4) w n"

definition memset :: "mem \<Rightarrow> u32 \<Rightarrow> u32 \<Rightarrow> u32 \<Rightarrow> mem" where
  "memset m dst c n =
     (if dst mod 4 = 0 \<and> n mod 4 = 0
      then let c = c AND 0xFF
           in stosl m dst (push_bit 24 c OR push_bit 16 c OR push_bit 8 c OR c) (unat (n div 4))
      else stosb m dst (ucast c) (unat n))"

subsection \<open>memcmp and memmove\<close>

primrec memcmp :: "mem \<Rightarrow> u32 \<Rightarrow> u32 \<Rightarrow> nat \<Rightarrow> int" where
  "memcmp m s1 s2 0 = 0"
| "memcmp m s1 s2 (Suc n) =
     (if m s1 \<noteq> m s2 then uint (m s1) - uint (m s2) else memcmp m (s1 + 1) (s2 + 1) n)"

primrec copy_up :: "mem \<Rightarrow> u32 \<Rightarrow> u32 \<Rightarrow> nat \<Rightarrow> mem" where
  "copy_up m d s 0 = m"
| "copy_up m d s (Suc n) = copy_up (m(d := m s)) (d + 1) (s + 1) n"

primrec copy_down :: "mem \<Rightarrow> u32 \<Rightarrow> u32 \<Rightarrow> nat \<Rightarrow> mem" where
  "copy_down m d s 0 = m"
| "copy_down m d s (Suc n) = copy_down (m(d - 1 := m (s - 1))) (d - 1) (s - 1) n"

definition memmove :: "mem \<Rightarrow> u32 \<Rightarrow> u32 \<Rightarrow> u32 \<Rightarrow> mem" where
  "memmove m dst src n =
     (if src < dst \<and> src + n > dst
      then copy_down m (dst + n) (src + n) (unat n)
      else copy_up m dst src (unat n))"

text \<open>The user library's version (ulib.c) always copies upwards; its length is a signed int.\<close>

definition ulib_memmove :: "mem \<Rightarrow> u32 \<Rightarrow> u32 \<Rightarrow> int \<Rightarrow> mem" where
  "ulib_memmove m vdst vsrc n = copy_up m vdst vsrc (nat n)"

subsection \<open>Bounded strings\<close>

type_synonym carr = "nat \<Rightarrow> u8"

primrec strncmp :: "carr \<Rightarrow> carr \<Rightarrow> nat \<Rightarrow> int" where
  "strncmp p q 0 = 0"
| "strncmp p q (Suc n) =
     (if p 0 \<noteq> 0 \<and> p 0 = q 0 then strncmp (\<lambda>i. p (Suc i)) (\<lambda>i. q (Suc i)) n
      else uint (p 0) - uint (q 0))"

primrec zero_fill :: "carr \<Rightarrow> nat \<Rightarrow> nat \<Rightarrow> carr" where
  "zero_fill s i 0 = s"
| "zero_fill s i (Suc n) = zero_fill (s(i := 0)) (Suc i) n"

primrec strncpy_from :: "carr \<Rightarrow> carr \<Rightarrow> nat \<Rightarrow> nat \<Rightarrow> carr" where
  "strncpy_from s t i 0 = s"
| "strncpy_from s t i (Suc n) =
     (if t i \<noteq> 0 then strncpy_from (s(i := t i)) t (Suc i) n
      else zero_fill (s(i := t i)) (Suc i) n)"

definition strncpy :: "carr \<Rightarrow> carr \<Rightarrow> int \<Rightarrow> carr" where
  "strncpy s t n = strncpy_from s t 0 (nat n)"

primrec safestrcpy_from :: "carr \<Rightarrow> carr \<Rightarrow> nat \<Rightarrow> nat \<Rightarrow> carr" where
  "safestrcpy_from s t i 0 = s(i := 0)"
| "safestrcpy_from s t i (Suc n) =
     (if t i \<noteq> 0 then safestrcpy_from (s(i := t i)) t (Suc i) n
      else s(i := t i, Suc i := 0))"

definition safestrcpy :: "carr \<Rightarrow> carr \<Rightarrow> int \<Rightarrow> carr" where
  "safestrcpy s t n = (if n \<le> 0 then s else safestrcpy_from s t 0 (nat n - 1))"

partial_function (option) strlen_from :: "carr \<Rightarrow> nat \<Rightarrow> nat option" where
  "strlen_from s n = (if s n = 0 then Some n else strlen_from s (Suc n))"

definition strlen :: "carr \<Rightarrow> nat option" where
  "strlen s = strlen_from s 0"

subsection \<open>Address arithmetic\<close>

lemma unat_pred: "(y :: u32) \<noteq> 0 \<Longrightarrow> unat (y - 1) = unat y - 1"
  by (simp add: unat_minus_one)

lemma in_range_step:
  fixes x a :: u32
  shows "unat (x - a) < Suc n \<longleftrightarrow> x = a \<or> (x \<noteq> a \<and> unat (x - (a + 1)) < n)"
proof (cases "x = a")
  case False
  then have ne: "x - a \<noteq> 0" by simp
  have "unat (x - (a + 1)) = unat (x - a) - 1"
    using unat_pred [OF ne] by (simp add: diff_diff_eq)
  moreover have "0 < unat (x - a)"
    using ne by (simp add: unat_gt_0)
  ultimately show ?thesis using False by auto
qed simp

lemma unat_neg1_u32 [simp]: "unat (- 1 :: u32) = 4294967295"
  by (simp add: unsigned_minus_1_eq_mask mask_eq_exp_minus_1)

lemma stosb_eq:
  "n \<le> 2 ^ 32 \<Longrightarrow> stosb m a c n = (\<lambda>x. if unat (x - a) < n then c else m x)"
proof (induction n arbitrary: m a)
  case (Suc n)
  then have IH: "stosb (m(a := c)) (a + 1) c n =
      (\<lambda>x. if unat (x - (a + 1)) < n then c else (m(a := c)) x)"
    by simp
  show ?case
    unfolding stosb.simps IH by (rule ext) (auto simp: in_range_step)
qed simp

lemma replicate4: "replicate 4 x = [x, x, x, x]"
  by (simp add: numeral_eq_Suc)

lemma store32_bytes:
  assumes "w = push_bit 24 b OR push_bit 16 b OR push_bit 8 b OR b" and "b = c AND (0xFF :: u32)"
  shows "store32 m a w = stosb m a (ucast c) 4"
proof -
  have b: "b = take_bit 8 c"
    unfolding assms(2) take_bit_eq_mask by (simp add: mask_eq_exp_minus_1)
  have "le32 w = replicate 4 (ucast c)"
    unfolding assms(1) b
    by (simp add: le32_def replicate4) 
       (auto intro!: bit_word_eqI
         simp: bit_take_bit_iff bit_or_iff bit_push_bit_iff bit_ucast_iff bit_drop_bit_eq)
  then show ?thesis
    by (simp add: store32_def numeral_eq_Suc add.assoc)
qed


lemma stosb_add: "stosb m a c (i + j) = stosb (stosb m a c i) (a + of_nat i) c j"
  by (induction i arbitrary: m a) (simp_all add: add.assoc)

lemma stosl_eq_stosb:
  assumes "w = push_bit 24 b OR push_bit 16 b OR push_bit 8 b OR b" and "b = c AND (0xFF :: u32)"
  shows "stosl m a w n = stosb m a (ucast c) (4 * n)"
proof (induction n arbitrary: m a)
  case (Suc n)
  have "stosb m a (ucast c) (4 * Suc n) = stosb (stosb m a (ucast c) 4) (a + 4) (ucast c) (4 * n)"
    using stosb_add [of m a "ucast c" 4 "4 * n"] by simp
  then show ?case
    by (simp only: stosl.simps Suc.IH store32_bytes [OF assms])
qed simp

lemma memset_eq:
  "memset m dst c n = (\<lambda>a. if unat (a - dst) < unat n then ucast c else m a)"
proof -
  have len: "unat n \<le> 2 ^ 32" using unat_u32_less [of n] by simp
  have "memset m dst c n = stosb m dst (ucast c) (unat n)"
  proof (cases "dst mod 4 = 0 \<and> n mod 4 = 0")
    case True
    then have "unat (n mod 4) = 0" by simp
    then have "unat n mod 4 = 0" by (simp add: unat_mod)
    then have "4 * unat (n div 4) = unat n" unfolding unat_div by (auto simp: dvd_eq_mod_eq_0 [symmetric])
    with True show ?thesis
      unfolding memset_def Let_def by (simp only: stosl_eq_stosb [OF refl refl] if_True simp_thms)
  qed (simp only: memset_def if_False)
  with len show ?thesis by (simp add: stosb_eq)
qed

subsection \<open>Closed forms of the copies\<close>

lemma copy_up_eq:
  assumes "n \<le> 2 ^ 32"
    and "\<And>i j. i < j \<Longrightarrow> j < n \<Longrightarrow> d + of_nat i \<noteq> s + of_nat j"
  shows "copy_up m d s n = (\<lambda>x. if unat (x - d) < n then m (s + (x - d)) else m x)"
  using assms
proof (induction n arbitrary: m d s)
  case (Suc n)
  have clash: "d + 1 + of_nat i \<noteq> s + 1 + of_nat j" if "i < j" "j < n" for i j
    using Suc.prems(2) [of "Suc i" "Suc j"] that by (simp add: algebra_simps)
  have IH: "copy_up (m(d := m s)) (d + 1) (s + 1) n =
      (\<lambda>x. if unat (x - (d + 1)) < n then (m(d := m s)) (s + 1 + (x - (d + 1)))
           else (m(d := m s)) x)"
    by (rule Suc.IH) (use Suc.prems(1) clash in auto)
  show ?case
  proof
    fix x
    show "copy_up m d s (Suc n) x = (if unat (x - d) < Suc n then m (s + (x - d)) else m x)"
    proof (cases "x \<noteq> d \<and> unat (x - (d + 1)) < n")
      case True
      define j where "j = Suc (unat (x - (d + 1)))"
      have src: "s + 1 + (x - (d + 1)) = s + of_nat j" by (simp add: j_def)
      have "d + of_nat 0 \<noteq> s + of_nat j"
        by (rule Suc.prems(2)) (use True in \<open>auto simp: j_def\<close>)
      with True show ?thesis
        unfolding copy_up.simps IH by (auto simp: in_range_step src [symmetric])
    next
      case False
      show ?thesis
      proof (cases "x = d")
        case True
        have "\<not> unat (x - (d + 1)) < n" using True Suc.prems(1) by simp
        with True show ?thesis unfolding copy_up.simps IH by simp
      next
        case ne: False
        with False show ?thesis unfolding copy_up.simps IH by (auto simp: in_range_step)
      qed
    qed
  qed
qed simp

lemma copy_down_snoc:
  "copy_down m d s (Suc n) = (let m' = copy_down m d s n
     in m'(d - of_nat (Suc n) := m' (s - of_nat (Suc n))))"
proof (induction n arbitrary: m d s)
  case (Suc n)
  show ?case
    by (subst copy_down.simps(2), subst Suc.IH) (simp add: Let_def algebra_simps)
qed (simp add: Let_def)

lemma copy_down_eq:
  assumes "n \<le> 2 ^ 32"
    and "\<And>i j. i < j \<Longrightarrow> j < n \<Longrightarrow> d + of_nat j \<noteq> s + of_nat i"
  shows "copy_down m (d + of_nat n) (s + of_nat n) n =
    (\<lambda>x. if unat (x - d) < n then m (s + (x - d)) else m x)"
  using assms
proof (induction n arbitrary: d s)
  case (Suc n)
  have IH: "copy_down m (d + 1 + of_nat n) (s + 1 + of_nat n) n =
      (\<lambda>x. if unat (x - (d + 1)) < n then m (s + 1 + (x - (d + 1))) else m x)"
  proof (rule Suc.IH)
    show "d + 1 + of_nat j \<noteq> s + 1 + of_nat i" if "i < j" "j < n" for i j
      using Suc.prems(2) [of "Suc i" "Suc j"] that by (simp add: algebra_simps)
  qed (use Suc.prems(1) in simp)
  have low: "\<not> unat (s - (d + 1)) < n"
  proof
    assume a: "unat (s - (d + 1)) < n"
    have "d + of_nat (Suc (unat (s - (d + 1)))) \<noteq> s + of_nat 0"
      by (rule Suc.prems(2)) (use a in auto)
    then show False by simp
  qed
  show ?case
  proof
    fix x
    show "copy_down m (d + of_nat (Suc n)) (s + of_nat (Suc n)) (Suc n) x =
        (if unat (x - d) < Suc n then m (s + (x - d)) else m x)"
      using low IH
      by (subst copy_down_snoc) (auto simp: Let_def in_range_step algebra_simps)
  qed
qed simp

lemma memmove_eq:
  assumes "unat src + unat n < 2 ^ 32" and "unat dst + unat n \<le> 2 ^ 32"
  shows "memmove m dst src n =
    (\<lambda>a. if unat (a - dst) < unat n then m (src + (a - dst)) else m a)"
proof (cases "src < dst \<and> src + n > dst")
  case True
  have "copy_down m (dst + of_nat (unat n)) (src + of_nat (unat n)) (unat n) =
      (\<lambda>x. if unat (x - dst) < unat n then m (src + (x - dst)) else m x)"
  proof (rule copy_down_eq)
    fix i j assume ij: "i < j" "j < unat n"
    have "unat (dst + of_nat j) = unat dst + j" "unat (src + of_nat i) = unat src + i"
      using ij assms by (auto simp: unat_word_ariths unat_of_nat)
    moreover have "unat src < unat dst" using True by (simp add: word_less_nat_alt)
    ultimately show "dst + of_nat j \<noteq> src + of_nat i" using ij by (metis add_less_mono less_irrefl)
  qed (use assms in simp)
  with True show ?thesis by (simp add: memmove_def)
next
  case False
  have "copy_up m dst src (unat n) =
      (\<lambda>x. if unat (x - dst) < unat n then m (src + (x - dst)) else m x)"
  proof (rule copy_up_eq)
    fix i j assume ij: "i < j" "j < unat n"
    have u: "unat (dst + of_nat i) = unat dst + i" "unat (src + of_nat j) = unat src + j"
      "unat (src + n) = unat src + unat n"
      using ij assms by (auto simp: unat_word_ariths unat_of_nat)
    have "unat dst \<le> unat src \<or> unat src + unat n \<le> unat dst"
      using False u(3) by (auto simp: word_less_nat_alt not_less)
    then show "dst + of_nat i \<noteq> src + of_nat j" using ij u by auto
  qed (use assms in simp)
  with False show ?thesis unfolding memmove_def by (simp only: if_False)
qed

subsection \<open>Bounded strings: what they read and write\<close>

lemma strncmp_eq_0_iff:
  "strncmp p q n = 0 \<longleftrightarrow> (\<forall>i<n. (\<forall>j<i. p j \<noteq> 0) \<longrightarrow> p i = q i)"
proof (induction n arbitrary: p q)
  case (Suc n)
  have eq: "(\<forall>i<Suc n. (\<forall>j<i. p j \<noteq> 0) \<longrightarrow> p i = q i) \<longleftrightarrow>
      p 0 = q 0 \<and> (p 0 \<noteq> 0 \<longrightarrow> (\<forall>i<n. (\<forall>j<i. p (Suc j) \<noteq> 0) \<longrightarrow> p (Suc i) = q (Suc i)))"
    by (simp add: All_less_Suc2) blast
  have inj: "uint a = uint b \<longleftrightarrow> a = b" for a b :: u8
    by (simp add: word_uint_eq_iff)
  show ?case unfolding eq strncmp.simps by (cases "p 0 \<noteq> 0 \<and> p 0 = q 0") (auto simp: Suc.IH inj inj [of _ 0, simplified])
qed simp

lemma zero_fill_eq: "zero_fill s i n = (\<lambda>k. if i \<le> k \<and> k < i + n then 0 else s k)"
  by (induction n arbitrary: s i) (auto simp: fun_eq_iff)

lemma strncpy_from_apply:
  "strncpy_from s t i n k =
     (if i \<le> k \<and> k < i + n then if 0 \<in> t ` {i..<k} then 0 else t k else s k)"
proof (induction n arbitrary: s i)
  case (Suc n)
  consider "k < i" | "k = i" | "i < k" by linarith
  then show ?case
  proof cases
    case 3
    then have "{i..<k} = insert i {Suc i..<k}" by auto
    with 3 Suc.IH show ?thesis by (cases "t i = 0") (auto simp: zero_fill_eq)
  next
    case 2
    have "strncpy_from (s(i := t i)) t (Suc i) n k = t i"
      by (subst Suc.IH) (simp add: 2)
    then show ?thesis using 2 by (auto simp: zero_fill_eq)
  qed (auto simp: Suc.IH zero_fill_eq)
qed auto

lemma strncpy_apply:
  "strncpy s t n k = (if k < nat n then if 0 \<in> t ` {..<k} then 0 else t k else s k)"
  by (simp add: strncpy_def strncpy_from_apply lessThan_atLeast0)

lemma safestrcpy_from_frame: "k < i \<or> i + n < k \<Longrightarrow> safestrcpy_from s t i n k = s k"
  by (induction n arbitrary: s i) auto

lemma safestrcpy_from_terminated:
  "\<exists>k. i \<le> k \<and> k \<le> i + n \<and> safestrcpy_from s t i n k = 0 \<and>
     (\<forall>j. i \<le> j \<and> j < k \<longrightarrow> safestrcpy_from s t i n j = t j \<and> t j \<noteq> 0)"
proof (induction n arbitrary: s i)
  case (Suc n)
  show ?case
  proof (cases "t i = 0")
    case True
    then show ?thesis by (intro exI [of _ i]) simp
  next
    case False
    obtain k where k: "Suc i \<le> k" "k \<le> Suc i + n"
      "safestrcpy_from (s(i := t i)) t (Suc i) n k = 0"
      "\<forall>j. Suc i \<le> j \<and> j < k \<longrightarrow> safestrcpy_from (s(i := t i)) t (Suc i) n j = t j \<and> t j \<noteq> 0"
      using Suc.IH [of "Suc i" "s(i := t i)"] by blast
    have "safestrcpy_from (s(i := t i)) t (Suc i) n i = t i"
      by (simp add: safestrcpy_from_frame)
    then have "safestrcpy_from s t i (Suc n) j = t j \<and> t j \<noteq> 0" if "i \<le> j" "j < k" for j
      using that k(4) False by (cases "j = i") auto
    moreover have "safestrcpy_from s t i (Suc n) k = 0" using False k(3) by simp
    ultimately show ?thesis using k(1,2) by (intro exI [of _ k]) (simp del: safestrcpy_from.simps)
  qed
qed auto

lemma safestrcpy_terminated:
  assumes "0 < n"
  shows "\<exists>k < nat n. safestrcpy s t n k = 0 \<and> (\<forall>j<k. safestrcpy s t n j = t j \<and> t j \<noteq> 0)"
proof -
  have "i \<le> nat n - 1 \<Longrightarrow> i < nat n" for i using assms by linarith
  then show ?thesis
    using safestrcpy_from_terminated [of 0 "nat n - 1" s t] assms
    by (fastforce simp: safestrcpy_def)
qed

lemma strlen_from_eq:
  assumes "i \<le> k" and "s k = 0" and "\<And>j. i \<le> j \<Longrightarrow> j < k \<Longrightarrow> s j \<noteq> 0"
  shows "strlen_from s i = Some k"
  using assms
proof (induction "k - i" arbitrary: i)
  case 0
  then show ?case by (simp add: strlen_from.simps)
next
  case (Suc n)
  then have "s i \<noteq> 0" and "strlen_from s (Suc i) = Some k" by auto
  then show ?case by (simp add: strlen_from.simps [of s i])
qed

lemma strlen_eq: "s k = 0 \<Longrightarrow> (\<And>j. j < k \<Longrightarrow> s j \<noteq> 0) \<Longrightarrow> strlen s = Some k"
  by (simp add: strlen_def strlen_from_eq)

subsection \<open>Properties\<close>

text \<open>
  Property C21. The kernel's memmove copies its source range to its destination range as if through
  a temporary, whatever the overlap, and touches nothing else, provided neither range runs past
  the top of the 32-bit address space.
\<close>

theorem memmove_copies:
  assumes "unat src + unat n < 2 ^ 32" and "unat dst + unat n \<le> 2 ^ 32"
  shows "memmove m dst src n a =
    (if unat (a - dst) < unat n then m (src + (a - dst)) else m a)"
  by (simp add: memmove_eq [OF assms])

theorem memmove_copies_witness:
  "unat (1 :: u32) + unat (4 :: u32) < 2 ^ 32 \<and> unat (2 :: u32) + unat (4 :: u32) \<le> 2 ^ 32 \<and>
   memmove (\<lambda>a. ucast a) 2 1 4 5 = 4 \<and> memmove (\<lambda>a. ucast a) 2 1 4 6 = 6"
  using memmove_copies [of 1 4 2 "\<lambda>a. ucast a" 5] memmove_copies [of 1 4 2 "\<lambda>a. ucast a" 6] by simp

text \<open>
  Property C22. The kernel's memset stores the low byte of its argument in exactly the requested
  range; the word-at-a-time path taken for aligned ranges agrees with the byte path.
\<close>

theorem memset_fills:
  "memset m dst c n a = (if unat (a - dst) < unat n then ucast c else m a)"
  by (simp add: memset_eq)

end
