(* ===== verification/Kalloc.thy ===== *)
theory Kalloc
  imports Cstring
begin

text \<open>
  The physical page allocator, kalloc.c.  The state is the machine's memory and the \<open>kmem\<close>
  structure; the free list is threaded through the free pages themselves, each page holding the
  address of the next one in its first word.  The spin lock of \<open>kmem\<close> makes each routine one atomic
  step; \<open>use_lock\<close> is kept as the state it is.  \<open>kend\<close> and \<open>kdata\<close> are the linker symbols \<open>end\<close> and \<open>data\<close>.
\<close>

abbreviation (input) "PGSIZE \<equiv> (4096 :: u32)"
abbreviation (input) "KERNBASE \<equiv> (0x80000000 :: u32)"
abbreviation (input) "PHYSTOP \<equiv> (0xE000000 :: u32)"

definition V2P :: "u32 \<Rightarrow> u32" where "V2P a = a - KERNBASE"
definition P2V :: "u32 \<Rightarrow> u32" where "P2V a = a + KERNBASE"
definition PGROUNDUP :: "u32 \<Rightarrow> u32" where "PGROUNDUP sz = (sz + PGSIZE - 1) AND NOT (PGSIZE - 1)"
definition PGROUNDDOWN :: "u32 \<Rightarrow> u32" where "PGROUNDDOWN a = a AND NOT (PGSIZE - 1)"

record mstate =
  mem :: mem
  kend :: u32
  kdata :: u32
  use_lock :: bool
  freelist :: u32

definition kfree :: "'z mstate_scheme \<Rightarrow> u32 \<Rightarrow> 'z mstate_scheme kres" where
  "kfree s v =
     (if v mod PGSIZE \<noteq> 0 \<or> v < kend s \<or> V2P v \<ge> PHYSTOP then Panic ''kfree''
      else let s = s\<lparr>mem := memset (mem s) v 1 PGSIZE\<rparr>;
               s = s\<lparr>mem := store32 (mem s) v (freelist s)\<rparr>
           in OK (s\<lparr>freelist := v\<rparr>))"

definition kalloc :: "'z mstate_scheme \<Rightarrow> u32 \<times> 'z mstate_scheme" where
  "kalloc s =
     (let r = freelist s
      in (r, if r \<noteq> 0 then s\<lparr>freelist := load32 (mem s) r\<rparr> else s))"

function freerange_loop :: "'z mstate_scheme \<Rightarrow> u32 \<Rightarrow> u32 \<Rightarrow> 'z mstate_scheme kres" where
  "freerange_loop s p vend =
     (if p + PGSIZE \<le> vend
      then kbind (kfree s p) (\<lambda>s. freerange_loop s (p + PGSIZE) vend)
      else OK s)"
  by pat_completeness auto

lemma kfree_OK_bound: "kfree s v = OK s' \<Longrightarrow> unat (v - KERNBASE) < 0xE000000"
  by (auto simp: kfree_def V2P_def Let_def word_less_nat_alt word_le_nat_alt split: if_splits)

termination freerange_loop
proof (relation "measure (\<lambda>(s, p, vend). unat (KERNBASE - 1 - p))")
  fix s :: "'z mstate_scheme" and p vend s'
  assume "kfree s p = OK s'"
  then have "unat (p - KERNBASE) < 0xE000000" by (rule kfree_OK_bound)
  then obtain q where q: "q = p - KERNBASE" and b: "unat q < 0xE000000" by simp
  have p: "KERNBASE - 1 - p = - 1 - q" "KERNBASE - 1 - (p + PGSIZE) = - 1 - q - PGSIZE"
    by (simp_all add: q algebra_simps)
  have neg: "unat (- 1 - q) = 4294967295 - unat q"
    using unat_sub [of q "- 1"] by simp
  have "unat (- 1 - q - PGSIZE) = unat (- 1 - q) - 4096"
    using unat_sub [of PGSIZE "- 1 - q"] b neg by (simp add: word_le_nat_alt)
  then have "unat (- 1 - q - PGSIZE) < unat (- 1 - q)"
    using b neg by simp
  then show "((s', p + PGSIZE, vend), s, p, vend) \<in> measure (\<lambda>(s, p, vend). unat (KERNBASE - 1 - p))"
    by (simp only: in_measure case_prod_conv p)
qed simp

declare freerange_loop.simps [simp del]

definition freerange :: "'z mstate_scheme \<Rightarrow> u32 \<Rightarrow> u32 \<Rightarrow> 'z mstate_scheme kres" where
  "freerange s vstart vend = freerange_loop s (PGROUNDUP vstart) vend"

definition kinit1 :: "'z mstate_scheme \<Rightarrow> u32 \<Rightarrow> u32 \<Rightarrow> 'z mstate_scheme kres" where
  "kinit1 s vstart vend = freerange (s\<lparr>use_lock := False\<rparr>) vstart vend"

definition kinit2 :: "'z mstate_scheme \<Rightarrow> u32 \<Rightarrow> u32 \<Rightarrow> 'z mstate_scheme kres" where
  "kinit2 s vstart vend = kbind (freerange s vstart vend) (\<lambda>s. OK (s\<lparr>use_lock := True\<rparr>))"

subsection \<open>Pages in memory\<close>

lemma mask_page: "(4095 :: u32) = mask 12"
  by (simp add: mask_eq_exp_minus_1)

lemma mod_page: "(x :: u32) mod 4096 = take_bit 12 x"
  by (simp add: take_bit_eq_mod)

lemma PGROUNDDOWN_aligned: "PGROUNDDOWN a mod 4096 = 0"
  unfolding PGROUNDDOWN_def mod_page
  by (simp add: mask_page) (simp add: bit_eq_iff bit_take_bit_iff bit_and_iff bit_not_iff bit_mask_iff)

lemma PGROUNDUP_aligned: "PGROUNDUP a mod 4096 = 0"
  using PGROUNDDOWN_aligned [of "a + PGSIZE - 1"] by (simp add: PGROUNDUP_def PGROUNDDOWN_def)

lemma unat_page_0: "(x :: u32) mod 4096 = 0 \<longleftrightarrow> 4096 dvd unat x"
  by (simp add: word_unat_eq_iff unat_mod dvd_eq_mod_eq_0)

lemma page_disjoint:
  fixes x v i :: u32
  assumes "x mod 4096 = 0" "v mod 4096 = 0" "x \<noteq> v" "unat i < 4096"
  shows "4096 \<le> unat (x + i - v)"
proof -
  define d where "d = x - v"
  have "x = v + d" by (simp add: d_def)
  then have "unat x = (unat v + unat d) mod 4294967296" by (simp add: unat_word_ariths)
  moreover have "(unat v + unat d) mod 4294967296 mod 4096 = (unat v + unat d) mod 4096"
    by (rule mod_mod_cancel) simp
  ultimately have "4096 dvd unat v + unat d"
    using assms(1) by (simp add: unat_page_0 dvd_eq_mod_eq_0)
  then have dm: "4096 dvd unat d"
    using assms(2) by (simp add: unat_page_0 dvd_add_right_iff)
  then obtain k where k: "unat d = 4096 * k" by (rule dvdE)
  have "unat d \<noteq> 0" using assms(3) by (simp add: d_def unat_eq_0)
  with k have lo: "4096 \<le> unat d" by simp
  have hi: "unat d \<le> 4294963200" using k unat_u32_less [of d] by simp
  have eq: "x + i - v = d + i" by (simp add: d_def)
  have "unat (d + i) = unat d + unat i"
    using hi assms(4) by (simp add: unat_word_ariths)
  then show ?thesis unfolding eq using lo by simp
qed

lemma load32_store32 [simp]: "load32 (store32 m a w) a = w"
proof -
  have "a + 1 \<noteq> a" "a + 2 \<noteq> a" "a + 3 \<noteq> a" "a + 2 \<noteq> a + 1" "a + 3 \<noteq> a + 1" "a + 3 \<noteq> a + 2"
    by simp_all
  moreover have "le32 w = [le32 w ! 0, le32 w ! 1, le32 w ! 2, le32 w ! 3]"
    by (simp add: le32_def numeral_eq_Suc)
  ultimately show ?thesis
    using of_le32_le32 [of w] unfolding load32_def store32_def by simp
qed

definition in_page :: "u32 \<Rightarrow> u32 \<Rightarrow> bool" where
  "in_page v a \<longleftrightarrow> unat (a - v) < 4096"

lemma in_page_other:
  "x mod 4096 = 0 \<Longrightarrow> v mod 4096 = 0 \<Longrightarrow> x \<noteq> v \<Longrightarrow> unat i < 4096 \<Longrightarrow> \<not> in_page v (x + i)"
  using page_disjoint [of x v i] by (simp add: in_page_def)

lemma load32_cong:
  assumes "\<And>i. unat i < 4 \<Longrightarrow> m (a + i) = m' (a + i)"
  shows "load32 m a = load32 m' a"
  using assms [of 0] assms [of 1] assms [of 2] assms [of 3] by (simp add: load32_def)

lemma store32_other: "\<not> unat (x - a) < 4 \<Longrightarrow> store32 m a w x = m x"
  by (cases "x = a"; cases "x = a + 1"; cases "x = a + 2"; cases "x = a + 3") (simp_all add: store32_def)

lemma unat_offset:
  assumes "unat (b - d :: u32) + unat i < 4294967296"
  shows "unat (b + i - d) = unat (b - d) + unat i"
proof -
  have eq: "b + i - d = (b - d) + i" by simp
  have "unat (b - d + i) = unat (b - d) + unat i"
    using assms unat_add_lem [of "b - d" i] by simp
  then show ?thesis unfolding eq .
qed

lemma unat_diff_swap:
  assumes "a \<noteq> (b :: u32)"
  shows "unat (a - b) + unat (b - a) = 4294967296"
proof -
  have "(unat (a - b) + unat (b - a)) mod 4294967296 = unat ((a - b) + (b - a))"
    by (simp only: unat_word_ariths) simp
  then have "4294967296 dvd unat (a - b) + unat (b - a)" by (simp add: dvd_eq_mod_eq_0)
  then obtain k where k: "unat (a - b) + unat (b - a) = 4294967296 * k" by (rule dvdE)
  have "unat (a - b) \<noteq> 0" using assms by (simp add: unat_eq_0)
  with k have "k \<noteq> 0" by (cases k) auto
  moreover have "k < 2" using k unat_u32_less [of "a - b"] unat_u32_less [of "b - a"] by linarith
  ultimately have "k = 1" by linarith
  with k show ?thesis by simp
qed

lemma load32_store32_other:
  assumes "4 \<le> unat (b - a)" and "4 \<le> unat (a - b)"
  shows "load32 (store32 m a w) b = load32 m b"
proof (rule load32_cong)
  fix i :: u32 assume i: "unat i < 4"
  have "a \<noteq> b" using assms(1) by auto
  then have "unat (b - a) \<le> 4294967292" using assms(2) unat_diff_swap [of a b] by simp
  then have "unat (b + i - a) = unat (b - a) + unat i"
    using i by (intro unat_offset) simp
  then show "store32 m a w (b + i) = m (b + i)"
    using assms(1) by (intro store32_other) simp
qed

lemma load32_memset_in:
  assumes "unat (b - d) + 4 \<le> unat n"
  shows "load32 (memset m d 0 n) b = 0"
proof -
  have "unat (b + i - d) = unat (b - d) + unat i" if "unat i < 4" for i
    using that assms unat_u32_less [of n] by (intro unat_offset) simp
  from this [of 0] this [of 1] this [of 2] this [of 3] assms
  show ?thesis by (simp add: load32_def memset_eq)
qed

lemma load32_memset_other:
  assumes "unat n \<le> unat (b - d)" and "unat (b - d) \<le> 4294967292"
  shows "load32 (memset m d c n) b = load32 m b"
proof (rule load32_cong)
  fix i :: u32 assume i: "unat i < 4"
  have "unat (b + i - d) = unat (b - d) + unat i"
    using i assms(2) by (intro unat_offset) simp
  with assms(1) show "memset m d c n (b + i) = m (b + i)" by (simp add: memset_eq)
qed

lemma store32_in_page: "a mod 4096 = 0 \<Longrightarrow> \<not> in_page a x \<Longrightarrow> store32 m a w x = m x"
  by (rule store32_other) (simp add: in_page_def)

subsection \<open>The free list\<close>

primrec chain :: "mem \<Rightarrow> u32 \<Rightarrow> u32 list \<Rightarrow> bool" where
  "chain m p [] \<longleftrightarrow> p = 0"
| "chain m p (x # xs) \<longleftrightarrow> p = x \<and> x \<noteq> 0 \<and> chain m (load32 m x) xs"

definition page_ok :: "u32 \<Rightarrow> u32 \<Rightarrow> bool" where
  "page_ok e v \<longleftrightarrow> v mod PGSIZE = 0 \<and> e \<le> v \<and> V2P v < PHYSTOP"

definition free_list :: "'z mstate_scheme \<Rightarrow> u32 list \<Rightarrow> bool" where
  "free_list s xs \<longleftrightarrow> 0 < kend s \<and> chain (mem s) (freelist s) xs \<and> distinct xs \<and>
     (\<forall>x \<in> set xs. page_ok (kend s) x)"

lemma chain_cong:
  "(\<And>x. x \<in> set xs \<Longrightarrow> load32 m x = load32 m' x) \<Longrightarrow> chain m p xs = chain m' p xs"
  by (induction xs arbitrary: p) auto

lemma chain_fun: "chain m p xs \<Longrightarrow> chain m p ys \<Longrightarrow> xs = ys"
proof (induction xs arbitrary: p ys)
  case (Cons x xs)
  then show ?case by (cases ys) auto
next
  case Nil
  then show ?case by (cases ys) auto
qed

lemma free_list_fun: "free_list s xs \<Longrightarrow> free_list s ys \<Longrightarrow> xs = ys"
  by (auto simp: free_list_def dest: chain_fun)

text \<open>Writing outside the free pages does not disturb the free list.\<close>

lemma free_list_frame:
  assumes "free_list s xs" and "\<And>a x. x \<in> set xs \<Longrightarrow> in_page x a \<Longrightarrow> m' a = mem s a"
  shows "free_list (s\<lparr>mem := m'\<rparr>) xs"
proof -
  have "load32 m' x = load32 (mem s) x" if "x \<in> set xs" for x
    by (rule load32_cong) (use assms(2) that in \<open>auto simp: in_page_def\<close>)
  then show ?thesis
    using assms(1) chain_cong [of xs m' "mem s"] by (auto simp: free_list_def)
qed

subsection \<open>Freeing and allocating\<close>

lemma kfree_page:
  assumes "page_ok (kend s) v"
  shows "\<exists>m'. kfree s v = OK (s\<lparr>mem := m', freelist := v\<rparr>) \<and> load32 m' v = freelist s \<and>
    (\<forall>a. \<not> in_page v a \<longrightarrow> m' a = mem s a)"
proof (intro exI conjI allI impI)
  let ?m' = "store32 (memset (mem s) v 1 4096) v (freelist s)"
  show "kfree s v = OK (s\<lparr>mem := ?m', freelist := v\<rparr>)"
    using assms by (auto simp: kfree_def page_ok_def Let_def)
  show "?m' a = mem s a" if "\<not> in_page v a" for a
    using assms that by (simp add: page_ok_def store32_in_page memset_eq in_page_def)
qed simp

lemma kfree_free_list:
  assumes "free_list s xs" and "page_ok (kend s) v" and "v \<notin> set xs"
  shows "\<exists>s'. kfree s v = OK s' \<and> free_list s' (v # xs) \<and> kend s' = kend s \<and>
    (\<forall>a. \<not> in_page v a \<longrightarrow> mem s' a = mem s a)"
proof -
  obtain m' where m': "kfree s v = OK (s\<lparr>mem := m', freelist := v\<rparr>)" "load32 m' v = freelist s"
    "\<forall>a. \<not> in_page v a \<longrightarrow> m' a = mem s a"
    using kfree_page [OF assms(2)] by blast
  have "load32 (mem s) x = load32 m' x" if "x \<in> set xs" for x
  proof (rule load32_cong)
    fix i :: u32 assume "unat i < 4"
    then have "\<not> in_page v (x + i)"
      using assms that by (intro in_page_other) (auto simp: free_list_def page_ok_def)
    then show "mem s (x + i) = m' (x + i)" by (simp add: m'(3))
  qed
  then have "chain m' (freelist s) xs"
    using assms(1) chain_cong [of xs "mem s" m'] by (simp add: free_list_def)
  moreover have "v \<noteq> 0" using assms(1,2) by (auto simp: free_list_def page_ok_def)
  ultimately have "free_list (s\<lparr>mem := m', freelist := v\<rparr>) (v # xs)"
    using assms m'(2) by (auto simp: free_list_def)
  with m'(1,3) show ?thesis by (intro exI [of _ "s\<lparr>mem := m', freelist := v\<rparr>"]) simp
qed

lemma kalloc_free_list:
  assumes "free_list s xs"
  shows "kalloc s = (case xs of [] \<Rightarrow> (0, s) | x # _ \<Rightarrow> (x, s\<lparr>freelist := load32 (mem s) x\<rparr>))"
    and "free_list (snd (kalloc s)) (tl xs)"
proof -
  show "kalloc s = (case xs of [] \<Rightarrow> (0, s) | x # _ \<Rightarrow> (x, s\<lparr>freelist := load32 (mem s) x\<rparr>))"
    using assms by (cases xs) (simp_all add: kalloc_def free_list_def Let_def)
  show "free_list (snd (kalloc s)) (tl xs)"
    using assms by (cases xs) (simp_all add: kalloc_def free_list_def Let_def)
qed

lemma kalloc_simps [simp]:
  "mem (snd (kalloc s)) = mem s" "kend (snd (kalloc s)) = kend s"
  by (simp_all add: kalloc_def Let_def)

text \<open>The contract of a page allocator, over the list of pages it has free.\<close>

locale page_pool =
  fixes alloc :: "'s \<Rightarrow> u32 \<times> 's"
    and free_page :: "'s \<Rightarrow> u32 \<Rightarrow> 's kres"
    and pool :: "'s \<Rightarrow> u32 list \<Rightarrow> bool"
    and valid :: "'s \<Rightarrow> u32 \<Rightarrow> bool"
  assumes alloc_none: "pool s [] \<Longrightarrow> alloc s = (0, s)"
    and alloc_some: "pool s (x # xs) \<Longrightarrow> fst (alloc s) = x \<and> pool (snd (alloc s)) xs"
    and free_back: "pool s xs \<Longrightarrow> valid s v \<Longrightarrow> v \<notin> set xs \<Longrightarrow>
      \<exists>s'. free_page s v = OK s' \<and> pool s' (v # xs)"
    and pool_distinct: "pool s xs \<Longrightarrow> distinct xs"
    and pool_valid: "pool s xs \<Longrightarrow> x \<in> set xs \<Longrightarrow> valid s x \<and> x \<noteq> 0"
    and valid_alloc: "valid (snd (alloc s)) = valid s"

primrec alloc_many :: "('s \<Rightarrow> u32 \<times> 's) \<Rightarrow> nat \<Rightarrow> 's \<Rightarrow> u32 list \<times> 's" where
  "alloc_many alloc 0 s = ([], s)"
| "alloc_many alloc (Suc n) s =
     (let (p, s) = alloc s; (ps, s) = alloc_many alloc n s in (p # ps, s))"

context page_pool
begin

lemma alloc_many_eq:
  "pool s xs \<Longrightarrow> n \<le> length xs \<Longrightarrow>
     fst (alloc_many alloc n s) = take n xs \<and> pool (snd (alloc_many alloc n s)) (drop n xs)"
proof (induction n arbitrary: s xs)
  case (Suc n)
  then obtain x ys where xs: "xs = x # ys" by (cases xs) auto
  with Suc.prems alloc_some have "fst (alloc s) = x" "pool (snd (alloc s)) ys" by auto
  with Suc.IH [of "snd (alloc s)" ys] Suc.prems show ?case
    by (simp add: xs case_prod_beta Let_def)
qed simp

lemma alloc_many_fresh:
  assumes "pool s xs" and "n \<le> length xs"
  shows "distinct (fst (alloc_many alloc n s))" and "0 \<notin> set (fst (alloc_many alloc n s))"
  using alloc_many_eq [OF assms] pool_distinct [OF assms(1)] pool_valid [OF assms(1)]
  by (auto dest: in_set_takeD)

lemma free_then_alloc:
  assumes "pool s xs" and "valid s v" and "v \<notin> set xs"
  shows "\<exists>s'. free_page s v = OK s' \<and> fst (alloc s') = v \<and> pool (snd (alloc s')) xs"
  using free_back [OF assms] alloc_some by blast

end

interpretation kmem: page_pool kalloc kfree free_list "\<lambda>s. page_ok (kend s)"
proof (unfold_locales, goal_cases)
  case (3 s xs v)
  then show ?case using kfree_free_list by blast
next
  case (5 s xs x)
  then show ?case by (auto simp: free_list_def page_ok_def)
qed (auto simp: kalloc_free_list free_list_def kalloc_def Let_def)

subsection \<open>Building the free list\<close>

definition pages_between :: "u32 \<Rightarrow> u32 \<Rightarrow> u32 set" where
  "pages_between p vend = {x. x mod PGSIZE = 0 \<and> p \<le> x \<and> unat x + 4096 \<le> unat vend}"

lemma unat_next_page: "unat p \<le> 0x8E001000 \<Longrightarrow> unat (p + 4096 :: u32) = unat p + 4096"
  by (simp add: unat_word_ariths)

lemma aligned_next_page: "(p :: u32) mod 4096 = 0 \<Longrightarrow> unat p \<le> 0x8E001000 \<Longrightarrow> (p + 4096) mod 4096 = 0"
  by (simp add: unat_page_0 unat_next_page)

lemma aligned_next_le:
  assumes "(p :: u32) mod 4096 = 0" "x mod 4096 = 0" "p \<le> x" "x \<noteq> p" "unat p \<le> 0x8E001000"
  shows "p + 4096 \<le> x"
proof -
  obtain j k where jk: "unat p = 4096 * j" "unat x = 4096 * k"
    using assms(1,2) by (auto simp: unat_page_0 elim!: dvdE)
  have "unat p < unat x" using assms(3,4) by (auto simp: word_le_nat_alt word_unat_eq_iff)
  with jk have "4096 * j + 4096 \<le> 4096 * k" by simp
  with jk assms(5) show ?thesis by (simp add: word_le_nat_alt unat_next_page)
qed

lemma pages_between_step:
  assumes "p mod 4096 = 0" and "unat p \<le> 0x8E001000" and "p + 4096 \<le> vend"
  shows "pages_between p vend = insert p (pages_between (p + 4096) vend)"
proof (rule set_eqI)
  fix x
  have pv: "unat p + 4096 \<le> unat vend" using assms(2,3) by (simp add: word_le_nat_alt unat_next_page)
  show "x \<in> pages_between p vend \<longleftrightarrow> x \<in> insert p (pages_between (p + 4096) vend)"
  proof (cases "x = p")
    case True
    with assms(1) pv show ?thesis by (simp add: pages_between_def)
  next
    case False
    have "p \<le> x \<longleftrightarrow> p + 4096 \<le> x" if "x mod 4096 = 0"
    proof
      show "p \<le> x" if "p + 4096 \<le> x"
        using that assms(2) by (simp add: word_le_nat_alt unat_next_page)
    qed (use that assms False in \<open>intro aligned_next_le\<close>)
    with False show ?thesis unfolding pages_between_def insert_iff mem_Collect_eq by metis
  qed
qed

lemma pages_between_done:
  assumes "unat p \<le> 0x8E001000" and "\<not> p + 4096 \<le> vend"
  shows "pages_between p vend = {}"
  using assms by (auto simp: pages_between_def word_le_nat_alt unat_next_page)

lemma freerange_loop_free_list:
  assumes "free_list s xs" and "p mod 4096 = 0" and "KERNBASE \<le> kend s" and "kend s \<le> p"
    and "unat vend \<le> 0x8E000000" and "unat p \<le> 0x8E001000"
    and "\<And>x. x \<in> set xs \<Longrightarrow> x < p \<or> vend \<le> x"
  shows "\<exists>s' ys. freerange_loop s p vend = OK s' \<and> free_list s' (ys @ xs) \<and>
    set ys = pages_between p vend \<and> kend s' = kend s"
  using assms
proof (induction s p vend arbitrary: xs rule: freerange_loop.induct)
  case (1 s p vend)
  show ?case
  proof (cases "p + 4096 \<le> vend")
    case False
    then have "freerange_loop s p vend = OK s" by (subst freerange_loop.simps) simp
    with False "1.prems" show ?thesis
      by (intro exI [of _ s] exI [of _ "[]"]) (simp add: pages_between_done)
  next
    case True
    note next_page = unat_next_page [OF "1.prems"(6)]
    have pv: "unat p + 4096 \<le> unat vend" using True by (simp add: word_le_nat_alt next_page)
    have "V2P p < PHYSTOP"
      using pv "1.prems"(3-5) unat_sub [of KERNBASE p]
      by (auto simp: V2P_def word_less_nat_alt word_le_nat_alt)
    then have ok: "page_ok (kend s) p" using "1.prems"(2,4) by (simp add: page_ok_def)
    have "p \<notin> set xs" using "1.prems"(7) [of p] pv by (auto simp: word_less_nat_alt word_le_nat_alt)
    then obtain s1 where s1: "kfree s p = OK s1" "free_list s1 (p # xs)" "kend s1 = kend s"
      using kfree_free_list [OF "1.prems"(1) ok] by blast
    have unfold: "freerange_loop s p vend = freerange_loop s1 (p + 4096) vend"
      using True s1(1) by (subst freerange_loop.simps) simp
    have below: "x < p + 4096 \<or> vend \<le> x" if "x \<in> set (p # xs)" for x
      using that "1.prems"(7) [of x] next_page by (auto simp: word_less_nat_alt)
    have "\<exists>s' ys. freerange_loop s1 (p + 4096) vend = OK s' \<and> free_list s' (ys @ p # xs) \<and>
        set ys = pages_between (p + 4096) vend \<and> kend s' = kend s1"
      by (rule "1.IH" [OF True s1(1) s1(2)])
         (use "1.prems" s1(3) pv next_page below aligned_next_page
          in \<open>auto simp: word_le_nat_alt\<close>)
    then obtain s' ys where s': "freerange_loop s1 (p + 4096) vend = OK s'"
      "free_list s' (ys @ p # xs)" "set ys = pages_between (p + 4096) vend" "kend s' = kend s"
      using s1(3) by auto
    then have "free_list s' ((ys @ [p]) @ xs)" by simp
    moreover have "set (ys @ [p]) = pages_between p vend"
      using s'(3) pages_between_step [OF "1.prems"(2,6) True] by simp
    ultimately show ?thesis unfolding unfold using s'(1,4) by blast
  qed
qed

subsection \<open>Properties\<close>

definition boot_mem :: mstate where
  "boot_mem = \<lparr>mem = (\<lambda>_. 0), kend = 0x80100000, kdata = 0x80100000, use_lock = False, freelist = 0\<rparr>"

lemma boot_mem_free_list: "free_list boot_mem []"
  by (simp add: free_list_def boot_mem_def)

text \<open>
  Property C23. Starting from any well-formed free list, freeing an address range above the kernel
  adds exactly the whole pages inside the range, and the result is again a well-formed free list
  (linked through the pages, without repetition, of valid pages).
\<close>

theorem freerange_frees_pages:
  assumes "free_list s xs" and "KERNBASE \<le> kend s" and "kend s \<le> PGROUNDUP vstart"
    and "unat (PGROUNDUP vstart) \<le> 0x8E001000"
    and "unat vend \<le> 0x8E000000" and "\<forall>x \<in> set xs. x < PGROUNDUP vstart \<or> vend \<le> x"
  shows "\<exists>s' ys. freerange s vstart vend = OK s' \<and> free_list s' (ys @ xs) \<and>
    set ys = pages_between (PGROUNDUP vstart) vend"
  using freerange_loop_free_list [OF assms(1) PGROUNDUP_aligned assms(2,3,5,4)] assms(6) unfolding freerange_def by blast

theorem freerange_frees_pages_witness:
  "\<exists>s' ys. freerange boot_mem 0x80100001 0x80103000 = OK s' \<and> free_list s' (ys @ []) \<and>
    set ys = pages_between 0x80101000 0x80103000"
proof -
  have r: "PGROUNDUP 0x80100001 = 0x80101000" by (simp add: PGROUNDUP_def)
  show ?thesis
    using freerange_frees_pages [of boot_mem "[]" "0x80100001" "0x80103000"] boot_mem_free_list
    unfolding r by (simp add: boot_mem_def)
qed

text \<open>
  Property C15. As long as the free list is well formed, the pages kalloc hands out are the pages of
  the list: any number of them taken in a row are distinct, none is the null pointer, and the pages
  that are left form a well-formed list again.
\<close>

theorem kalloc_distinct_pages:
  assumes "free_list s xs" and "n \<le> length xs"
  shows "distinct (fst (alloc_many kalloc n s)) \<and> 0 \<notin> set (fst (alloc_many kalloc n s)) \<and>
    fst (alloc_many kalloc n s) = take n xs \<and>
    free_list (snd (alloc_many kalloc n s)) (drop n xs)"
  using kmem.alloc_many_fresh [OF assms] kmem.alloc_many_eq [OF assms] by blast

definition two_pages :: mstate where
  "two_pages = boot_mem\<lparr>mem := store32 (store32 (\<lambda>_. 0) 0x80100000 0) 0x80101000 0x80100000,
     freelist := 0x80101000\<rparr>"

theorem kalloc_distinct_pages_witness:
  "free_list two_pages [0x80101000, 0x80100000] \<and>
   fst (alloc_many kalloc 2 two_pages) = [0x80101000, 0x80100000]"
proof -
  have "load32 (mem two_pages) 0x80101000 = 0x80100000"
    by (simp add: two_pages_def)
  moreover have "load32 (mem two_pages) 0x80100000 = 0"
    by (simp add: two_pages_def load32_def store32_def le32_def)
  ultimately have f: "free_list two_pages [0x80101000, 0x80100000]"
    by (simp add: free_list_def page_ok_def V2P_def two_pages_def boot_mem_def)
  show ?thesis using f kalloc_distinct_pages [OF f, of 2] by simp
qed

text \<open>
  Property C24. A page given back to the allocator is the next page it hands out, and the free list
  is as before: kfree followed by kalloc is the identity on the set of free pages.
\<close>

theorem kfree_kalloc_roundtrip:
  assumes "free_list s xs" and "page_ok (kend s) v" and "v \<notin> set xs"
  shows "\<exists>s'. kfree s v = OK s' \<and> fst (kalloc s') = v \<and> free_list (snd (kalloc s')) xs"
  using kmem.free_then_alloc [OF assms] .

theorem kfree_kalloc_roundtrip_witness:
  "\<exists>s'. kfree boot_mem 0x80200000 = OK s' \<and> fst (kalloc s') = 0x80200000 \<and>
     free_list (snd (kalloc s')) []"
  using kfree_kalloc_roundtrip [OF boot_mem_free_list, of "0x80200000"]
  by (simp add: boot_mem_def page_ok_def V2P_def)

end
