(* ===== verification/Spinlock.thy ===== *)
theory Spinlock
  imports Xv6_Prelude
begin

text \<open>
  Spin locks and interrupt nesting, spinlock.c.  The first part translates the routines as one CPU
  runs them.  The second part is the machine: any number of CPUs run acquire and release on one
  lock, interleaved at the granularity of the code's memory accesses (the atomic exchange, the write
  of the owner, the clearing of the owner, the clearing of the lock word).  The debugging call
  stack recorded by \<open>getcallerpcs\<close> is not part of the lock state.
\<close>

subsection \<open>The routines\<close>

record cpu =
  cpuid :: nat
  ncli :: int           \<comment> \<open>depth of pushcli nesting\<close>
  intena :: bool        \<comment> \<open>were interrupts enabled before pushcli?\<close>
  flag_if :: bool       \<comment> \<open>FL_IF of the CPU's eflags\<close>

record spinlock =
  locked :: bool
  owner :: "nat option" \<comment> \<open>the CPU holding the lock\<close>

definition initlock :: spinlock where
  "initlock = \<lparr>locked = False, owner = None\<rparr>"

definition holding :: "cpu \<Rightarrow> spinlock \<Rightarrow> bool" where
  "holding c lk \<longleftrightarrow> locked lk \<and> owner lk = Some (cpuid c)"

definition pushcli :: "cpu \<Rightarrow> cpu" where
  "pushcli c =
     (let eflags = flag_if c;
          c = c\<lparr>flag_if := False\<rparr>;
          c = (if ncli c = 0 then c\<lparr>intena := eflags\<rparr> else c)
      in c\<lparr>ncli := ncli c + 1\<rparr>)"

definition popcli :: "cpu \<Rightarrow> cpu kres" where
  "popcli c =
     (if flag_if c then Panic ''popcli - interruptible''
      else let c = c\<lparr>ncli := ncli c - 1\<rparr>
           in if ncli c < 0 then Panic ''popcli''
              else if ncli c = 0 \<and> intena c then OK (c\<lparr>flag_if := True\<rparr>)
              else OK c)"

text \<open>
  A call of acquire that finds the lock free takes it; one that finds it taken by another CPU keeps
  spinning on the exchange, and the outcome records only that (the interleaving is below).
\<close>

datatype lock_outcome = Acquired cpu spinlock | Spinning cpu | LockPanic string

definition acquire :: "cpu \<Rightarrow> spinlock \<Rightarrow> lock_outcome" where
  "acquire c lk =
     (let c = pushcli c
      in if holding c lk then LockPanic ''acquire''
         else if locked lk then Spinning c
         else Acquired c (lk\<lparr>locked := True, owner := Some (cpuid c)\<rparr>))"

definition release :: "cpu \<Rightarrow> spinlock \<Rightarrow> (cpu \<times> spinlock) kres" where
  "release c lk =
     (if \<not> holding c lk then Panic ''release''
      else let lk = lk\<lparr>owner := None\<rparr>;
               lk = lk\<lparr>locked := False\<rparr>
           in kbind (popcli c) (\<lambda>c. OK (c, lk)))"

definition cpu_ok :: "cpu \<Rightarrow> bool" where
  "cpu_ok c \<longleftrightarrow> 0 \<le> ncli c \<and> (0 < ncli c \<longrightarrow> \<not> flag_if c)"

lemma pushcli_ok: "cpu_ok c \<Longrightarrow> cpu_ok (pushcli c)"
  by (auto simp: cpu_ok_def pushcli_def Let_def)

lemma popcli_pushcli:
  "cpu_ok c \<Longrightarrow> \<exists>c'. popcli (pushcli c) = OK c' \<and> ncli c' = ncli c \<and> flag_if c' = flag_if c \<and>
     cpuid c' = cpuid c \<and> (0 < ncli c \<longrightarrow> intena c' = intena c)"
  by (auto simp: cpu_ok_def pushcli_def popcli_def Let_def)

primrec pushn :: "nat \<Rightarrow> cpu \<Rightarrow> cpu" where
  "pushn 0 c = c"
| "pushn (Suc n) c = pushcli (pushn n c)"

primrec popn :: "nat \<Rightarrow> cpu \<Rightarrow> cpu kres" where
  "popn 0 c = OK c"
| "popn (Suc n) c = kbind (popcli c) (popn n)"

lemma pushn_fields:
  assumes "0 < n"
  shows "flag_if (pushn n c) = False" "ncli (pushn n c) = ncli c + int n"
    "cpuid (pushn n c) = cpuid c"
    "0 \<le> ncli c \<Longrightarrow> intena (pushn n c) = (if ncli c = 0 then flag_if c else intena c)"
proof -
  have "flag_if (pushn n c) = False \<and> ncli (pushn n c) = ncli c + int n \<and>
      cpuid (pushn n c) = cpuid c \<and>
      (0 \<le> ncli c \<longrightarrow> intena (pushn n c) = (if ncli c = 0 then flag_if c else intena c))"
    using assms
  proof (induction n)
    case (Suc n)
    then show ?case by (cases "n = 0") (auto simp: pushcli_def Let_def)
  qed simp
  then show "flag_if (pushn n c) = False" "ncli (pushn n c) = ncli c + int n"
    "cpuid (pushn n c) = cpuid c"
    "0 \<le> ncli c \<Longrightarrow> intena (pushn n c) = (if ncli c = 0 then flag_if c else intena c)"
    by auto
qed

lemma popn_down:
  assumes "\<not> flag_if c" and "0 \<le> ncli c - int n"
  shows "popn n c = OK (c\<lparr>ncli := ncli c - int n,
    flag_if := (0 < n \<and> ncli c = int n \<and> intena c)\<rparr>)"
  using assms
proof (induction n arbitrary: c)
  case (Suc n)
  have "popcli c = OK (c\<lparr>ncli := ncli c - 1, flag_if := (ncli c = 1 \<and> intena c)\<rparr>)"
    using Suc.prems by (auto simp: popcli_def Let_def)
  moreover have "n = 0" if "ncli c = 1" using that Suc.prems(2) by simp
  moreover have "ncli c - 1 = int n \<longleftrightarrow> ncli c = 1 + int n" by linarith
  ultimately show ?case
    using Suc.prems Suc.IH [of "c\<lparr>ncli := ncli c - 1, flag_if := (ncli c = 1 \<and> intena c)\<rparr>"]
    by (cases "n = 0") (auto simp: diff_diff_eq)
qed simp

subsection \<open>CPUs competing for one lock\<close>

datatype lock_pc =
    Idle       \<comment> \<open>outside acquire and release\<close>
  | Trying     \<comment> \<open>in the exchange loop\<close>
  | Taken      \<comment> \<open>the exchange returned 0, owner not yet written\<close>
  | Inside     \<comment> \<open>acquire has returned\<close>
  | Leaving    \<comment> \<open>in release, owner cleared, lock word not yet\<close>
  | Halted     \<comment> \<open>panicked\<close>

record lock_machine =
  mlock :: spinlock
  cpus :: "nat \<Rightarrow> cpu"
  lpc :: "nat \<Rightarrow> lock_pc"

abbreviation set_pc :: "lock_machine \<Rightarrow> nat \<Rightarrow> lock_pc \<Rightarrow> lock_machine" where
  "set_pc m i p \<equiv> m\<lparr>lpc := (lpc m)(i := p)\<rparr>"

inductive lock_step :: "lock_machine \<Rightarrow> lock_machine \<Rightarrow> bool" where
  enter: "lpc m i = Idle \<Longrightarrow> c = pushcli (cpus m i) \<Longrightarrow> \<not> holding c (mlock m) \<Longrightarrow>
    lock_step m (set_pc (m\<lparr>cpus := (cpus m)(i := c)\<rparr>) i Trying)"
| enter_panic: "lpc m i = Idle \<Longrightarrow> holding (pushcli (cpus m i)) (mlock m) \<Longrightarrow>
    lock_step m (set_pc m i Halted)"
| spin: "lpc m i = Trying \<Longrightarrow> locked (mlock m) \<Longrightarrow> lock_step m m"
| xchg: "lpc m i = Trying \<Longrightarrow> \<not> locked (mlock m) \<Longrightarrow>
    lock_step m (set_pc (m\<lparr>mlock := (mlock m)\<lparr>locked := True\<rparr>\<rparr>) i Taken)"
| own: "lpc m i = Taken \<Longrightarrow>
    lock_step m (set_pc (m\<lparr>mlock := (mlock m)\<lparr>owner := Some (cpuid (cpus m i))\<rparr>\<rparr>) i Inside)"
| disown: "lpc m i = Inside \<Longrightarrow> holding (cpus m i) (mlock m) \<Longrightarrow>
    lock_step m (set_pc (m\<lparr>mlock := (mlock m)\<lparr>owner := None\<rparr>\<rparr>) i Leaving)"
| disown_panic: "lpc m i = Inside \<Longrightarrow> \<not> holding (cpus m i) (mlock m) \<Longrightarrow>
    lock_step m (set_pc m i Halted)"
| unlock: "lpc m i = Leaving \<Longrightarrow> popcli (cpus m i) = OK c \<Longrightarrow>
    lock_step m (set_pc (m\<lparr>mlock := (mlock m)\<lparr>locked := False\<rparr>, cpus := (cpus m)(i := c)\<rparr>) i Idle)"
| unlock_panic: "lpc m i = Leaving \<Longrightarrow> popcli (cpus m i) = Panic msg \<Longrightarrow>
    lock_step m (set_pc m i Halted)"

inductive lock_reachable :: "(nat \<Rightarrow> cpu) \<Rightarrow> lock_machine \<Rightarrow> bool" for cs where
  lock_start: "lock_reachable cs \<lparr>mlock = initlock, cpus = cs, lpc = (\<lambda>_. Idle)\<rparr>"
| lock_more: "lock_reachable cs m \<Longrightarrow> lock_step m m' \<Longrightarrow> lock_reachable cs m'"

definition in_section :: "lock_machine \<Rightarrow> nat \<Rightarrow> bool" where
  "in_section m i \<longleftrightarrow> lpc m i \<in> {Taken, Inside, Leaving}"

definition lock_inv :: "lock_machine \<Rightarrow> bool" where
  "lock_inv m \<longleftrightarrow>
     (\<forall>i. cpuid (cpus m i) = i \<and> cpu_ok (cpus m i) \<and> lpc m i \<noteq> Halted) \<and>
     (\<forall>i. lpc m i \<noteq> Idle \<longrightarrow> 0 < ncli (cpus m i) \<and> \<not> flag_if (cpus m i)) \<and>
     (\<forall>i. in_section m i \<longrightarrow> locked (mlock m)) \<and>
     (\<forall>i j. in_section m i \<longrightarrow> in_section m j \<longrightarrow> i = j) \<and>
     (\<forall>i. owner (mlock m) = Some i \<longleftrightarrow> lpc m i = Inside)"

lemma pushcli_fields [simp]:
  "cpuid (pushcli c) = cpuid c" "ncli (pushcli c) = ncli c + 1" "flag_if (pushcli c) = False"
  by (simp_all add: pushcli_def Let_def)

lemma popcli_OK:
  "popcli c = OK c' \<Longrightarrow> cpu_ok c \<Longrightarrow> 0 < ncli c \<Longrightarrow> cpu_ok c' \<and> cpuid c' = cpuid c"
  by (auto simp: popcli_def cpu_ok_def Let_def split: if_splits)

lemma popcli_no_panic: "0 < ncli c \<Longrightarrow> \<not> flag_if c \<Longrightarrow> popcli c \<noteq> Panic msg"
  by (auto simp: popcli_def Let_def)

lemma lock_step_inv: "lock_step m m' \<Longrightarrow> lock_inv m \<Longrightarrow> lock_inv m'"
proof (induction rule: lock_step.induct)
  case (enter m i c)
  then show ?case
    using pushcli_ok [of "cpus m i"]
    by (auto simp: lock_inv_def in_section_def cpu_ok_def)
next
  case (enter_panic m i)
  then have "owner (mlock m) = Some i" by (auto simp: lock_inv_def holding_def)
  with enter_panic.prems have "lpc m i = Inside" unfolding lock_inv_def by blast
  with enter_panic.hyps(1) show ?case by simp
next
  case (xchg m i)
  then show ?case unfolding lock_inv_def in_section_def by (auto split: if_splits)
next
  case (own m i)
  then show ?case unfolding lock_inv_def in_section_def by (auto split: if_splits)
next
  case (disown m i)
  then show ?case unfolding lock_inv_def in_section_def by (auto split: if_splits)
next
  case (disown_panic m i)
  then show ?case by (auto simp: lock_inv_def in_section_def holding_def)
next
  case (unlock m i c)
  then show ?case
    using popcli_OK [OF unlock.hyps(2)] unfolding lock_inv_def in_section_def
    by (auto split: if_splits)
next
  case (unlock_panic m i msg)
  then show ?case using popcli_no_panic [of "cpus m i" msg] by (auto simp: lock_inv_def)
qed simp

lemma lock_reachable_inv:
  "lock_reachable cs m \<Longrightarrow> (\<And>i. cpuid (cs i) = i \<and> cpu_ok (cs i)) \<Longrightarrow> lock_inv m"
proof (induction rule: lock_reachable.induct)
  case lock_start
  then show ?case by (simp add: lock_inv_def in_section_def initlock_def)
next
  case (lock_more m m')
  then show ?case by (blast intro: lock_step_inv)
qed

text \<open>The functions above are the uninterrupted runs of this machine.\<close>

lemma acquire_steps:
  assumes "lpc m i = Idle" and "acquire (cpus m i) (mlock m) = Acquired c lk"
  shows "lock_step\<^sup>*\<^sup>* m (set_pc (m\<lparr>cpus := (cpus m)(i := c), mlock := lk\<rparr>) i Inside)"
proof -
  have c: "c = pushcli (cpus m i)" "\<not> holding c (mlock m)" "\<not> locked (mlock m)"
    and lk: "lk = (mlock m)\<lparr>locked := True, owner := Some (cpuid c)\<rparr>"
    using assms(2) by (auto simp: acquire_def Let_def split: if_splits)
  define m1 where "m1 = set_pc (m\<lparr>cpus := (cpus m)(i := c)\<rparr>) i Trying"
  define m2 where "m2 = set_pc (m1\<lparr>mlock := (mlock m1)\<lparr>locked := True\<rparr>\<rparr>) i Taken"
  define m3 where "m3 = set_pc (m2\<lparr>mlock := (mlock m2)\<lparr>owner := Some (cpuid (cpus m2 i))\<rparr>\<rparr>) i Inside"
  have 1: "lock_step m m1" unfolding m1_def using assms(1) c(1,2) by (rule lock_step.enter)
  have 2: "lock_step m1 m2" unfolding m2_def by (rule lock_step.xchg) (simp_all add: m1_def c(3))
  have 3: "lock_step m2 m3" unfolding m3_def by (rule lock_step.own) (simp add: m2_def)
  have "lock_step\<^sup>*\<^sup>* m m3"
    by (rule rtranclp.rtrancl_into_rtrancl, rule rtranclp.rtrancl_into_rtrancl, rule r_into_rtranclp, rule 1, rule 2, rule 3)
  then show ?thesis by (simp add: m1_def m2_def m3_def lk)
qed

lemma release_steps:
  assumes "lpc m i = Inside" and "release (cpus m i) (mlock m) = OK (c, lk)"
  shows "lock_step\<^sup>*\<^sup>* m (set_pc (m\<lparr>mlock := lk, cpus := (cpus m)(i := c)\<rparr>) i Idle)"
proof -
  have h: "holding (cpus m i) (mlock m)" and pop: "popcli (cpus m i) = OK c"
    and lk: "lk = (mlock m)\<lparr>owner := None, locked := False\<rparr>"
    using assms(2) by (auto simp: release_def Let_def kbind_OK_iff split: if_splits)
  define m1 where "m1 = set_pc (m\<lparr>mlock := (mlock m)\<lparr>owner := None\<rparr>\<rparr>) i Leaving"
  define m2 where "m2 = set_pc (m1\<lparr>mlock := (mlock m1)\<lparr>locked := False\<rparr>, cpus := (cpus m1)(i := c)\<rparr>) i Idle"
  have 1: "lock_step m m1" unfolding m1_def using assms(1) h by (rule lock_step.disown)
  have 2: "lock_step m1 m2" unfolding m2_def by (rule lock_step.unlock) (simp_all add: m1_def pop)
  have "lock_step\<^sup>*\<^sup>* m m2" by (rule rtranclp.rtrancl_into_rtrancl, rule r_into_rtranclp, rule 1, rule 2)
  then show ?thesis by (simp add: m1_def m2_def lk)
qed

subsection \<open>Properties\<close>

text \<open>
  Property C6. Mutual exclusion: however the CPUs interleave their accesses, two of them are never
  past the exchange of acquire and before the end of release at the same time, a CPU inside the
  section has interrupts off, and no call of acquire, release or popcli made in this discipline
  panics.  A call of acquire or release that is not interrupted is a run of the same steps, so the
  states it leads to are among them.
\<close>

theorem spinlock_mutual_exclusion:
  assumes "lock_reachable cs m" and "\<And>i. cpuid (cs i) = i \<and> cpu_ok (cs i)"
  shows "(in_section m i \<and> in_section m j \<longrightarrow> i = j) \<and>
    (in_section m i \<longrightarrow> \<not> flag_if (cpus m i)) \<and> lpc m i \<noteq> Halted \<and>
    (lpc m i = Idle \<and> acquire (cpus m i) (mlock m) = Acquired c lk \<longrightarrow>
      lock_reachable cs (set_pc (m\<lparr>cpus := (cpus m)(i := c), mlock := lk\<rparr>) i Inside)) \<and>
    (lpc m i = Inside \<longrightarrow> (\<exists>c lk. release (cpus m i) (mlock m) = OK (c, lk) \<and>
      lock_reachable cs (set_pc (m\<lparr>mlock := lk, cpus := (cpus m)(i := c)\<rparr>) i Idle)))"
proof (intro conjI impI)
  have inv: "lock_inv m" using lock_reachable_inv [OF assms] .
  have more: "lock_step\<^sup>*\<^sup>* m m' \<Longrightarrow> lock_reachable cs m'" for m'
    by (induction rule: rtranclp_induct) (auto intro: assms(1) lock_more)
  show "i = j" if "in_section m i \<and> in_section m j" using inv that by (auto simp: lock_inv_def)
  show "\<not> flag_if (cpus m i)" if "in_section m i" using inv that by (auto simp: lock_inv_def in_section_def)
  show "lpc m i \<noteq> Halted" using inv by (auto simp: lock_inv_def)
  show "lock_reachable cs (set_pc (m\<lparr>cpus := (cpus m)(i := c), mlock := lk\<rparr>) i Inside)"
    if "lpc m i = Idle \<and> acquire (cpus m i) (mlock m) = Acquired c lk"
    using that by (blast intro: more acquire_steps)
  show "\<exists>c lk. release (cpus m i) (mlock m) = OK (c, lk) \<and>
      lock_reachable cs (set_pc (m\<lparr>mlock := lk, cpus := (cpus m)(i := c)\<rparr>) i Idle)" if 1: "lpc m i = Inside"
  proof -
    have "holding (cpus m i) (mlock m)" "0 < ncli (cpus m i)" "\<not> flag_if (cpus m i)"
      using inv 1 by (auto simp: lock_inv_def holding_def in_section_def)
    then obtain c lk where "release (cpus m i) (mlock m) = OK (c, lk)"
      by (cases "ncli (cpus m i) = 1 \<and> intena (cpus m i)") (auto simp: release_def popcli_def Let_def)
    then show ?thesis using release_steps [OF 1] more by blast
  qed
qed

definition idle_cpus :: "nat \<Rightarrow> cpu" where
  "idle_cpus i = \<lparr>cpuid = i, ncli = 0, intena = False, flag_if = True\<rparr>"

theorem spinlock_mutual_exclusion_witness:
  "\<exists>m. lock_reachable idle_cpus m \<and> in_section m 0 \<and> \<not> flag_if (cpus m 0) \<and> lpc m 1 \<noteq> Halted"
proof -
  let ?m0 = "\<lparr>mlock = initlock, cpus = idle_cpus, lpc = (\<lambda>_. Idle)\<rparr>"
  let ?m1 = "set_pc (?m0\<lparr>cpus := (cpus ?m0)(0 := pushcli (idle_cpus 0))\<rparr>) 0 Trying"
  let ?m2 = "set_pc (?m1\<lparr>mlock := (mlock ?m1)\<lparr>locked := True\<rparr>\<rparr>) 0 Taken"
  have "lock_step ?m0 ?m1"
    by (rule lock_step.enter) (simp_all add: holding_def initlock_def)
  moreover have "lock_step ?m1 ?m2"
    by (rule lock_step.xchg) (simp_all add: initlock_def)
  ultimately have r: "lock_reachable idle_cpus ?m2"
    by (blast intro: lock_reachable.intros)
  have ok: "cpuid (idle_cpus i) = i \<and> cpu_ok (idle_cpus i)" for i
    by (simp add: idle_cpus_def cpu_ok_def)
  have "in_section ?m2 0" by (simp add: in_section_def)
  then show ?thesis
    using r spinlock_mutual_exclusion [OF r ok, of 0 0, THEN conjunct2, THEN conjunct1]
      spinlock_mutual_exclusion [OF r ok, of 1 0, THEN conjunct2, THEN conjunct2, THEN conjunct1]
    by blast
qed

text \<open>
  Property C25. pushcli and popcli nest: after n pushcli and n popcli the nesting depth and the
  interrupt flag are what they were, and none of the popcli panics.
\<close>

theorem pushcli_popcli_nest:
  assumes "cpu_ok c"
  shows "\<exists>c'. popn n (pushn n c) = OK c' \<and> ncli c' = ncli c \<and> flag_if c' = flag_if c"
proof (cases "n = 0")
  case False
  then have n: "0 < n" by simp
  show ?thesis
    using assms pushn_fields [OF n, of c] popn_down [of "pushn n c" n] n
    by (auto simp: cpu_ok_def)
qed simp

theorem pushcli_popcli_nest_witness:
  "cpu_ok (idle_cpus 0) \<and>
   (\<exists>c'. popn 3 (pushn 3 (idle_cpus 0)) = OK c' \<and> ncli c' = 0 \<and> flag_if c')"
proof -
  have ok: "cpu_ok (idle_cpus 0)" by (simp add: idle_cpus_def cpu_ok_def)
  show ?thesis using ok pushcli_popcli_nest [OF ok, of 3] by (simp add: idle_cpus_def)
qed

end
