(* ===== verification/Proc.thy ===== *)
theory Proc
  imports Kalloc Spinlock
begin

text \<open>
  The process table, the first half of proc.c: slots and their states, allocation, sleep and wakeup,
  kill, the scheduler.  The state extends the memory state, because a new process gets a kernel
  stack from the page allocator and its first context is written into that page.  Every routine
  that holds \<open>ptable.lock\<close> throughout is one atomic step.  A process that sleeps gives up the CPU
  inside \<open>sched\<close>, so \<open>sleep\<close> is two halves around that point.  \<open>forkret_addr\<close> and \<open>trapret_addr\<close>
  are the link-time addresses of those symbols.
\<close>

datatype procstate = UNUSED | EMBRYO | SLEEPING | RUNNABLE | RUNNING | ZOMBIE

record proc =
  psz :: u32
  pgdir :: u32
  kstack :: u32
  pstate :: procstate
  pid :: int
  parent :: "nat option"
  tf :: u32
  pcontext :: u32
  pchan :: "chan option"
  killed :: bool
  ofile :: "nat option list"
  cwd :: "nat option"
  pname :: carr

record procs = mstate +
  ptable :: "proc list"
  nextpid :: int
  curproc :: "nat option"
  initproc :: "nat option"
  ts_esp0 :: u32
  cr3 :: u32
  kpgdir :: u32
  forkret_addr :: u32
  trapret_addr :: u32

abbreviation proc_at :: "'z procs_scheme \<Rightarrow> nat \<Rightarrow> proc" where
  "proc_at s i \<equiv> ptable s ! i"

definition upd_proc :: "'z procs_scheme \<Rightarrow> nat \<Rightarrow> (proc \<Rightarrow> proc) \<Rightarrow> 'z procs_scheme" where
  "upd_proc s i f = s\<lparr>ptable := (ptable s)[i := f (ptable s ! i)]\<rparr>"

subsection \<open>Allocating a slot\<close>

definition allocproc :: "'z procs_scheme \<Rightarrow> nat option \<times> 'z procs_scheme" where
  "allocproc s =
     (case find_idx (\<lambda>p. pstate p = UNUSED) (ptable s) of
        None \<Rightarrow> (None, s)
      | Some i \<Rightarrow>
          let s = upd_proc s i (\<lambda>p. p\<lparr>pstate := EMBRYO, pid := nextpid s\<rparr>);
              s = s\<lparr>nextpid := nextpid s + 1\<rparr>;
              (k, s) = kalloc s;
              s = upd_proc s i (\<lambda>p. p\<lparr>kstack := k\<rparr>)
          in if k = 0 then (None, upd_proc s i (\<lambda>p. p\<lparr>pstate := UNUSED\<rparr>))
             else
               let sp = k + 4096;
                   sp = sp - 76;
                   s = upd_proc s i (\<lambda>p. p\<lparr>tf := sp\<rparr>);
                   sp = sp - 4;
                   s = s\<lparr>mem := store32 (mem s) sp (trapret_addr s)\<rparr>;
                   sp = sp - 20;
                   s = upd_proc s i (\<lambda>p. p\<lparr>pcontext := sp\<rparr>);
                   s = s\<lparr>mem := memset (mem s) sp 0 20\<rparr>;
                   s = s\<lparr>mem := store32 (mem s) (sp + 16) (forkret_addr s)\<rparr>
               in (Some i, s))"

subsection \<open>Sleep, wakeup and kill\<close>

definition wakeup1 :: "'z procs_scheme \<Rightarrow> chan \<Rightarrow> 'z procs_scheme" where
  "wakeup1 s c =
     s\<lparr>ptable := map (\<lambda>p. if pstate p = SLEEPING \<and> pchan p = Some c
                           then p\<lparr>pstate := RUNNABLE\<rparr> else p) (ptable s)\<rparr>"

definition wakeup :: "'z procs_scheme \<Rightarrow> chan \<Rightarrow> 'z procs_scheme" where
  "wakeup s c = wakeup1 s c"

definition sleep_begin :: "'z procs_scheme \<Rightarrow> chan \<Rightarrow> bool \<Rightarrow> 'z procs_scheme kres" where
  "sleep_begin s c lk_given =
     (case curproc s of
        None \<Rightarrow> Panic ''sleep''
      | Some i \<Rightarrow>
          if \<not> lk_given then Panic ''sleep without lk''
          else OK (upd_proc s i (\<lambda>p. p\<lparr>pchan := Some c, pstate := SLEEPING\<rparr>)))"

definition sleep_end :: "'z procs_scheme \<Rightarrow> nat \<Rightarrow> 'z procs_scheme" where
  "sleep_end s i = upd_proc s i (\<lambda>p. p\<lparr>pchan := None\<rparr>)"

definition kill :: "'z procs_scheme \<Rightarrow> int \<Rightarrow> int \<times> 'z procs_scheme" where
  "kill s n =
     (case find_idx (\<lambda>p. pid p = n) (ptable s) of
        None \<Rightarrow> (-1, s)
      | Some i \<Rightarrow>
          let s = upd_proc s i (\<lambda>p. p\<lparr>killed := True\<rparr>);
              s = (if pstate (proc_at s i) = SLEEPING
                   then upd_proc s i (\<lambda>p. p\<lparr>pstate := RUNNABLE\<rparr>) else s)
          in (0, s))"

subsection \<open>The scheduler\<close>

definition sched :: "cpu \<Rightarrow> spinlock \<Rightarrow> proc \<Rightarrow> unit kres" where
  "sched c ptable_lock p =
     (if \<not> holding c ptable_lock then Panic ''sched ptable.lock''
      else if ncli c \<noteq> 1 then Panic ''sched locks''
      else if pstate p = RUNNING then Panic ''sched running''
      else if flag_if c then Panic ''sched interruptible''
      else OK ())"

definition yield :: "'z procs_scheme \<Rightarrow> nat \<Rightarrow> 'z procs_scheme" where
  "yield s i = upd_proc s i (\<lambda>p. p\<lparr>pstate := RUNNABLE\<rparr>)"

definition switchkvm :: "'z procs_scheme \<Rightarrow> 'z procs_scheme" where
  "switchkvm s = s\<lparr>cr3 := V2P (kpgdir s)\<rparr>"

definition switchuvm :: "'z procs_scheme \<Rightarrow> nat option \<Rightarrow> 'z procs_scheme kres" where
  "switchuvm s p =
     (case p of
        None \<Rightarrow> Panic ''switchuvm: no process''
      | Some i \<Rightarrow>
          if kstack (proc_at s i) = 0 then Panic ''switchuvm: no kstack''
          else if pgdir (proc_at s i) = 0 then Panic ''switchuvm: no pgdir''
          else OK (s\<lparr>ts_esp0 := kstack (proc_at s i) + 4096, cr3 := V2P (pgdir (proc_at s i))\<rparr>))"

text \<open>
  The loop of scheduler over the table, from slot \<open>i\<close> to the next swtch.  It holds \<open>ptable.lock\<close> all
  the while.  The result is the slot it switches to, or None when the pass is over and the lock is
  released.  swtch comes back when that process gives up the CPU; scheduler_resume is the rest of the
  loop body and the search from the next slot on.
\<close>

function scheduler_loop :: "nat \<Rightarrow> 'z procs_scheme \<Rightarrow> (nat option \<times> 'z procs_scheme) kres" where
  "scheduler_loop i s =
     (if i \<ge> NPROC then OK (None, s)
      else if pstate (proc_at s i) \<noteq> RUNNABLE then scheduler_loop (Suc i) s
      else
        let s = s\<lparr>curproc := Some i\<rparr>
        in kbind (switchuvm s (Some i)) (\<lambda>s.
           OK (Some i, upd_proc s i (\<lambda>p. p\<lparr>pstate := RUNNING\<rparr>))))"
  by pat_completeness auto
termination
  by (relation "measure (\<lambda>(i, s). NPROC - i)") auto

declare scheduler_loop.simps [simp del]

definition scheduler :: "'z procs_scheme \<Rightarrow> (nat option \<times> 'z procs_scheme) kres" where
  "scheduler s = scheduler_loop 0 s"

definition scheduler_resume :: "nat \<Rightarrow> 'z procs_scheme \<Rightarrow> (nat option \<times> 'z procs_scheme) kres" where
  "scheduler_resume i s =
     (let s = switchkvm s;
          s = s\<lparr>curproc := None\<rparr>
      in scheduler_loop (Suc i) s)"

subsection \<open>What the routines change\<close>

lemma upd_proc_simps [simp]:
  "ptable (upd_proc s i f) = (ptable s)[i := f (ptable s ! i)]"
  "mem (upd_proc s i f) = mem s" "kend (upd_proc s i f) = kend s"
  "freelist (upd_proc s i f) = freelist s" "use_lock (upd_proc s i f) = use_lock s"
  "nextpid (upd_proc s i f) = nextpid s" "curproc (upd_proc s i f) = curproc s"
  "initproc (upd_proc s i f) = initproc s"
  "forkret_addr (upd_proc s i f) = forkret_addr s" "trapret_addr (upd_proc s i f) = trapret_addr s"
  by (simp_all add: upd_proc_def)

lemma kalloc_procs_simps [simp]:
  "ptable (snd (kalloc s)) = ptable s" "nextpid (snd (kalloc s)) = nextpid s"
  "curproc (snd (kalloc s)) = curproc s" "initproc (snd (kalloc s)) = initproc s"
  "forkret_addr (snd (kalloc s)) = forkret_addr s" "trapret_addr (snd (kalloc s)) = trapret_addr s"
  by (simp_all add: kalloc_def Let_def)

lemma wakeup1_slot:
  "i < length (ptable s) \<Longrightarrow> proc_at (wakeup1 s c) i =
     (if pstate (proc_at s i) = SLEEPING \<and> pchan (proc_at s i) = Some c
      then (proc_at s i)\<lparr>pstate := RUNNABLE\<rparr> else proc_at s i)"
  by (simp add: wakeup1_def)

lemma allocproc_full:
  "(\<forall>p \<in> set (ptable s). pstate p \<noteq> UNUSED) \<Longrightarrow> allocproc s = (None, s)"
  by (simp add: allocproc_def find_idx_None_iff [THEN iffD2])

lemma allocproc_nomem:
  assumes "find_idx (\<lambda>p. pstate p = UNUSED) (ptable s) = Some i" and "freelist s = 0"
  shows "fst (allocproc s) = None" and "pstate (proc_at (snd (allocproc s)) i) = UNUSED"
  using assms find_idx_SomeD [OF assms(1)]
  by (simp_all add: allocproc_def kalloc_def Let_def)

lemma allocproc_ok:
  assumes i: "find_idx (\<lambda>p. pstate p = UNUSED) (ptable s) = Some i" and k: "freelist s \<noteq> 0"
  shows "\<exists>m'. allocproc s = (Some i,
      s\<lparr>mem := m', freelist := load32 (mem s) (freelist s), nextpid := nextpid s + 1,
        ptable := (ptable s)[i := (proc_at s i)\<lparr>pstate := EMBRYO, pid := nextpid s,
          kstack := freelist s, tf := freelist s + 4020, pcontext := freelist s + 3996\<rparr>]\<rparr>) \<and>
    load32 m' (freelist s + 4012) = forkret_addr s \<and> load32 m' (freelist s + 4016) = trapret_addr s \<and>
    (\<forall>a. \<not> unat (a - (freelist s + 3996)) < 24 \<longrightarrow> m' a = mem s a)"
proof (intro exI conjI allI impI)
  let ?k = "freelist s"
  let ?m1 = "store32 (mem s) (?k + 4016) (trapret_addr s)"
  let ?m2 = "memset ?m1 (?k + 3996) 0 20"
  let ?m3 = "store32 ?m2 (?k + 4012) (forkret_addr s)"
  have il: "i < length (ptable s)" using find_idx_SomeD [OF i] by simp
  show "allocproc s = (Some i, s\<lparr>mem := ?m3, freelist := load32 (mem s) ?k, nextpid := nextpid s + 1,
        ptable := (ptable s)[i := (proc_at s i)\<lparr>pstate := EMBRYO, pid := nextpid s,
          kstack := ?k, tf := ?k + 4020, pcontext := ?k + 3996\<rparr>]\<rparr>)"
    using k il
    by (simp add: allocproc_def i kalloc_def Let_def upd_proc_def) (cases s, simp add: add.commute)
  show "load32 ?m3 (?k + 4012) = forkret_addr s" by simp
  show "load32 ?m3 (?k + 4016) = trapret_addr s"
    by (simp add: load32_store32_other load32_memset_other)
  show "?m3 a = mem s a" if "\<not> unat (a - (?k + 3996)) < 24" for a
  proof -
    let ?d = "a - (?k + 3996)"
    have low: "unat (?d - c) \<ge> 4" if "unat c + 4 \<le> 24" for c
      using that \<open>\<not> unat ?d < 24\<close> unat_sub [of c ?d] by (simp add: word_le_nat_alt)
    have eqs: "a - (?k + 4012) = ?d - 16" "a - (?k + 4016) = ?d - 20"
      by (simp_all add: algebra_simps)
    have "\<not> unat (a - (?k + 4012)) < 4" "\<not> unat (a - (?k + 4016)) < 4"
      unfolding eqs using low [of 16] low [of 20] by simp_all
    with that show ?thesis by (simp add: store32_other memset_eq)
  qed
qed

subsection \<open>Properties\<close>

text \<open>
  Property C26. A new process gets an unused slot, a fresh pid, a kernel stack page of its own, and a
  first context in that page that resumes at forkret with trapret as the return address; the other
  slots and all memory outside that page are unchanged.
\<close>

theorem allocproc_prepares:
  assumes "find_idx (\<lambda>p. pstate p = UNUSED) (ptable s) = Some i" and "free_list s (k # ks)"
    and "allocproc s = (r, s')"
  shows "r = Some i \<and> pstate (proc_at s' i) = EMBRYO \<and> pid (proc_at s' i) = nextpid s \<and>
    nextpid s' = nextpid s + 1 \<and> kstack (proc_at s' i) = k \<and>
    load32 (mem s') (pcontext (proc_at s' i) + 16) = forkret_addr s \<and>
    load32 (mem s') (pcontext (proc_at s' i) + 20) = trapret_addr s \<and>
    tf (proc_at s' i) + 76 = k + 4096 \<and>
    (\<forall>j. j \<noteq> i \<longrightarrow> proc_at s' j = proc_at s j) \<and>
    (\<forall>a. \<not> in_page k a \<longrightarrow> mem s' a = mem s a)"
proof -
  have k: "freelist s = k" "k \<noteq> 0" using assms(2) by (auto simp: free_list_def)
  have "\<not> unat (a - (k + 3996)) < 24" if "\<not> in_page k a" for a
  proof
    assume *: "unat (a - (k + 3996)) < 24"
    define x where "x = a - (k + 3996)"
    have "a - k = x + 3996" by (simp add: x_def)
    then have "in_page k a"
      using * unfolding in_page_def x_def [symmetric] by (simp add: unat_word_ariths)
    with that show False ..
  qed
  then show ?thesis
    using allocproc_ok [OF assms(1)] k find_idx_SomeD [OF assms(1)] assms(3)
    by (auto simp: add.assoc)
qed

definition boot_procs :: procs where
  "boot_procs = mstate.extend boot_mem
     \<lparr>ptable = replicate NPROC \<lparr>psz = 0, pgdir = 0, kstack = 0, pstate = UNUSED, pid = 0,
        parent = None, tf = 0, pcontext = 0, pchan = None, killed = False,
        ofile = replicate NOFILE None, cwd = None, pname = (\<lambda>_. 0)\<rparr>,
      nextpid = 1, curproc = None, initproc = None, ts_esp0 = 0, cr3 = 0, kpgdir = 0,
      forkret_addr = 0x80103000, trapret_addr = 0x80105000\<rparr>"

definition boot_procs_page :: procs where
  "boot_procs_page = boot_procs\<lparr>freelist := 0x80200000\<rparr>"

lemma boot_procs_page_simps [simp]:
  "ptable boot_procs_page = ptable boot_procs" "mem boot_procs_page = (\<lambda>_. 0)"
  "freelist boot_procs_page = 0x80200000" "kend boot_procs_page = 0x80100000"
  by (simp_all add: boot_procs_page_def boot_procs_def boot_mem_def mstate.defs)

lemma boot_procs_slot0: "find_idx (\<lambda>p. pstate p = UNUSED) (ptable boot_procs) = Some 0"
  by (simp add: boot_procs_def mstate.defs find_idx_Some_iff)

lemma boot_procs_page_free: "free_list boot_procs_page [0x80200000]"
  by (simp add: free_list_def page_ok_def V2P_def load32_def)

theorem allocproc_prepares_witness:
  "\<exists>s'. allocproc boot_procs_page = (Some 0, s') \<and> pid (proc_at s' 0) = 1 \<and>
     load32 (mem s') (pcontext (proc_at s' 0) + 16) = 0x80103000"
proof -
  obtain r s' where a: "allocproc boot_procs_page = (r, s')" by (cases "allocproc boot_procs_page")
  then show ?thesis
    using allocproc_prepares [of boot_procs_page 0 "0x80200000" "[]" r s']
      boot_procs_slot0 boot_procs_page_free
    by (simp add: boot_procs_page_def boot_procs_def mstate.defs)
qed

text \<open>
  Property C27. kill does not look at the state of the slot it matches.  A slot that has been reaped
  has pid 0, so killing pid 0 succeeds and marks a free slot as killed; the mark survives allocation,
  and the next process made in that slot starts its life killed.
\<close>

theorem kill_zero_marks_next_process:
  assumes "find_idx (\<lambda>p. pstate p = UNUSED) (ptable s) = Some i" and "pid (proc_at s i) = 0"
    and "\<forall>j<i. pid (proc_at s j) \<noteq> 0" and "freelist s \<noteq> 0"
  shows "fst (kill s 0) = 0 \<and> fst (allocproc (snd (kill s 0))) = Some i \<and>
    killed (proc_at (snd (allocproc (snd (kill s 0)))) i)"
proof -
  have i: "i < length (ptable s)" "pstate (proc_at s i) = UNUSED"
    "\<forall>j<i. pstate (proc_at s j) \<noteq> UNUSED"
    using assms(1) by (simp_all add: find_idx_Some_iff)
  then have "find_idx (\<lambda>p. pid p = 0) (ptable s) = Some i"
    using assms(2,3) by (simp add: find_idx_Some_iff)
  then have kl: "kill s 0 = (0, upd_proc s i (\<lambda>p. p\<lparr>killed := True\<rparr>))"
    using i by (simp add: kill_def Let_def)
  have "find_idx (\<lambda>p. pstate p = UNUSED) (ptable (snd (kill s 0))) = Some i"
    using i by (simp add: kl find_idx_Some_iff nth_list_update)
  from allocproc_ok [OF this] show ?thesis
    using assms(4) i by (auto simp: kl)
qed

theorem kill_zero_marks_next_process_witness:
  "fst (kill boot_procs_page 0) = 0 \<and>
   killed (proc_at (snd (allocproc (snd (kill boot_procs_page 0)))) 0)"
  using kill_zero_marks_next_process [of boot_procs_page 0] boot_procs_slot0
  by (simp add: boot_procs_def mstate.defs)

end
