(* ===== verification/Sleeplock.thy ===== *)
theory Sleeplock
  imports Proc
begin

text \<open>
  The sleeping locks of sleeplock.c.  Each routine runs under the lock's own spin lock and is one
  atomic step.  A process that finds the lock taken sleeps on the lock's address and tries again
  when it is woken; here that is the outcome \<open>Sleep\<close>.  Taking the lock reads the pid of the current
  process: without one the kernel dereferences a null pointer, and trap panics.
\<close>

record sleeplock =
  sl_locked :: bool
  sl_pid :: int

definition initsleeplock :: sleeplock where
  "initsleeplock = \<lparr>sl_locked = False, sl_pid = 0\<rparr>"

definition acquiresleep :: "chan \<Rightarrow> sleeplock \<Rightarrow> 'z procs_scheme \<Rightarrow> sleeplock kres" where
  "acquiresleep ch lk s =
     (if sl_locked lk then Sleep ch
      else case curproc s of
        None \<Rightarrow> Panic ''trap''
      | Some i \<Rightarrow> OK (lk\<lparr>sl_locked := True, sl_pid := pid (proc_at s i)\<rparr>))"

definition releasesleep :: "chan \<Rightarrow> sleeplock \<Rightarrow> 'z procs_scheme \<Rightarrow> sleeplock \<times> 'z procs_scheme" where
  "releasesleep ch lk s = (lk\<lparr>sl_locked := False, sl_pid := 0\<rparr>, wakeup s ch)"

definition holdingsleep :: "sleeplock \<Rightarrow> bool" where
  "holdingsleep lk = sl_locked lk"

end
