(* ===== verification/Memide.thy ===== *)
theory Memide
  imports Sleeplock
begin

text \<open>
  Disk buffers (buf.h) and the in-memory disk of memide.c.  The state extends the process table with
  the buffer array of bio.c, its list head included as the entry \<open>NBUF\<close>, and with the disk.
  The flag word of a buffer is its two bits.  \<open>dtrace\<close> is a history variable: it records the block
  writes in the order in which they reach the disk, so that the crash properties of the log can
  speak about every prefix of them.
\<close>

record buf =
  b_valid :: bool       \<comment> \<open>B_VALID: buffer has been read from disk\<close>
  b_dirty :: bool       \<comment> \<open>B_DIRTY: buffer needs to be written to disk\<close>
  b_dev :: nat
  b_blockno :: nat
  b_lock :: sleeplock
  b_refcnt :: nat
  b_prev :: nat
  b_next :: nat
  b_data :: block

record bios = procs +
  bufs :: "buf list"
  disk :: "nat \<Rightarrow> block"
  disksize :: nat
  dtrace :: "(nat \<times> block) list"

abbreviation buf_at :: "'z bios_scheme \<Rightarrow> nat \<Rightarrow> buf" where
  "buf_at s i \<equiv> bufs s ! i"

abbreviation b_locked :: "buf \<Rightarrow> bool" where
  "b_locked p \<equiv> sl_locked (b_lock p)"

definition upd_buf :: "'z bios_scheme \<Rightarrow> nat \<Rightarrow> (buf \<Rightarrow> buf) \<Rightarrow> 'z bios_scheme" where
  "upd_buf s i f = s\<lparr>bufs := (bufs s)[i := f (bufs s ! i)]\<rparr>"

definition ideinit :: "(nat \<Rightarrow> block) \<Rightarrow> nat \<Rightarrow> 'z bios_scheme \<Rightarrow> 'z bios_scheme" where
  "ideinit fs_img fs_img_size s = s\<lparr>disk := fs_img, disksize := fs_img_size div BSIZE\<rparr>"

text \<open>The copy to the disk image, with its record in the history.\<close>

definition disk_put :: "'z bios_scheme \<Rightarrow> nat \<Rightarrow> block \<Rightarrow> 'z bios_scheme" where
  "disk_put s b d = s\<lparr>disk := (disk s)(b := d), dtrace := dtrace s @ [(b, d)]\<rparr>"

definition iderw :: "nat \<Rightarrow> 'z bios_scheme \<Rightarrow> 'z bios_scheme kres" where
  "iderw i s =
     (if \<not> holdingsleep (b_lock (buf_at s i)) then Panic ''iderw: buf not locked''
      else if b_valid (buf_at s i) \<and> \<not> b_dirty (buf_at s i) then Panic ''iderw: nothing to do''
      else if b_dev (buf_at s i) \<noteq> 1 then Panic ''iderw: request not for disk 1''
      else if b_blockno (buf_at s i) \<ge> disksize s then Panic ''iderw: block out of range''
      else
        let s = (if b_dirty (buf_at s i)
                 then let s = upd_buf s i (\<lambda>b. b\<lparr>b_dirty := False\<rparr>)
                      in disk_put s (b_blockno (buf_at s i)) (b_data (buf_at s i))
                 else upd_buf s i (\<lambda>b. b\<lparr>b_data := disk s (b_blockno b)\<rparr>))
        in OK (upd_buf s i (\<lambda>b. b\<lparr>b_valid := True\<rparr>)))"

lemma upd_buf_simps [simp]:
  "bufs (upd_buf s i f) = (bufs s)[i := f (bufs s ! i)]"
  "disk (upd_buf s i f) = disk s" "disksize (upd_buf s i f) = disksize s"
  "dtrace (upd_buf s i f) = dtrace s" "ptable (upd_buf s i f) = ptable s"
  "curproc (upd_buf s i f) = curproc s"
  by (simp_all add: upd_buf_def)

lemma disk_put_simps [simp]:
  "bufs (disk_put s b d) = bufs s" "disk (disk_put s b d) = (disk s)(b := d)"
  "disksize (disk_put s b d) = disksize s" "dtrace (disk_put s b d) = dtrace s @ [(b, d)]"
  "ptable (disk_put s b d) = ptable s" "curproc (disk_put s b d) = curproc s"
  by (simp_all add: disk_put_def)

lemma upd_buf_triv: "f (buf_at s i) = buf_at s i \<Longrightarrow> upd_buf s i f = s"
  by (simp add: upd_buf_def)

lemma iderw_write:
  assumes "i < length (bufs s)" and "b_locked (buf_at s i)" and "b_valid (buf_at s i)" "b_dirty (buf_at s i)"
    and "b_dev (buf_at s i) = 1" and "b_blockno (buf_at s i) < disksize s"
  shows "iderw i s =
    OK (disk_put (upd_buf s i (\<lambda>b. b\<lparr>b_dirty := False\<rparr>)) (b_blockno (buf_at s i)) (b_data (buf_at s i)))"
proof -
  let ?t = "disk_put (upd_buf s i (\<lambda>b. b\<lparr>b_dirty := False\<rparr>)) (b_blockno (buf_at s i)) (b_data (buf_at s i))"
  have "upd_buf ?t i (\<lambda>b. b\<lparr>b_valid := True\<rparr>) = ?t"
    using assms(1,3) by (intro upd_buf_triv) simp
  then show ?thesis using assms by (simp add: iderw_def holdingsleep_def)
qed

end
