(* ===== verification/Bio.thy ===== *)
theory Bio
  imports Memide
begin

text \<open>
  The buffer cache, bio.c.  The buffers form a ring through their \<open>prev\<close> and \<open>next\<close> links, with
  the list head at index \<open>NBUF\<close>; the links are kept as the code has them and the lemmas show that
  they represent the list of buffers from most to least recently used.  The cache promises its
  clients, the log and the file system, a view \<open>blk\<close> of the disk: reading a block returns the view,
  writing a block changes the view there and nowhere else.
\<close>

subsection \<open>Operations\<close>

definition binit_buf :: "nat \<Rightarrow> 'z bios_scheme \<Rightarrow> 'z bios_scheme" where
  "binit_buf b s =
     (let s = upd_buf s b (\<lambda>p. p\<lparr>b_next := b_next (buf_at s NBUF)\<rparr>);
          s = upd_buf s b (\<lambda>p. p\<lparr>b_prev := NBUF\<rparr>);
          s = upd_buf s b (\<lambda>p. p\<lparr>b_lock := initsleeplock\<rparr>);
          s = upd_buf s (b_next (buf_at s NBUF)) (\<lambda>p. p\<lparr>b_prev := b\<rparr>)
      in upd_buf s NBUF (\<lambda>h. h\<lparr>b_next := b\<rparr>))"

definition binit :: "'z bios_scheme \<Rightarrow> 'z bios_scheme" where
  "binit s =
     (let s = upd_buf s NBUF (\<lambda>h. h\<lparr>b_prev := NBUF\<rparr>);
          s = upd_buf s NBUF (\<lambda>h. h\<lparr>b_next := NBUF\<rparr>)
      in fold binit_buf [0..<NBUF] s)"

text \<open>
  The two loops of bget.  A loop visits at most the \<open>NBUF\<close> buffers and the head, so \<open>NBUF + 1\<close>
  rounds are enough for a well-formed ring.
\<close>

fun scan_next :: "nat \<Rightarrow> (buf \<Rightarrow> bool) \<Rightarrow> buf list \<Rightarrow> nat \<Rightarrow> nat option kres" where
  "scan_next 0 P bs b = Stuck ''bcache''"
| "scan_next (Suc fuel) P bs b =
     (if b = NBUF then OK None
      else if P (bs ! b) then OK (Some b)
      else scan_next fuel P bs (b_next (bs ! b)))"

fun scan_prev :: "nat \<Rightarrow> (buf \<Rightarrow> bool) \<Rightarrow> buf list \<Rightarrow> nat \<Rightarrow> nat option kres" where
  "scan_prev 0 P bs b = Stuck ''bcache''"
| "scan_prev (Suc fuel) P bs b =
     (if b = NBUF then OK None
      else if P (bs ! b) then OK (Some b)
      else scan_prev fuel P bs (b_prev (bs ! b)))"

definition lock_buf :: "nat \<Rightarrow> 'z bios_scheme \<Rightarrow> (nat \<times> 'z bios_scheme) kres" where
  "lock_buf b s =
     kbind (acquiresleep (ChBufLock b) (b_lock (buf_at s b)) s) (\<lambda>lk.
     OK (b, upd_buf s b (\<lambda>p. p\<lparr>b_lock := lk\<rparr>)))"

definition bget :: "nat \<Rightarrow> nat \<Rightarrow> 'z bios_scheme \<Rightarrow> (nat \<times> 'z bios_scheme) kres" where
  "bget dev blockno s =
     kbind (scan_next (NBUF + 1) (\<lambda>p. b_dev p = dev \<and> b_blockno p = blockno) (bufs s)
              (b_next (buf_at s NBUF))) (\<lambda>r. case r of
       Some b \<Rightarrow> lock_buf b (upd_buf s b (\<lambda>p. p\<lparr>b_refcnt := b_refcnt p + 1\<rparr>))
     | None \<Rightarrow>
         kbind (scan_prev (NBUF + 1) (\<lambda>p. b_refcnt p = 0 \<and> \<not> b_dirty p) (bufs s)
                  (b_prev (buf_at s NBUF))) (\<lambda>r. case r of
           Some b \<Rightarrow> lock_buf b (upd_buf s b (\<lambda>p. p\<lparr>b_dev := dev, b_blockno := blockno,
                       b_valid := False, b_dirty := False, b_refcnt := 1\<rparr>))
         | None \<Rightarrow> Panic ''bget: no buffers''))"

definition bread :: "nat \<Rightarrow> nat \<Rightarrow> 'z bios_scheme \<Rightarrow> (nat \<times> 'z bios_scheme) kres" where
  "bread dev blockno s =
     kbind (bget dev blockno s) (\<lambda>(b, s).
     if \<not> b_valid (buf_at s b) then kbind (iderw b s) (\<lambda>s. OK (b, s)) else OK (b, s))"

definition bwrite :: "nat \<Rightarrow> 'z bios_scheme \<Rightarrow> 'z bios_scheme kres" where
  "bwrite b s =
     (if \<not> holdingsleep (b_lock (buf_at s b)) then Panic ''bwrite''
      else iderw b (upd_buf s b (\<lambda>p. p\<lparr>b_dirty := True\<rparr>)))"

text \<open>Taking a buffer out of the ring, and putting it at its front: the two halves of brelse.\<close>

definition unlink_buf :: "nat \<Rightarrow> 'z bios_scheme \<Rightarrow> 'z bios_scheme" where
  "unlink_buf b s =
     (let s = upd_buf s (b_next (buf_at s b)) (\<lambda>p. p\<lparr>b_prev := b_prev (buf_at s b)\<rparr>)
      in upd_buf s (b_prev (buf_at s b)) (\<lambda>p. p\<lparr>b_next := b_next (buf_at s b)\<rparr>))"

definition push_buf :: "nat \<Rightarrow> 'z bios_scheme \<Rightarrow> 'z bios_scheme" where
  "push_buf b s =
     (let s = upd_buf s b (\<lambda>p. p\<lparr>b_next := b_next (buf_at s NBUF)\<rparr>);
          s = upd_buf s b (\<lambda>p. p\<lparr>b_prev := NBUF\<rparr>);
          s = upd_buf s (b_next (buf_at s NBUF)) (\<lambda>p. p\<lparr>b_prev := b\<rparr>)
      in upd_buf s NBUF (\<lambda>h. h\<lparr>b_next := b\<rparr>))"

definition brelse :: "nat \<Rightarrow> 'z bios_scheme \<Rightarrow> 'z bios_scheme kres" where
  "brelse b s =
     (if \<not> holdingsleep (b_lock (buf_at s b)) then Panic ''brelse''
      else
        let (lk, s) = releasesleep (ChBufLock b) (b_lock (buf_at s b)) s;
            s = upd_buf s b (\<lambda>p. p\<lparr>b_lock := lk\<rparr>);
            s = upd_buf s b (\<lambda>p. p\<lparr>b_refcnt := b_refcnt p - 1\<rparr>)
        in if b_refcnt (buf_at s b) = 0 then OK (push_buf b (unlink_buf b s))
           else OK s)"

text \<open>The clients' stores into the data of a buffer they hold.\<close>

definition set_data :: "nat \<Rightarrow> block \<Rightarrow> 'z bios_scheme \<Rightarrow> 'z bios_scheme" where
  "set_data b d s = upd_buf s b (\<lambda>p. p\<lparr>b_data := d\<rparr>)"

subsection \<open>The ring\<close>

text \<open>\<open>linked nx pv a xs z\<close>: following the links from \<open>a\<close> visits \<open>xs\<close> and arrives at \<open>z\<close>.\<close>

primrec linked :: "(nat \<Rightarrow> nat) \<Rightarrow> (nat \<Rightarrow> nat) \<Rightarrow> nat \<Rightarrow> nat list \<Rightarrow> nat \<Rightarrow> bool" where
  "linked nx pv a [] z \<longleftrightarrow> nx a = z \<and> pv z = a"
| "linked nx pv a (x # xs) z \<longleftrightarrow> nx a = x \<and> pv x = a \<and> linked nx pv x xs z"

lemma linked_append:
  "linked nx pv a (xs @ y # ys) z \<longleftrightarrow> linked nx pv a xs y \<and> linked nx pv y ys z"
  by (induction xs arbitrary: a) auto

lemma linked_cong:
  "(\<And>x. x \<in> insert a (set xs) \<Longrightarrow> nx' x = nx x) \<Longrightarrow> (\<And>x. x \<in> insert z (set xs) \<Longrightarrow> pv' x = pv x) \<Longrightarrow>
   linked nx' pv' a xs z = linked nx pv a xs z"
  by (induction xs arbitrary: a) auto

lemma linked_first: "linked nx pv a xs z \<Longrightarrow> nx a = hd (xs @ [z])"
  by (cases xs) auto

lemma linked_last: "linked nx pv a xs z \<Longrightarrow> pv z = last (a # xs)"
  by (induction xs arbitrary: a) auto

lemma linked_unlink:
  assumes "linked nx pv h (xs @ i # ys) h" and "distinct (h # xs @ i # ys)"
  shows "linked (nx(pv i := nx i)) (pv(nx i := pv i)) h (xs @ ys) h"
proof -
  have l: "linked nx pv h xs i" "linked nx pv i ys h" using assms(1) by (simp_all add: linked_append)
  have pi: "pv i = last (h # xs)" and ni: "nx i = hd (ys @ [h])"
    using linked_last [OF l(1)] linked_first [OF l(2)] by auto
  have join: "linked nx pv a xs i \<Longrightarrow> linked nx pv i ys z \<Longrightarrow> distinct (a # xs) \<Longrightarrow> distinct (ys @ [z]) \<Longrightarrow>
      set (a # xs) \<inter> set ys = {} \<Longrightarrow> i \<notin> set (a # xs) \<Longrightarrow> i \<notin> set ys \<Longrightarrow> z \<notin> set xs \<Longrightarrow> z \<noteq> i \<Longrightarrow>
      linked (nx(last (a # xs) := hd (ys @ [z]))) (pv(hd (ys @ [z]) := last (a # xs))) a (xs @ ys) z" for a z
  proof (induction xs arbitrary: a)
    case Nil
    then show ?case
    proof (cases ys)
      case (Cons y ys')
      with Nil have "linked nx pv y ys' z" by simp
      then have "linked (nx(a := y)) (pv(y := a)) y ys' z"
        using Nil.prems Cons by (subst linked_cong [of y ys' _ nx z _ pv]) auto
      then show ?thesis using Cons by (simp add: fun_upd_def)
    qed simp
  next
    case (Cons x xs)
    define e n where "e = last (x # xs)" and "n = hd (ys @ [z])"
    have "linked (nx(e := n)) (pv(n := e)) x (xs @ ys) z"
      unfolding e_def n_def using Cons.prems by (intro Cons.IH) auto
    moreover have "n \<noteq> x" unfolding n_def using Cons.prems by (cases ys) auto
    moreover have "e \<in> set (x # xs)" unfolding e_def by (rule last_in_set) simp
    then have "e \<noteq> a" using Cons.prems(3) by auto
    ultimately have "linked (nx(e := n)) (pv(n := e)) a ((x # xs) @ ys) z"
      using Cons.prems(1) by simp
    moreover have "last (a # x # xs) = e" by (simp add: e_def)
    ultimately show ?case unfolding n_def by metis
  qed
  show ?thesis unfolding pi ni using l assms(2) by (intro join) auto
qed

lemma linked_push:
  assumes "linked nx pv h xs h" and "distinct (h # xs)" and "i \<notin> set (h # xs)"
  shows "linked (nx(i := nx h, h := i)) (pv(i := h, nx h := i)) h (i # xs) h"
proof (cases xs)
  case Nil
  with assms show ?thesis by auto
next
  case (Cons x ys)
  with assms(1) have "linked nx pv x ys h" by simp
  then have "linked (nx(i := nx h, h := i)) (pv(i := h, nx h := i)) x ys h"
    using assms Cons by (subst linked_cong [of x ys _ nx h _ pv]) auto
  then show ?thesis using assms Cons by auto
qed

definition ring :: "buf list \<Rightarrow> nat list \<Rightarrow> bool" where
  "ring bs mru \<longleftrightarrow> length bs = NBUF + 1 \<and> distinct mru \<and> set mru = {..<NBUF} \<and>
     linked (\<lambda>i. b_next (bs ! i)) (\<lambda>i. b_prev (bs ! i)) NBUF mru NBUF"

lemma scan_next_linked:
  assumes "linked (\<lambda>i. b_next (bs ! i)) pv a xs NBUF" and "NBUF \<notin> set xs" and "length xs < fuel"
  shows "scan_next fuel P bs (b_next (bs ! a)) = OK (find (\<lambda>i. P (bs ! i)) xs)"
  using assms
proof (induction xs arbitrary: a fuel)
  case Nil
  then show ?case by (cases fuel) auto
next
  case (Cons x xs)
  from Cons.prems(3) obtain f where f: "fuel = Suc f" "length xs < f" by (cases fuel) auto
  show ?case using Cons.prems Cons.IH [of x f] f by auto
qed

lemma scan_prev_linked:
  assumes "linked nx (\<lambda>i. b_prev (bs ! i)) NBUF xs z" and "NBUF \<notin> set xs" and "length xs < fuel"
  shows "scan_prev fuel P bs (b_prev (bs ! z)) = OK (find (\<lambda>i. P (bs ! i)) (rev xs))"
  using assms
proof (induction xs arbitrary: z fuel rule: rev_induct)
  case Nil
  then show ?case by (cases fuel) auto
next
  case (snoc x xs)
  from snoc.prems(3) obtain f where f: "fuel = Suc f" "length xs < f" by (cases fuel) auto
  show ?case using snoc.prems snoc.IH [of x f] f by (auto simp: linked_append)
qed

lemma ring_length: "ring bs mru \<Longrightarrow> length mru = NBUF"
  by (metis ring_def distinct_card card_lessThan)

lemma scan_ring:
  assumes "ring bs mru"
  shows "scan_next (NBUF + 1) P bs (b_next (bs ! NBUF)) = OK (find (\<lambda>i. P (bs ! i)) mru)"
    and "scan_prev (NBUF + 1) P bs (b_prev (bs ! NBUF)) = OK (find (\<lambda>i. P (bs ! i)) (rev mru))"
proof -
  have l: "length mru < NBUF + 1" "NBUF \<notin> set mru"
    using assms ring_length [OF assms] by (auto simp: ring_def)
  show "scan_next (NBUF + 1) P bs (b_next (bs ! NBUF)) = OK (find (\<lambda>i. P (bs ! i)) mru)"
    using assms l unfolding ring_def by (intro scan_next_linked) auto
  show "scan_prev (NBUF + 1) P bs (b_prev (bs ! NBUF)) = OK (find (\<lambda>i. P (bs ! i)) (rev mru))"
    using assms l unfolding ring_def by (intro scan_prev_linked) auto
qed

lemma ring_cong:
  assumes "length bs' = length bs" and "\<And>i. i \<le> NBUF \<Longrightarrow> b_next (bs' ! i) = b_next (bs ! i)"
    and "\<And>i. i \<le> NBUF \<Longrightarrow> b_prev (bs' ! i) = b_prev (bs ! i)"
  shows "ring bs' mru = ring bs mru"
proof -
  have "linked (\<lambda>i. b_next (bs' ! i)) (\<lambda>i. b_prev (bs' ! i)) NBUF mru NBUF =
      linked (\<lambda>i. b_next (bs ! i)) (\<lambda>i. b_prev (bs ! i)) NBUF mru NBUF" if "set mru = {..<NBUF}"
    using that assms by (intro linked_cong) auto
  then show ?thesis using assms(1) by (auto simp: ring_def)
qed

lemma links_upd:
  assumes "j < length bs"
  shows "(\<lambda>i. b_next (bs[j := p] ! i)) = (\<lambda>i. b_next (bs ! i))(j := b_next p)"
    and "(\<lambda>i. b_prev (bs[j := p] ! i)) = (\<lambda>i. b_prev (bs ! i))(j := b_prev p)"
  using assms by (auto simp: fun_eq_iff nth_list_update)

text \<open>Everything in a buffer but its links.\<close>

definition core :: "buf \<Rightarrow> buf" where
  "core p = p\<lparr>b_prev := 0, b_next := 0\<rparr>"

lemma core_simps [simp]:
  "b_valid (core p) = b_valid p" "b_dirty (core p) = b_dirty p" "b_dev (core p) = b_dev p"
  "b_blockno (core p) = b_blockno p" "b_lock (core p) = b_lock p" "b_refcnt (core p) = b_refcnt p"
  "b_data (core p) = b_data p"
  by (simp_all add: core_def)

lemma core_upd:
  assumes "\<And>p. core (f p) = core p"
  shows "map core (bufs (upd_buf s j f)) = map core (bufs s)"
proof (cases "j < length (bufs s)")
  case True
  then show ?thesis using assms by (auto simp: map_update intro!: nth_equalityI simp: nth_list_update)
qed (simp add: list_update_beyond)

lemma core_links:
  "map core (bufs (upd_buf s j (\<lambda>p. p\<lparr>b_prev := v\<rparr>))) = map core (bufs s)"
  "map core (bufs (upd_buf s j (\<lambda>p. p\<lparr>b_next := v\<rparr>))) = map core (bufs s)"
  by (rule core_upd, simp add: core_def)+

lemma push_links:
  assumes "b < NBUF" and "length (bufs s) = NBUF + 1" and "b_next (buf_at s NBUF) \<le> NBUF"
  shows "(\<lambda>i. b_next (buf_at (push_buf b s) i)) =
      (\<lambda>i. b_next (buf_at s i))(b := b_next (buf_at s NBUF), NBUF := b)"
    and "(\<lambda>i. b_prev (buf_at (push_buf b s) i)) =
      (\<lambda>i. b_prev (buf_at s i))(b := NBUF, b_next (buf_at s NBUF) := b)"
proof -
  define s1 where "s1 = upd_buf s b (\<lambda>p. p\<lparr>b_next := b_next (buf_at s NBUF)\<rparr>)"
  define s2 where "s2 = upd_buf s1 b (\<lambda>p. p\<lparr>b_prev := NBUF\<rparr>)"
  define s3 where "s3 = upd_buf s2 (b_next (buf_at s2 NBUF)) (\<lambda>p. p\<lparr>b_prev := b\<rparr>)"
  have len: "length (bufs s) = 31" "length (bufs s1) = 31" "length (bufs s2) = 31" "length (bufs s3) = 31"
    using assms by (simp_all add: s1_def s2_def s3_def)
  have b: "b < 31" "b \<noteq> 30" using assms by auto
  have n1: "(\<lambda>i. b_next (buf_at s1 i)) = (\<lambda>i. b_next (buf_at s i))(b := b_next (buf_at s NBUF))"
    "(\<lambda>i. b_prev (buf_at s1 i)) = (\<lambda>i. b_prev (buf_at s i))"
    unfolding s1_def using b len by (simp_all add: links_upd fun_upd_idem)
  have n2: "(\<lambda>i. b_next (buf_at s2 i)) = (\<lambda>i. b_next (buf_at s1 i))"
    "(\<lambda>i. b_prev (buf_at s2 i)) = (\<lambda>i. b_prev (buf_at s1 i))(b := NBUF)"
    unfolding s2_def using b len by (simp_all add: links_upd fun_upd_idem)
  have h: "b_next (buf_at s2 NBUF) = b_next (buf_at s NBUF)"
    using fun_cong [OF n2(1), of NBUF] fun_cong [OF n1(1), of NBUF] b by simp
  have n3: "(\<lambda>i. b_next (buf_at s3 i)) = (\<lambda>i. b_next (buf_at s2 i))"
    "(\<lambda>i. b_prev (buf_at s3 i)) = (\<lambda>i. b_prev (buf_at s2 i))(b_next (buf_at s NBUF) := b)"
    unfolding s3_def h using assms len by (simp_all add: links_upd fun_upd_idem)
  have p: "push_buf b s = upd_buf s3 NBUF (\<lambda>h. h\<lparr>b_next := b\<rparr>)"
    by (simp add: push_buf_def Let_def s1_def s2_def s3_def)
  show "(\<lambda>i. b_next (buf_at (push_buf b s) i)) =
      (\<lambda>i. b_next (buf_at s i))(b := b_next (buf_at s NBUF), NBUF := b)"
    unfolding p using len n1 n2 n3 by (simp add: links_upd fun_upd_idem)
  have "(\<lambda>i. b_prev (buf_at (push_buf b s) i)) = (\<lambda>i. b_prev (buf_at s3 i))"
    unfolding p using len by (simp add: links_upd fun_upd_idem)
  then show "(\<lambda>i. b_prev (buf_at (push_buf b s) i)) =
      (\<lambda>i. b_prev (buf_at s i))(b := NBUF, b_next (buf_at s NBUF) := b)"
    using n1 n2 n3 by simp
qed

lemma unlink_links:
  assumes "length (bufs s) = NBUF + 1" and "b_next (buf_at s b) \<le> NBUF" and "b_prev (buf_at s b) \<le> NBUF"
    and "b_next (buf_at s b) \<noteq> b"
  shows "(\<lambda>i. b_next (buf_at (unlink_buf b s) i)) =
      (\<lambda>i. b_next (buf_at s i))(b_prev (buf_at s b) := b_next (buf_at s b))"
    and "(\<lambda>i. b_prev (buf_at (unlink_buf b s) i)) =
      (\<lambda>i. b_prev (buf_at s i))(b_next (buf_at s b) := b_prev (buf_at s b))"
  using assms by (auto simp: unlink_buf_def Let_def links_upd fun_eq_iff nth_list_update)

lemma core_unlink_push:
  "map core (bufs (unlink_buf b s)) = map core (bufs s)"
  "map core (bufs (push_buf b s)) = map core (bufs s)"
  by (simp_all only: unlink_buf_def push_buf_def Let_def core_links)

lemma linked_next_mem: "linked nx pv a xs z \<Longrightarrow> x \<in> insert a (set xs) \<Longrightarrow> nx x \<in> insert z (set xs)"
proof (induction xs arbitrary: a)
  case (Cons y ys)
  then have "nx a = y" "linked nx pv y ys z" by simp_all
  with Cons.IH [of y] Cons.prems(2) show ?case by (metis insert_iff list.simps(15))
qed simp

lemma linked_prev_mem: "linked nx pv a xs z \<Longrightarrow> x \<in> insert z (set xs) \<Longrightarrow> pv x \<in> insert a (set xs)"
proof (induction xs arbitrary: a)
  case (Cons y ys)
  then have "pv y = a" "linked nx pv y ys z" by simp_all
  with Cons.IH [of y] Cons.prems(2) show ?case by (metis insert_iff list.simps(15))
qed simp

lemma linked_next_neq:
  "linked nx pv a xs z \<Longrightarrow> distinct (xs @ [z]) \<Longrightarrow> x \<in> set xs \<Longrightarrow> nx x \<noteq> x"
proof (induction xs arbitrary: a)
  case (Cons y ys)
  then have l: "linked nx pv y ys z" and d: "distinct (ys @ [z])" and y: "y \<notin> insert z (set ys)" by auto
  have "nx y \<in> insert z (set ys)" using linked_next_mem [OF l] by blast
  with Cons.IH [OF l d] Cons.prems(3) y show ?case by (metis set_ConsD)
qed simp

lemma ring_links_le:
  assumes "ring bs mru" and "i \<le> NBUF"
  shows "b_next (bs ! i) \<le> NBUF" and "b_prev (bs ! i) \<le> NBUF" and "i < NBUF \<Longrightarrow> b_next (bs ! i) \<noteq> i"
proof -
  have l: "linked (\<lambda>i. b_next (bs ! i)) (\<lambda>i. b_prev (bs ! i)) NBUF mru NBUF"
    and m: "set mru = {..<NBUF}" "distinct mru" using assms(1) unfolding ring_def by blast+
  have i: "i \<in> insert NBUF (set mru)" unfolding m(1) using assms(2) by auto
  show "b_next (bs ! i) \<le> NBUF" using linked_next_mem [OF l i] unfolding m(1) by auto
  show "b_prev (bs ! i) \<le> NBUF" using linked_prev_mem [OF l i] unfolding m(1) by auto
  show "i < NBUF \<Longrightarrow> b_next (bs ! i) \<noteq> i" using linked_next_neq [OF l, of i] m by simp
qed

text \<open>Moving a buffer to the front of the ring is moving it to the front of the list it stands for.\<close>

lemma ring_move_front:
  assumes "ring (bufs s) mru" and "b < NBUF"
  shows "ring (bufs (push_buf b (unlink_buf b s))) (b # remove1 b mru)"
proof -
  let ?u = "unlink_buf b s"
  have r: "distinct mru" "set mru = {..<NBUF}" "length (bufs s) = NBUF + 1"
    "linked (\<lambda>i. b_next (buf_at s i)) (\<lambda>i. b_prev (buf_at s i)) NBUF mru NBUF"
    using assms(1) by (simp_all add: ring_def)
  obtain xs ys where m: "mru = xs @ b # ys" using assms(2) r(2) split_list [of b mru] by auto
  have d: "distinct (NBUF # xs @ b # ys)" using r m by auto
  then have rm: "remove1 b mru = xs @ ys" using m by (simp add: remove1_append)
  have le: "b_next (buf_at s b) \<le> NBUF" "b_prev (buf_at s b) \<le> NBUF" "b_next (buf_at s b) \<noteq> b"
    using ring_links_le [OF assms(1), of b] assms(2) by simp_all
  have ul: "linked (\<lambda>i. b_next (buf_at ?u i)) (\<lambda>i. b_prev (buf_at ?u i)) NBUF (xs @ ys) NBUF"
    unfolding unlink_links [OF r(3) le]
    using linked_unlink [OF r(4) [unfolded m] d] .
  have lu: "length (bufs ?u) = NBUF + 1"
    using r(3) by (simp add: unlink_buf_def Let_def)
  have "b_next (buf_at ?u NBUF) = hd ((xs @ ys) @ [NBUF])" by (rule linked_first [OF ul])
  then have "b_next (buf_at ?u NBUF) \<in> set ((xs @ ys) @ [NBUF])"
    using hd_in_set [of "(xs @ ys) @ [NBUF]"] by auto
  moreover have "set (xs @ ys) \<subseteq> {..<NBUF}" using m r(2) by auto
  ultimately have le2: "b_next (buf_at ?u NBUF) \<le> NBUF" by auto
  have "linked (\<lambda>i. b_next (buf_at (push_buf b ?u) i)) (\<lambda>i. b_prev (buf_at (push_buf b ?u) i))
      NBUF (b # xs @ ys) NBUF"
    unfolding push_links [OF assms(2) lu le2]
    using d by (intro linked_push [OF ul]) auto
  moreover have "length (bufs (push_buf b ?u)) = NBUF + 1"
    using lu by (simp add: push_buf_def Let_def)
  ultimately show ?thesis using d m r(2) unfolding ring_def rm by auto
qed

subsection \<open>The view and the invariant\<close>

text \<open>The content of block \<open>b\<close> as the kernel sees it: the cached copy, or the disk.\<close>

definition blk :: "'z bios_scheme \<Rightarrow> nat \<Rightarrow> block" where
  "blk s b =
     (case find (\<lambda>i. b_valid (buf_at s i) \<and> b_blockno (buf_at s i) = b) [0..<NBUF] of
        Some i \<Rightarrow> b_data (buf_at s i)
      | None \<Rightarrow> disk s b)"

text \<open>The blocks whose buffer is held by a client, and those pinned until the log commits.\<close>

definition bset :: "(buf \<Rightarrow> bool) \<Rightarrow> 'z bios_scheme \<Rightarrow> nat set" where
  "bset P s = (\<lambda>i. b_blockno (buf_at s i)) ` {i. i < NBUF \<and> P (buf_at s i)}"

abbreviation hset :: "'z bios_scheme \<Rightarrow> nat set" where
  "hset \<equiv> bset b_locked"

abbreviation dset :: "'z bios_scheme \<Rightarrow> nat set" where
  "dset \<equiv> bset b_dirty"

definition buf_ok :: "nat \<Rightarrow> (nat \<Rightarrow> block) \<Rightarrow> buf \<Rightarrow> bool" where
  "buf_ok n dk p \<longleftrightarrow> length (b_data p) = BSIZE \<and> b_refcnt p = (if b_locked p then 1 else 0) \<and>
     (b_valid p \<longrightarrow> b_dev p = 1 \<and> b_blockno p < n \<and> (b_dirty p \<or> b_data p = dk (b_blockno p))) \<and>
     (b_dirty p \<longrightarrow> b_valid p) \<and> (b_locked p \<longrightarrow> b_valid p)"

text \<open>No block has two buffers.  Device 0 is excluded: it marks the buffers never used so far.\<close>

definition bufs_unique :: "buf list \<Rightarrow> bool" where
  "bufs_unique bs \<longleftrightarrow> (\<forall>i<NBUF. \<forall>j<NBUF. b_dev (bs ! i) \<noteq> 0 \<and> b_dev (bs ! i) = b_dev (bs ! j) \<and>
     b_blockno (bs ! i) = b_blockno (bs ! j) \<longrightarrow> i = j)"

definition bio_ok :: "'z bios_scheme \<Rightarrow> bool" where
  "bio_ok s \<longleftrightarrow> (\<exists>mru. ring (bufs s) mru) \<and> curproc s \<noteq> None \<and> bufs_unique (bufs s) \<and>
     (\<forall>i<NBUF. buf_ok (disksize s) (disk s) (buf_at s i)) \<and> (\<forall>b. length (disk s b) = BSIZE)"

definition holds :: "'z bios_scheme \<Rightarrow> nat \<Rightarrow> nat \<Rightarrow> bool" where
  "holds s i b \<longleftrightarrow> i < NBUF \<and> b_dev (buf_at s i) = 1 \<and> b_blockno (buf_at s i) = b \<and> b_locked (buf_at s i)"

text \<open>Waking sleepers is all that the cache does to the process table.\<close>

definition woken :: "proc \<Rightarrow> proc \<Rightarrow> bool" where
  "woken p q \<longleftrightarrow> q = p \<or> pstate p = SLEEPING \<and> q = p\<lparr>pstate := RUNNABLE\<rparr>"

definition bio_frame :: "'z bios_scheme \<Rightarrow> 'z bios_scheme \<Rightarrow> bool" where
  "bio_frame s s' \<longleftrightarrow> list_all2 woken (ptable s) (ptable s') \<and>
     s' = s\<lparr>ptable := ptable s', bufs := bufs s', disk := disk s', dtrace := dtrace s'\<rparr>"

lemma woken_trans: "woken p q \<Longrightarrow> woken q r \<Longrightarrow> woken p r"
  by (auto simp: woken_def)

lemma bio_frame_refl [simp]: "bio_frame s s"
  by (simp add: bio_frame_def woken_def list_all2_refl)

lemma bio_frame_trans [trans]:
  assumes "bio_frame s t" and "bio_frame t u"
  shows "bio_frame s u"
proof -
  have "u = t\<lparr>ptable := ptable u, bufs := bufs u, disk := disk u, dtrace := dtrace u\<rparr>"
    using assms(2) by (simp add: bio_frame_def)
  also have "t = s\<lparr>ptable := ptable t, bufs := bufs t, disk := disk t, dtrace := dtrace t\<rparr>"
    using assms(1) by (simp add: bio_frame_def)
  finally have "u = s\<lparr>ptable := ptable u, bufs := bufs u, disk := disk u, dtrace := dtrace u\<rparr>"
    by simp
  then show ?thesis
    using assms list_all2_trans [of woken woken woken "ptable s" "ptable t" "ptable u"] woken_trans
    by (auto simp: bio_frame_def)
qed

lemma bio_frame_simps:
  assumes "bio_frame s s'"
  shows "disksize s' = disksize s" and "curproc s' = curproc s" and "mem s' = mem s"
    and "length (ptable s') = length (ptable s)" and "kpgdir s' = kpgdir s" and "freelist s' = freelist s"
proof -
  let ?t = "s\<lparr>ptable := ptable s', bufs := bufs s', disk := disk s', dtrace := dtrace s'\<rparr>"
  have eq: "s' = ?t" using assms by (simp add: bio_frame_def)
  show "disksize s' = disksize s" by (subst eq) simp
  show "curproc s' = curproc s" by (subst eq) simp
  show "mem s' = mem s" by (subst eq) simp
  show "kpgdir s' = kpgdir s" by (subst eq) simp
  show "freelist s' = freelist s" by (subst eq) simp
  have "list_all2 woken (ptable s) (ptable s')" using assms by (simp add: bio_frame_def)
  from list_all2_lengthD [OF this] show "length (ptable s') = length (ptable s)" by simp
qed

lemma bio_frame_upd_buf: "bio_frame s (upd_buf s i f)"
  by (simp add: bio_frame_def upd_buf_def woken_def list_all2_refl)

lemma bio_frame_links: "bio_frame s (unlink_buf b s)" "bio_frame s (push_buf b s)"
  by (simp_all add: bio_frame_def unlink_buf_def push_buf_def Let_def upd_buf_def woken_def list_all2_refl)

lemma bio_frame_disk_put: "bio_frame s (disk_put s b d)"
  by (simp add: bio_frame_def disk_put_def woken_def list_all2_refl)

lemma bio_frame_wakeup: "bio_frame s (wakeup s c)"
  by (simp add: bio_frame_def wakeup_def wakeup1_def woken_def list_all2_conv_all_nth)

text \<open>Whatever the cache holds, its operations change nothing outside the frame.\<close>

lemma lock_buf_frame: "lock_buf b s = OK (i, s') \<Longrightarrow> bio_frame s s'"
  by (auto simp: lock_buf_def kbind_OK_iff bio_frame_upd_buf)

lemma bget_frame: "bget dev b s = OK (i, s') \<Longrightarrow> bio_frame s s'"
  by (auto simp: bget_def kbind_OK_iff split: option.splits
      intro: bio_frame_trans [OF bio_frame_upd_buf lock_buf_frame])

lemma iderw_frame:
  assumes "iderw i s = OK s'"
  shows "bio_frame s s'"
proof -
  have *: "bio_frame s (upd_buf t i g)" if "bio_frame s t" for t g
    using bio_frame_trans [OF that bio_frame_upd_buf] .
  have d: "bio_frame s (disk_put t b d)" if "bio_frame s t" for t b d
    using bio_frame_trans [OF that bio_frame_disk_put] .
  show ?thesis using assms by (auto simp: iderw_def Let_def split: if_splits intro!: * d)
qed

lemma bread_frame: "bread dev b s = OK (i, s') \<Longrightarrow> bio_frame s s'"
  by (auto simp: bread_def kbind_OK_iff split: if_splits dest!: bget_frame iderw_frame intro: bio_frame_trans)

lemma bwrite_frame: "bwrite i s = OK s' \<Longrightarrow> bio_frame s s'"
  by (auto simp: bwrite_def split: if_splits dest!: iderw_frame intro: bio_frame_trans [OF bio_frame_upd_buf])

lemma brelse_frame:
  assumes "brelse i s = OK s'"
  shows "bio_frame s s'"
proof -
  have *: "bio_frame s (upd_buf t j g)" if "bio_frame s t" for t j g
    using bio_frame_trans [OF that bio_frame_upd_buf] .
  have p: "bio_frame s (push_buf j (unlink_buf j t))" if "bio_frame s t" for t j
    using bio_frame_trans [OF that bio_frame_trans [OF bio_frame_links(1) bio_frame_links(2)]] .
  show ?thesis
    using assms by (auto simp: brelse_def Let_def releasesleep_def split: if_splits intro!: * p bio_frame_wakeup)
qed

lemma bset_iff: "b \<in> bset P s \<longleftrightarrow> (\<exists>i<NBUF. P (buf_at s i) \<and> b_blockno (buf_at s i) = b)"
  by (auto simp: bset_def)

lemma holds_hset: "holds s i b \<Longrightarrow> b \<in> hset s"
  by (auto simp: holds_def bset_iff)

lemma blk_eqI:
  assumes "\<And>i. i < NBUF \<Longrightarrow> b_valid (buf_at s i) \<Longrightarrow> b_blockno (buf_at s i) = b \<Longrightarrow> b_data (buf_at s i) = d"
    and "(\<And>i. i < NBUF \<Longrightarrow> b_valid (buf_at s i) \<Longrightarrow> b_blockno (buf_at s i) \<noteq> b) \<Longrightarrow> disk s b = d"
  shows "blk s b = d"
proof (cases "find (\<lambda>i. b_valid (buf_at s i) \<and> b_blockno (buf_at s i) = b) [0..<NBUF]")
  case None
  then have "disk s b = d" using assms(2) unfolding find_None_iff by auto
  with None show ?thesis by (simp add: blk_def)
next
  case (Some i)
  then have "i < NBUF" "b_valid (buf_at s i)" "b_blockno (buf_at s i) = b"
    unfolding find_Some_iff by auto
  with Some assms(1) show ?thesis by (simp add: blk_def)
qed

lemma blk_cong: "bufs s' = bufs s \<Longrightarrow> disk s' = disk s \<Longrightarrow> blk s' = blk s"
  by (rule ext) (simp add: blk_def cong: option.case_cong)

lemma bio_okD:
  assumes "bio_ok s" and "i < NBUF"
  shows "buf_ok (disksize s) (disk s) (buf_at s i)"
  using assms by (simp add: bio_ok_def)

lemma buf_unique:
  assumes "bio_ok s" and "i < NBUF" and "j < NBUF" and "b_dev (buf_at s i) \<noteq> 0"
    and "b_dev (buf_at s i) = b_dev (buf_at s j)" and "b_blockno (buf_at s i) = b_blockno (buf_at s j)"
  shows "i = j"
  using assms unfolding bio_ok_def bufs_unique_def by blast

lemma valid_unique:
  assumes "bio_ok s" and "i < NBUF" and "j < NBUF" and "b_valid (buf_at s i)" and "b_valid (buf_at s j)"
    and "b_blockno (buf_at s i) = b_blockno (buf_at s j)"
  shows "i = j"
proof -
  have "b_dev (buf_at s i) = 1" "b_dev (buf_at s j) = 1"
    using bio_okD [OF assms(1,2)] bio_okD [OF assms(1,3)] assms by (auto simp: buf_ok_def)
  with assms show ?thesis using buf_unique [OF assms(1-3)] by simp
qed

lemma blk_cached:
  assumes "bio_ok s" and "i < NBUF" and "b_valid (buf_at s i)"
  shows "blk s (b_blockno (buf_at s i)) = b_data (buf_at s i)"
  using valid_unique [OF assms(1) _ assms(2) _ assms(3)] assms(2,3)
  by (intro blk_eqI) auto

lemma holds_data:
  assumes "bio_ok s" and "holds s i b"
  shows "b_data (buf_at s i) = blk s b" and "b_valid (buf_at s i)" and "b < disksize s"
proof -
  have i: "i < NBUF" using assms(2) by (simp add: holds_def)
  show v: "b_valid (buf_at s i)"
    using bio_okD [OF assms(1) i] assms(2) by (simp add: buf_ok_def holds_def)
  show "b_data (buf_at s i) = blk s b"
    using blk_cached [OF assms(1) i v] assms(2) by (simp add: holds_def)
  show "b < disksize s"
    using bio_okD [OF assms(1) i] assms(2) v by (auto simp: buf_ok_def holds_def)
qed

lemma length_blk:
  assumes "bio_ok s"
  shows "length (blk s b) = BSIZE"
proof (cases "\<exists>i<NBUF. b_valid (buf_at s i) \<and> b_blockno (buf_at s i) = b")
  case True
  then obtain i where i: "i < NBUF" "b_valid (buf_at s i)" "b_blockno (buf_at s i) = b" by blast
  show ?thesis using blk_cached [OF assms i(1,2)] bio_okD [OF assms i(1)] i(3) by (simp add: buf_ok_def)
next
  case False
  then have "blk s b = disk s b" by (intro blk_eqI) auto
  then show ?thesis using assms by (simp add: bio_ok_def)
qed

lemma blk_clean:
  assumes "bio_ok s" and "b \<notin> dset s"
  shows "blk s b = disk s b"
proof (rule blk_eqI)
  fix i assume i: "i < NBUF" "b_valid (buf_at s i)" "b_blockno (buf_at s i) = b"
  then have "\<not> b_dirty (buf_at s i)" using assms(2) by (auto simp: bset_iff)
  with bio_okD [OF assms(1) i(1)] i show "b_data (buf_at s i) = disk s b" by (auto simp: buf_ok_def)
qed (rule refl)

subsection \<open>What the operations promise\<close>

definition bio_to :: "'z bios_scheme \<Rightarrow> 'z bios_scheme \<Rightarrow> (nat \<Rightarrow> block) \<Rightarrow> nat set \<Rightarrow> nat set \<Rightarrow>
    (nat \<Rightarrow> block) \<Rightarrow> (nat \<times> block) list \<Rightarrow> bool" where
  "bio_to s s' B H D K T \<longleftrightarrow> bio_ok s' \<and> bio_frame s s' \<and>
     blk s' = B \<and> hset s' = H \<and> dset s' = D \<and> disk s' = K \<and> dtrace s' = T"

lemma dset_unique:
  assumes "bio_ok s" and "i < NBUF" and "b_dev (buf_at s i) = 1" and "b_blockno (buf_at s i) = b"
    and "\<not> b_dirty (buf_at s i)"
  shows "b \<notin> dset s"
proof
  assume "b \<in> dset s"
  then obtain j where j: "j < NBUF" "b_dirty (buf_at s j)" "b_blockno (buf_at s j) = b"
    by (auto simp: bset_iff)
  then have "b_dev (buf_at s j) = 1" using bio_okD [OF assms(1), of j] by (auto simp: buf_ok_def)
  then have "i = j" using assms j buf_unique [of s i j] by simp
  with assms j show False by simp
qed

text \<open>
  A free buffer is filled with block \<open>b\<close> and locked: either it already stood for the block, or no
  buffer did and a clean one is reused.
\<close>

lemma fill_buffer:
  assumes ok: "bio_ok s" and i: "i < NBUF" and free: "\<not> b_locked (buf_at s i)"
    and b: "b < disksize s" "b \<notin> hset s"
    and q: "b_next q = b_next (buf_at s i)" "b_prev q = b_prev (buf_at s i)" "b_dev q = 1" "b_blockno q = b"
      "b_locked q" "b_refcnt q = 1" "b_valid q" "b_data q = blk s b"
    and src: "b_dev (buf_at s i) = 1 \<and> b_blockno (buf_at s i) = b \<and> b_dirty q = b_dirty (buf_at s i) \<or>
      \<not> b_dirty (buf_at s i) \<and> \<not> b_dirty q \<and>
      (\<forall>j<NBUF. \<not> (b_dev (buf_at s j) = 1 \<and> b_blockno (buf_at s j) = b))"
  shows "bio_to s (upd_buf s i (\<lambda>_. q)) (blk s) (insert b (hset s)) (dset s) (disk s) (dtrace s)"
    and "holds (upd_buf s i (\<lambda>_. q)) i b" and "holds s j c \<Longrightarrow> holds (upd_buf s i (\<lambda>_. q)) j c"
proof -
  let ?s = "upd_buf s i (\<lambda>_. q)"
  obtain mru where mru: "ring (bufs s) mru" using ok by (auto simp: bio_ok_def)
  then have len: "length (bufs s) = NBUF + 1" by (simp add: ring_def)
  have nth: "buf_at ?s j = (if j = i then q else buf_at s j)" for j
    using i len by (simp add: nth_list_update)
  have only: "j = i" if "j < NBUF" "b_dev (buf_at s j) = 1" "b_blockno (buf_at s j) = b" for j
  proof -
    have "b_dev (buf_at s i) = 1" "b_blockno (buf_at s i) = b" using src that by blast+
    with buf_unique [OF ok that(1) i] that show ?thesis by simp
  qed
  have clean: "blk s b = disk s b" if "\<not> b_dirty q"
  proof (rule blk_clean [OF ok])
    show "b \<notin> dset s"
      using src that dset_unique [OF ok i] bio_okD [OF ok] by (fastforce simp: bset_iff buf_ok_def)
  qed
  have "ring (bufs ?s) mru"
    using mru i len q ring_cong [of "bufs ?s" "bufs s" mru] by (simp add: nth_list_update)
  moreover have "bufs_unique (bufs ?s)"
    unfolding bufs_unique_def
  proof (intro allI impI)
    fix j k assume jk: "j < NBUF" "k < NBUF" and
      same: "b_dev (buf_at ?s j) \<noteq> 0 \<and> b_dev (buf_at ?s j) = b_dev (buf_at ?s k) \<and>
        b_blockno (buf_at ?s j) = b_blockno (buf_at ?s k)"
    consider "j = i" "k = i" | "j = i" "k \<noteq> i" | "j \<noteq> i" "k = i" | "j \<noteq> i" "k \<noteq> i" by blast
    then show "j = k"
    proof cases
      case 2
      with same q(3,4) only [OF jk(2)] show ?thesis unfolding nth by auto
    next
      case 3
      with same q(3,4) only [OF jk(1)] show ?thesis unfolding nth by auto
    next
      case 4
      with same buf_unique [OF ok jk] show ?thesis unfolding nth by auto
    qed simp
  qed
  moreover have "buf_ok (disksize s) (disk s) q"
    using q b clean length_blk [OF ok] by (auto simp: buf_ok_def)
  ultimately have ok': "bio_ok ?s" using ok unfolding bio_ok_def nth by auto
  have blk': "blk ?s = blk s"
  proof
    fix c
    show "blk ?s c = blk s c"
    proof (cases "c = b")
      case True
      then show ?thesis using blk_cached [OF ok' i] q nth [of i] by simp
    next
      case False
      show ?thesis
      proof (rule blk_eqI)
        fix j assume "j < NBUF" "b_valid (buf_at ?s j)" "b_blockno (buf_at ?s j) = c"
        then show "b_data (buf_at ?s j) = blk s c"
          using False q nth [of j] blk_cached [OF ok, of j] by (auto split: if_splits)
      next
        assume none: "\<And>j. j < NBUF \<Longrightarrow> b_valid (buf_at ?s j) \<Longrightarrow> b_blockno (buf_at ?s j) \<noteq> c"
        have "c \<notin> dset s"
        proof
          assume "c \<in> dset s"
          then obtain j where j: "j < NBUF" "b_dirty (buf_at s j)" "b_blockno (buf_at s j) = c"
            by (auto simp: bset_iff)
          then have "b_valid (buf_at s j)" using bio_okD [OF ok j(1)] by (simp add: buf_ok_def)
          then show False using none [of j] j src False nth [of j] by (cases "j = i") auto
        qed
        then show "disk ?s c = blk s c" using blk_clean [OF ok] by simp
      qed
    qed
  qed
  have hs: "hset ?s = insert b (hset s)"
    using i free q unfolding set_eq_iff insert_iff bset_iff nth by (auto split: if_splits)
  have "b_dirty q = b_dirty (buf_at s i) \<and> (b_dirty q \<longrightarrow> b_blockno (buf_at s i) = b)"
    using src by blast
  then have "b_dirty (buf_at ?s j) \<and> b_blockno (buf_at ?s j) = c \<longleftrightarrow>
      b_dirty (buf_at s j) \<and> b_blockno (buf_at s j) = c" for j c
    unfolding nth using q(4) by (cases "j = i") auto
  then have "dset ?s = dset s" unfolding set_eq_iff bset_iff by blast
  with ok' blk' hs show "bio_to s ?s (blk s) (insert b (hset s)) (dset s) (disk s) (dtrace s)"
    by (simp add: bio_to_def bio_frame_upd_buf)
  show "holds ?s i b" using i q unfolding holds_def nth by simp
  show "holds s j c \<Longrightarrow> holds ?s j c" using free unfolding holds_def nth by auto
qed

lemma upd_buf_twice:
  "i < length (bufs s) \<Longrightarrow> upd_buf (upd_buf s i f) i g = upd_buf s i (\<lambda>p. g (f p))"
  by (simp add: upd_buf_def)

lemma upd_buf_const: "upd_buf s i f = upd_buf s i (\<lambda>_. f (buf_at s i))"
  by (simp add: upd_buf_def)

lemma some_free_buf:
  assumes ok: "bio_ok s" and "card (hset s \<union> dset s) < NBUF"
  shows "\<exists>i<NBUF. b_refcnt (buf_at s i) = 0 \<and> \<not> b_dirty (buf_at s i)"
proof (rule ccontr)
  assume none: "\<not> (\<exists>i<NBUF. b_refcnt (buf_at s i) = 0 \<and> \<not> b_dirty (buf_at s i))"
  have used: "b_locked (buf_at s i) \<or> b_dirty (buf_at s i)" and valid: "b_valid (buf_at s i)" if "i < NBUF" for i
    using none that bio_okD [OF ok that] by (auto simp: buf_ok_def split: if_splits)
  have "inj_on (\<lambda>i. b_blockno (buf_at s i)) {..<NBUF}"
    using valid_unique [OF ok] valid by (auto simp: inj_on_def)
  then have "card ((\<lambda>i. b_blockno (buf_at s i)) ` {..<NBUF}) = NBUF" by (simp add: card_image)
  moreover have "(\<lambda>i. b_blockno (buf_at s i)) ` {..<NBUF} \<subseteq> hset s \<union> dset s"
    using used by (auto simp: bset_def)
  moreover have "finite (hset s \<union> dset s)" by (simp add: bset_def)
  ultimately show False using assms(2) card_mono by (metis not_less)
qed

lemma lock_buf_free:
  assumes "bio_ok s" and "i < NBUF" and "\<not> b_locked (f (buf_at s i))"
  shows "\<exists>L. sl_locked L \<and> lock_buf i (upd_buf s i f) = OK (i, upd_buf s i (\<lambda>p. (f p)\<lparr>b_lock := L\<rparr>))"
proof -
  have "length (bufs s) = NBUF + 1" using assms(1) by (auto simp: bio_ok_def ring_def)
  moreover obtain p where "curproc s = Some p" using assms(1) by (auto simp: bio_ok_def)
  ultimately show ?thesis
    using assms(2,3)
    by (intro exI [of _ "(b_lock (f (buf_at s i)))\<lparr>sl_locked := True, sl_pid := pid (proc_at s p)\<rparr>"])
       (simp add: lock_buf_def acquiresleep_def upd_buf_twice)
qed

text \<open>The two ways in which bget finds a buffer, and what it stores there.\<close>

definition bget_case :: "'z bios_scheme \<Rightarrow> nat \<Rightarrow> nat \<Rightarrow> (buf \<Rightarrow> buf) \<Rightarrow> bool" where
  "bget_case s b i f \<longleftrightarrow>
     b_dev (buf_at s i) = 1 \<and> b_blockno (buf_at s i) = b \<and> f = (\<lambda>p. p\<lparr>b_refcnt := b_refcnt p + 1\<rparr>) \<or>
     \<not> b_dirty (buf_at s i) \<and> (\<forall>j<NBUF. \<not> (b_dev (buf_at s j) = 1 \<and> b_blockno (buf_at s j) = b)) \<and>
     f = (\<lambda>p. p\<lparr>b_dev := 1, b_blockno := b, b_valid := False, b_dirty := False, b_refcnt := 1\<rparr>)"

lemma bget_ok:
  assumes ok: "bio_ok s" and b: "b \<notin> hset s" and room: "b \<in> dset s \<or> card (hset s \<union> dset s) < NBUF"
  shows "\<exists>i L f. i < NBUF \<and> sl_locked L \<and> \<not> b_locked (buf_at s i) \<and>
    bget 1 b s = OK (i, upd_buf s i (\<lambda>p. (f p)\<lparr>b_lock := L\<rparr>)) \<and>
    bget_case s b i f"
proof -
  obtain mru where mru: "ring (bufs s) mru" using ok by (auto simp: bio_ok_def)
  then have set: "set mru = {..<NBUF}" by (simp add: ring_def)
  let ?P = "\<lambda>p. b_dev p = 1 \<and> b_blockno p = b" and ?F = "\<lambda>p. b_refcnt p = 0 \<and> \<not> b_dirty p"
  show ?thesis
  proof (cases "find (\<lambda>i. ?P (buf_at s i)) mru")
    case (Some i)
    then have i: "i < NBUF" "?P (buf_at s i)" using set find_SomeD [OF Some] by auto
    then have free: "\<not> b_locked (buf_at s i)" using b by (auto simp: bset_iff)
    let ?f = "\<lambda>p. p\<lparr>b_refcnt := b_refcnt p + 1\<rparr>"
    obtain L where "sl_locked L" "lock_buf i (upd_buf s i ?f) = OK (i, upd_buf s i (\<lambda>p. (?f p)\<lparr>b_lock := L\<rparr>))"
      using lock_buf_free [OF ok i(1), of ?f] free by auto
    then show ?thesis
      using Some i free scan_ring(1) [OF mru, of ?P]
      by (intro exI [of _ i] exI [of _ L] exI [of _ ?f]) (simp add: bget_def bget_case_def)
  next
    case None
    then have miss: "\<forall>j<NBUF. \<not> ?P (buf_at s j)" using set by (auto simp: find_None_iff)
    then have "b \<notin> dset s"
      using bio_okD [OF ok] by (auto simp: bset_iff buf_ok_def)
    with room some_free_buf [OF ok] obtain k where "k < NBUF" "?F (buf_at s k)" by auto
    then have "find (\<lambda>i. ?F (buf_at s i)) (rev mru) \<noteq> None" using set by (auto simp: find_None_iff)
    then obtain i where fi: "find (\<lambda>i. ?F (buf_at s i)) (rev mru) = Some i" by auto
    then have i: "i < NBUF" "?F (buf_at s i)" using set find_SomeD [OF fi] by auto
    then have free: "\<not> b_locked (buf_at s i)" using bio_okD [OF ok i(1)] by (auto simp: buf_ok_def)
    let ?f = "\<lambda>p. p\<lparr>b_dev := 1, b_blockno := b, b_valid := False, b_dirty := False, b_refcnt := 1\<rparr>"
    obtain L where "sl_locked L" "lock_buf i (upd_buf s i ?f) = OK (i, upd_buf s i (\<lambda>p. (?f p)\<lparr>b_lock := L\<rparr>))"
      using lock_buf_free [OF ok i(1), of ?f] free by auto
    then show ?thesis
      using None fi i free miss scan_ring(1) [OF mru, of ?P] scan_ring(2) [OF mru, of ?F]
      by (intro exI [of _ i] exI [of _ L] exI [of _ ?f]) (simp add: bget_def bget_case_def)
  qed
qed

lemma bread_ok:
  assumes ok: "bio_ok s" and b: "b < disksize s" "b \<notin> hset s"
    and room: "b \<in> dset s \<or> card (hset s \<union> dset s) < NBUF"
  shows "\<exists>i s'. bread 1 b s = OK (i, s') \<and>
    bio_to s s' (blk s) (insert b (hset s)) (dset s) (disk s) (dtrace s) \<and>
    holds s' i b \<and> (\<forall>j c. holds s j c \<longrightarrow> holds s' j c)"
proof -
  from bget_ok [OF ok b(2) room] obtain i L f where
    i: "i < NBUF" and L: "sl_locked L" and free: "\<not> b_locked (buf_at s i)"
    and get: "bget 1 b s = OK (i, upd_buf s i (\<lambda>p. (f p)\<lparr>b_lock := L\<rparr>))"
    and src0: "bget_case s b i f"
    by blast
  note src = src0 [unfolded bget_case_def]
  let ?g = "\<lambda>p. (f p)\<lparr>b_lock := L\<rparr>"
  define q where "q = (if b_valid (f (buf_at s i)) then ?g (buf_at s i)
     else (?g (buf_at s i))\<lparr>b_data := disk s b, b_valid := True\<rparr>)"
  have len: "length (bufs s) = NBUF + 1" using ok by (auto simp: bio_ok_def ring_def)
  have bi: "buf_ok (disksize s) (disk s) (buf_at s i)" by (rule bio_okD [OF ok i])
  have fb: "b_blockno (f (buf_at s i)) = b" "b_dev (f (buf_at s i)) = 1"
    "b_dirty (f (buf_at s i)) \<Longrightarrow> b_valid (f (buf_at s i))"
    using src bi by (auto simp: buf_ok_def)
  have rd: "bread 1 b s = OK (i, upd_buf s i (\<lambda>_. q))"
  proof (cases "b_valid (f (buf_at s i))")
    case True
    then show ?thesis using i len get by (simp add: bread_def q_def upd_buf_def)
  next
    case False
    then show ?thesis
      using i len L fb b(1) get
      by (auto simp: bread_def q_def iderw_def holdingsleep_def upd_buf_def)
  qed
  have data: "b_data q = blk s b"
  proof (cases "b_valid (f (buf_at s i))")
    case True
    then have "b_valid (buf_at s i)" "b_blockno (buf_at s i) = b" "b_data q = b_data (buf_at s i)"
      using src by (auto simp: q_def)
    then show ?thesis using blk_cached [OF ok i] by simp
  next
    case False
    then have "b \<notin> dset s"
      using src bi dset_unique [OF ok i] bio_okD [OF ok]
      by (fastforce simp: bset_iff buf_ok_def)
    with False show ?thesis using blk_clean [OF ok] by (simp add: q_def)
  qed
  have "b_next q = b_next (buf_at s i)" "b_prev q = b_prev (buf_at s i)" "b_dev q = 1" "b_blockno q = b"
    "b_locked q" "b_refcnt q = 1" "b_valid q"
    using src L free bi by (auto simp: q_def buf_ok_def)
  moreover have "b_dev (buf_at s i) = 1 \<and> b_blockno (buf_at s i) = b \<and> b_dirty q = b_dirty (buf_at s i) \<or>
      \<not> b_dirty (buf_at s i) \<and> \<not> b_dirty q \<and>
      (\<forall>j<NBUF. \<not> (b_dev (buf_at s j) = 1 \<and> b_blockno (buf_at s j) = b))"
    using src by (auto simp: q_def)
  ultimately show ?thesis
    using rd data fill_buffer [OF ok i free b, of q] by blast
qed

text \<open>The holder of a buffer changes its data and its flags; the disk block may change with it.\<close>

lemma change_buffer:
  fixes s s' :: "'z bios_scheme" and t :: "(nat \<times> block) list"
  assumes ok: "bio_ok s" and h: "holds s i b" and d: "length d = BSIZE"
    and dk: "dk = disk s \<or> \<not> dirty \<and> dk = (disk s)(b := d)" "\<not> dirty \<Longrightarrow> dk b = d"
  defines "s' \<equiv> (upd_buf s i (\<lambda>p. p\<lparr>b_data := d, b_dirty := dirty\<rparr>))\<lparr>disk := dk, dtrace := t\<rparr>"
  shows "bio_to s s' ((blk s)(b := d)) (hset s) (if dirty then insert b (dset s) else dset s - {b}) dk t"
    and "holds s j c \<longleftrightarrow> holds s' j c"
proof -
  obtain mru where mru: "ring (bufs s) mru" using ok by (auto simp: bio_ok_def)
  then have len: "length (bufs s) = NBUF + 1" by (simp add: ring_def)
  have i: "i < NBUF" "b_dev (buf_at s i) = 1" "b_blockno (buf_at s i) = b" "b_locked (buf_at s i)"
    using h by (simp_all add: holds_def)
  have v: "b_valid (buf_at s i)" "b < disksize s" using holds_data [OF ok h] by simp_all
  let ?q = "(buf_at s i)\<lparr>b_data := d, b_dirty := dirty\<rparr>"
  have nth: "buf_at s' j = (if j = i then ?q else buf_at s j)" for j
    using i len by (simp add: s'_def nth_list_update)
  have other: "b_blockno (buf_at s j) \<noteq> b" if "j < NBUF" "j \<noteq> i" "b_valid (buf_at s j)" for j
    using valid_unique [OF ok that(1) i(1)] that v i by auto
  have dk': "dk c = disk s c" if "c \<noteq> b" for c using dk that by auto
  have ldk: "length (dk c) = BSIZE" for c using dk d ok by (auto simp: bio_ok_def)
  have "ring (bufs s') mru"
    using mru i len ring_cong [of "bufs s'" "bufs s" mru] by (simp add: s'_def nth_list_update)
  moreover have "bufs_unique (bufs s')"
  proof -
    have "b_dev (buf_at s' j) = b_dev (buf_at s j)" "b_blockno (buf_at s' j) = b_blockno (buf_at s j)" for j
      by (simp_all add: nth)
    then show ?thesis using ok by (simp add: bio_ok_def bufs_unique_def)
  qed
  moreover have "buf_ok (disksize s) dk (buf_at s' j)" if j: "j < NBUF" for j
  proof (cases "j = i")
    case True
    then show ?thesis using bio_okD [OF ok i(1)] i v d dk by (auto simp: nth buf_ok_def)
  next
    case False
    then show ?thesis
      using bio_okD [OF ok j] other [OF j False] dk' by (auto simp: nth buf_ok_def)
  qed
  ultimately have ok': "bio_ok s'" using ok ldk by (auto simp: bio_ok_def s'_def)
  have blk': "blk s' = (blk s)(b := d)"
  proof
    fix c
    show "blk s' c = ((blk s)(b := d)) c"
    proof (cases "c = b")
      case True
      then show ?thesis using blk_cached [OF ok' i(1)] i v nth [of i] by simp
    next
      case False
      show ?thesis
      proof (rule blk_eqI)
        fix j assume "j < NBUF" "b_valid (buf_at s' j)" "b_blockno (buf_at s' j) = c"
        then show "b_data (buf_at s' j) = ((blk s)(b := d)) c"
          using False i nth [of j] blk_cached [OF ok, of j] by (auto split: if_splits)
      next
        assume none: "\<And>j. j < NBUF \<Longrightarrow> b_valid (buf_at s' j) \<Longrightarrow> b_blockno (buf_at s' j) \<noteq> c"
        have "blk s c = disk s c"
        proof (rule blk_eqI)
          fix j assume "j < NBUF" "b_valid (buf_at s j)" "b_blockno (buf_at s j) = c"
          then show "b_data (buf_at s j) = disk s c" using none [of j] nth [of j] by (auto split: if_splits)
        qed (rule refl)
        then show "disk s' c = ((blk s)(b := d)) c" using False dk' by (simp add: s'_def)
      qed
    qed
  qed
  have hs: "b_locked (buf_at s' j) = b_locked (buf_at s j)" "b_blockno (buf_at s' j) = b_blockno (buf_at s j)" for j
    using nth [of j] by auto
  have dj: "b_dirty (buf_at s' j) \<longleftrightarrow> (if j = i then dirty else b_dirty (buf_at s j))" for j
    using nth [of j] by auto
  have do: "b_blockno (buf_at s j) \<noteq> b" if "b_dirty (buf_at s j)" "j < NBUF" "j \<noteq> i" for j
    using that other [of j] bio_okD [OF ok, of j] by (auto simp: buf_ok_def)
  have ds: "dset s' = (if dirty then insert b (dset s) else dset s - {b})"
  proof (rule set_eqI)
    fix c
    show "c \<in> dset s' \<longleftrightarrow> c \<in> (if dirty then insert b (dset s) else dset s - {b})"
    proof (cases "c = b")
      case True
      have "b \<in> dset s' \<longleftrightarrow> dirty" unfolding bset_iff hs dj using i do by (metis (full_types))
      with True show ?thesis by auto
    next
      case False
      then have "c \<in> dset s' \<longleftrightarrow> c \<in> dset s" unfolding bset_iff hs dj using i by metis
      with False show ?thesis by auto
    qed
  qed
  have "bio_frame s s'"
    by (simp add: bio_frame_def s'_def upd_buf_def woken_def list_all2_refl)
  then show "bio_to s s' ((blk s)(b := d)) (hset s) (if dirty then insert b (dset s) else dset s - {b}) dk t"
    using ok' blk' ds hs unfolding bio_to_def by (simp add: bset_def s'_def)
  show "holds s j c \<longleftrightarrow> holds s' j c" using nth [of j] by (auto simp: holds_def)
qed

lemma mark_dirty_ok:
  assumes "bio_ok s" and "holds s i b" and "length d = BSIZE"
  defines "s' \<equiv> upd_buf (set_data i d s) i (\<lambda>p. p\<lparr>b_dirty := True\<rparr>)"
  shows "bio_to s s' ((blk s)(b := d)) (hset s) (insert b (dset s)) (disk s) (dtrace s)"
    and "holds s' j c \<longleftrightarrow> holds s j c"
proof -
  have "i < length (bufs s)" using assms(1,2) by (auto simp: bio_ok_def ring_def holds_def)
  then have eq: "s' = (upd_buf s i (\<lambda>p. p\<lparr>b_data := d, b_dirty := True\<rparr>))\<lparr>disk := disk s, dtrace := dtrace s\<rparr>"
    unfolding s'_def set_data_def by (cases s) (simp add: upd_buf_def)
  show "bio_to s s' ((blk s)(b := d)) (hset s) (insert b (dset s)) (disk s) (dtrace s)"
    using change_buffer(1) [OF assms(1-3), of "disk s" True] unfolding eq by simp
  show "holds s' j c \<longleftrightarrow> holds s j c"
    using change_buffer(2) [OF assms(1-3), of "disk s" True] unfolding eq by simp
qed

lemma bwrite_ok:
  assumes "bio_ok s" and "holds s i b" and "length d = BSIZE"
  shows "\<exists>s'. bwrite i (set_data i d s) = OK s' \<and>
    bio_to s s' ((blk s)(b := d)) (hset s) (dset s - {b}) ((disk s)(b := d)) (dtrace s @ [(b, d)]) \<and>
    (\<forall>j c. holds s' j c \<longleftrightarrow> holds s j c)"
proof -
  let ?s = "(upd_buf s i (\<lambda>p. p\<lparr>b_data := d, b_dirty := False\<rparr>))
    \<lparr>disk := (disk s)(b := d), dtrace := dtrace s @ [(b, d)]\<rparr>"
  have il: "i < length (bufs s)" using assms(1,2) by (auto simp: bio_ok_def ring_def holds_def)
  have h: "b_dev (buf_at s i) = 1" "b_blockno (buf_at s i) = b" "b_locked (buf_at s i)"
    "b_valid (buf_at s i)" "b < disksize s"
    using holds_data [OF assms(1,2)] assms(2) by (simp_all add: holds_def)
  define s1 where "s1 = upd_buf s i (\<lambda>p. p\<lparr>b_data := d, b_dirty := True\<rparr>)"
  have n1: "buf_at s1 i = (buf_at s i)\<lparr>b_data := d, b_dirty := True\<rparr>" "length (bufs s1) = length (bufs s)"
    "disksize s1 = disksize s"
    using il by (simp_all add: s1_def)
  have "bwrite i (set_data i d s) = iderw i s1"
    using il h by (simp add: bwrite_def holdingsleep_def set_data_def upd_buf_twice s1_def)
  also have "\<dots> = OK (disk_put (upd_buf s1 i (\<lambda>b. b\<lparr>b_dirty := False\<rparr>)) b d)"
    using iderw_write [of i s1] n1 il h by simp
  also have "upd_buf s1 i (\<lambda>b. b\<lparr>b_dirty := False\<rparr>) = upd_buf s i (\<lambda>p. p\<lparr>b_data := d, b_dirty := False\<rparr>)"
    using il by (simp add: s1_def upd_buf_twice)
  finally have "bwrite i (set_data i d s) = OK ?s" by (simp add: disk_put_def)
  then show ?thesis
    using change_buffer [OF assms, of "(disk s)(b := d)" False] by auto
qed

lemma brelse_ok:
  assumes ok: "bio_ok s" and h: "holds s i b"
  shows "\<exists>s'. brelse i s = OK s' \<and>
    bio_to s s' (blk s) (hset s - {b}) (dset s) (disk s) (dtrace s) \<and>
    (\<forall>j c. holds s j c \<and> c \<noteq> b \<longrightarrow> holds s' j c) \<and>
    (\<forall>mru. ring (bufs s) mru \<longrightarrow> ring (bufs s') (i # remove1 i mru))"
proof -
  obtain mru where mru: "ring (bufs s) mru" using ok by (auto simp: bio_ok_def)
  then have len: "length (bufs s) = NBUF + 1" by (simp add: ring_def)
  have i: "i < NBUF" "b_dev (buf_at s i) = 1" "b_blockno (buf_at s i) = b" "b_locked (buf_at s i)"
    using h by (simp_all add: holds_def)
  have bi: "b_refcnt (buf_at s i) = 1" "b_valid (buf_at s i)"
    using bio_okD [OF ok i(1)] i by (simp_all add: buf_ok_def)
  define w where "w = wakeup s (ChBufLock i)"
  have ws: "bufs w = bufs s" "disk w = disk s" "disksize w = disksize s" "dtrace w = dtrace s" "curproc w = curproc s"
    by (simp_all add: w_def wakeup_def wakeup1_def)
  define q where "q = (buf_at s i)\<lparr>b_lock := (b_lock (buf_at s i))\<lparr>sl_locked := False, sl_pid := 0\<rparr>, b_refcnt := 0\<rparr>"
  define t where "t = upd_buf w i (\<lambda>_. q)"
  define s' where "s' = push_buf i (unlink_buf i t)"
  have step: "upd_buf (upd_buf w i (\<lambda>p. p\<lparr>b_lock := (b_lock (buf_at s i))\<lparr>sl_locked := False, sl_pid := 0\<rparr>\<rparr>)) i
      (\<lambda>p. p\<lparr>b_refcnt := b_refcnt p - 1\<rparr>) = t"
    using i len bi by (simp add: t_def q_def upd_buf_def ws)
  have "b_refcnt (buf_at t i) = 0" using i len by (simp add: t_def q_def ws)
  then have rel: "brelse i s = OK s'"
    using i step by (simp add: brelse_def holdingsleep_def releasesleep_def w_def [symmetric] s'_def del: upd_buf_simps(1))
  have tn: "buf_at t j = (if j = i then q else buf_at s j)" for j
    using i len by (simp add: t_def ws nth_list_update)
  have rt: "ring (bufs t) m" if m: "ring (bufs s) m" for m
  proof -
    have "b_next q = b_next (buf_at s i)" "b_prev q = b_prev (buf_at s i)" by (simp_all add: q_def)
    then show ?thesis
      using m ring_cong [of "bufs t" "bufs s" m] by (simp add: tn) (simp add: t_def ws)
  qed
  have rm: "ring (bufs s') (i # remove1 i m)" if "ring (bufs s) m" for m
    unfolding s'_def by (rule ring_move_front [OF rt [OF that] i(1)])
  note rs = rm [OF mru]
  have "map core (bufs s') = map core (bufs t)" by (simp add: s'_def core_unlink_push)
  moreover have lens: "length (bufs s') = NBUF + 1" "length (bufs t) = NBUF + 1"
    using rs rt [OF mru] by (simp_all add: ring_def)
  ultimately have core: "core (buf_at s' j) = core (buf_at t j)" if "j < NBUF" for j
    using that by (metis nth_map trans_less_add1)
  have same: "b_valid (buf_at s' j) = b_valid (buf_at s j)" "b_dirty (buf_at s' j) = b_dirty (buf_at s j)"
      "b_dev (buf_at s' j) = b_dev (buf_at s j)" "b_blockno (buf_at s' j) = b_blockno (buf_at s j)"
      "b_data (buf_at s' j) = b_data (buf_at s j)" "b_locked (buf_at s' j) = (j \<noteq> i \<and> b_locked (buf_at s j))"
      "b_refcnt (buf_at s' j) = (if j = i then 0 else b_refcnt (buf_at s j))" if "j < NBUF" for j
    using arg_cong [OF core [OF that], of b_valid] arg_cong [OF core [OF that], of b_dirty]
      arg_cong [OF core [OF that], of b_dev] arg_cong [OF core [OF that], of b_blockno]
      arg_cong [OF core [OF that], of b_data] arg_cong [OF core [OF that], of b_lock]
      arg_cong [OF core [OF that], of b_refcnt] by (simp_all add: tn q_def)
  have fs: "disk s' = disk s" "disksize s' = disksize s" "curproc s' = curproc s" "dtrace s' = dtrace s"
    by (simp_all add: s'_def push_buf_def unlink_buf_def Let_def t_def ws)
  have "bio_ok s'"
    unfolding bio_ok_def
  proof (intro conjI allI impI)
    show "\<exists>mru. ring (bufs s') mru" using rs by blast
    show "curproc s' \<noteq> None" "length (disk s' c) = BSIZE" for c using ok fs by (auto simp: bio_ok_def)
    show "bufs_unique (bufs s')" using ok same by (simp add: bio_ok_def bufs_unique_def)
    show "buf_ok (disksize s') (disk s') (buf_at s' j)" if "j < NBUF" for j
      using bio_okD [OF ok that] same [OF that] fs by (auto simp: buf_ok_def)
  qed
  moreover have "bio_frame s s'"
  proof -
    have "bio_frame s w" unfolding w_def by (rule bio_frame_wakeup)
    also have "bio_frame w t" unfolding t_def by (rule bio_frame_upd_buf)
    also have "bio_frame t s'"
      unfolding s'_def by (rule bio_frame_trans [OF bio_frame_links(1) bio_frame_links(2)])
    finally show ?thesis .
  qed
  moreover have "blk s' = blk s"
  proof
    fix c
    show "blk s' c = blk s c"
    proof (rule blk_eqI)
      fix j assume "j < NBUF" "b_valid (buf_at s' j)" "b_blockno (buf_at s' j) = c"
      then show "b_data (buf_at s' j) = blk s c" using same [of j] blk_cached [OF ok, of j] by simp
    next
      assume none: "\<And>j. j < NBUF \<Longrightarrow> b_valid (buf_at s' j) \<Longrightarrow> b_blockno (buf_at s' j) \<noteq> c"
      have "blk s c = disk s c"
        by (rule blk_eqI) (use none same in auto)
      then show "disk s' c = blk s c" by (simp add: fs)
    qed
  qed
  moreover have "hset s' = hset s - {b}"
  proof (rule set_eqI)
    fix c
    have "j = i" if "j < NBUF" "b_locked (buf_at s j)" "b_blockno (buf_at s j) = b" for j
      using that valid_unique [OF ok that(1) i(1)] bio_okD [OF ok that(1)] bi i by (simp add: buf_ok_def)
    moreover have "c \<in> hset s' \<longleftrightarrow> (\<exists>j<NBUF. j \<noteq> i \<and> b_locked (buf_at s j) \<and> b_blockno (buf_at s j) = c)"
      by (simp add: bset_iff same cong: conj_cong)
    ultimately show "c \<in> hset s' \<longleftrightarrow> c \<in> hset s - {b}"
      unfolding bset_iff Diff_iff singleton_iff using i(3) by metis
  qed
  moreover have "dset s' = dset s" unfolding set_eq_iff bset_iff using same by auto
  moreover have "holds s' j c" if "holds s j c" "c \<noteq> b" for j c
    using that i same [of j] by (auto simp: holds_def)
  ultimately show ?thesis
    using rel rm by (intro exI [of _ s']) (simp add: bio_to_def fs)
qed

subsection \<open>Initialisation\<close>

lemma b_lock_last:
  "p\<lparr>b_lock := l, b_next := n, b_prev := m\<rparr> = p\<lparr>b_next := n, b_prev := m, b_lock := l\<rparr>"
  "p\<lparr>b_lock := l, b_prev := m, b_next := n\<rparr> = p\<lparr>b_prev := m, b_next := n, b_lock := l\<rparr>"
  by (cases p, simp)+

lemma binit_buf_push:
  assumes "b < NBUF" and "length (bufs s) = NBUF + 1"
  shows "binit_buf b s = push_buf b (upd_buf s b (\<lambda>p. p\<lparr>b_lock := initsleeplock\<rparr>))"
  using assms by (simp add: binit_buf_def push_buf_def Let_def upd_buf_def b_lock_last)

lemma binit_buf_core:
  assumes "b < NBUF" and "length (bufs s) = NBUF + 1"
  shows "map core (bufs (binit_buf b s)) = (map core (bufs s))[b := (core (buf_at s b))\<lparr>b_lock := initsleeplock\<rparr>]"
  by (simp add: binit_buf_push [OF assms] core_unlink_push map_update) (simp add: core_def b_lock_last)

lemma binit_buf_frame: "disk (binit_buf b s) = disk s" "disksize (binit_buf b s) = disksize s"
  "curproc (binit_buf b s) = curproc s" "length (bufs (binit_buf b s)) = length (bufs s)"
  by (simp_all add: binit_buf_def Let_def)

lemma binit_fold:
  assumes "n \<le> NBUF" and "length (bufs s) = NBUF + 1"
    and "linked (\<lambda>i. b_next (buf_at s i)) (\<lambda>i. b_prev (buf_at s i)) NBUF [] NBUF"
  defines "t \<equiv> fold binit_buf [0..<n] s"
  shows "linked (\<lambda>i. b_next (buf_at t i)) (\<lambda>i. b_prev (buf_at t i)) NBUF (rev [0..<n]) NBUF \<and>
    length (bufs t) = NBUF + 1 \<and> disk t = disk s \<and> disksize t = disksize s \<and> curproc t = curproc s \<and>
    (\<forall>j<NBUF. core (buf_at t j) =
       (if j < n then (core (buf_at s j))\<lparr>b_lock := initsleeplock\<rparr> else core (buf_at s j)))"
  using assms(1) unfolding t_def
proof (induction n)
  case 0
  then show ?case using assms by simp
next
  case (Suc n)
  define u where "u = fold binit_buf [0..<n] s"
  have n: "n < NBUF" using Suc.prems by simp
  have l: "linked (\<lambda>i. b_next (buf_at u i)) (\<lambda>i. b_prev (buf_at u i)) NBUF (rev [0..<n]) NBUF"
    and len: "length (bufs u) = NBUF + 1"
    and fr: "disk u = disk s" "disksize u = disksize s" "curproc u = curproc s"
    and cr: "\<And>j. j < NBUF \<Longrightarrow> core (buf_at u j) =
       (if j < n then (core (buf_at s j))\<lparr>b_lock := initsleeplock\<rparr> else core (buf_at s j))"
    using Suc unfolding u_def by auto
  define v where "v = upd_buf u n (\<lambda>p. p\<lparr>b_lock := initsleeplock\<rparr>)"
  have lk: "(\<lambda>i. b_next (buf_at v i)) = (\<lambda>i. b_next (buf_at u i))"
      "(\<lambda>i. b_prev (buf_at v i)) = (\<lambda>i. b_prev (buf_at u i))"
    using n len by (simp_all add: v_def links_upd fun_upd_idem)
  have lenv: "length (bufs v) = NBUF + 1" using len by (simp add: v_def)
  have "b_next (buf_at v NBUF) = hd (rev [0..<n] @ [NBUF])"
    using linked_first [OF l] fun_cong [OF lk(1), of NBUF] by simp
  moreover have "hd (rev [0..<n] @ [NBUF]) \<in> set (rev [0..<n] @ [NBUF])" by (rule hd_in_set) simp
  ultimately have "b_next (buf_at v NBUF) \<in> set (rev [0..<n] @ [NBUF])" by metis
  then have le: "b_next (buf_at v NBUF) \<le> NBUF" using n by auto
  have lv: "linked (\<lambda>i. b_next (buf_at v i)) (\<lambda>i. b_prev (buf_at v i)) NBUF (rev [0..<n]) NBUF"
    unfolding lk by (rule l)
  have "linked (\<lambda>i. b_next (buf_at (push_buf n v) i)) (\<lambda>i. b_prev (buf_at (push_buf n v) i))
      NBUF (n # rev [0..<n]) NBUF"
    unfolding push_links [OF n lenv le] using n by (intro linked_push [OF lv]) auto
  moreover have step: "fold binit_buf [0..<Suc n] s = push_buf n v"
    by (simp add: u_def [symmetric] v_def binit_buf_push [OF n len])
  moreover have "core (buf_at (binit_buf n u) j) = (if j < Suc n
      then (core (buf_at s j))\<lparr>b_lock := initsleeplock\<rparr> else core (buf_at s j))" if j: "j < NBUF" for j
  proof -
    have "core (buf_at (binit_buf n u) j) = map core (bufs (binit_buf n u)) ! j"
      using j len by (simp add: binit_buf_frame)
    also have "\<dots> = (if j = n then (core (buf_at u n))\<lparr>b_lock := initsleeplock\<rparr> else core (buf_at u j))"
      using n j len by (simp add: binit_buf_core [OF n len] nth_list_update)
    finally show ?thesis using cr [OF j] n by auto
  qed
  moreover have "fold binit_buf [0..<Suc n] s = binit_buf n u" by (simp add: u_def)
  ultimately show ?case using fr len by (simp add: binit_buf_frame)
qed

text \<open>The buffers as the loader leaves them: all zero.\<close>

definition zero_buf :: buf where
  "zero_buf = \<lparr>b_valid = False, b_dirty = False, b_dev = 0, b_blockno = 0,
     b_lock = \<lparr>sl_locked = False, sl_pid = 0\<rparr>, b_refcnt = 0, b_prev = 0, b_next = 0,
     b_data = replicate BSIZE 0\<rparr>"

lemma binit_ok:
  assumes "bufs s = replicate (NBUF + 1) zero_buf" and "curproc s \<noteq> None" and "\<forall>b. length (disk s b) = BSIZE"
  shows "bio_ok (binit s)" and "ring (bufs (binit s)) (rev [0..<NBUF])" and "blk (binit s) = disk s"
    and "hset (binit s) = {}" and "dset (binit s) = {}"
proof -
  define h where "h = upd_buf (upd_buf s NBUF (\<lambda>h. h\<lparr>b_prev := NBUF\<rparr>)) NBUF (\<lambda>h. h\<lparr>b_next := NBUF\<rparr>)"
  have len: "length (bufs h) = NBUF + 1" and z: "\<And>j. j < NBUF \<Longrightarrow> buf_at h j = zero_buf"
    using assms(1) by (simp_all add: h_def del: replicate_Suc replicate.simps)
  have l: "linked (\<lambda>i. b_next (buf_at h i)) (\<lambda>i. b_prev (buf_at h i)) NBUF [] NBUF"
    using assms(1) by (simp add: h_def del: replicate_Suc replicate.simps)
  have "fold binit_buf [0..<NBUF] h = binit s" by (simp only: binit_def h_def Let_def)
  note f = binit_fold [OF order_refl len l, unfolded this]
  have "core (buf_at (binit s) j) = (core zero_buf)\<lparr>b_lock := initsleeplock\<rparr>" if "j < NBUF" for j
    using f z that by simp
  then have eqs: "core (buf_at (binit s) j) = core zero_buf" if "j < NBUF" for j
    using that by (simp add: zero_buf_def core_def initsleeplock_def)
  have z': "b_valid (buf_at (binit s) j) = False" "b_dirty (buf_at (binit s) j) = False"
      "b_dev (buf_at (binit s) j) = 0" "b_locked (buf_at (binit s) j) = False"
      "b_refcnt (buf_at (binit s) j) = 0" "b_data (buf_at (binit s) j) = replicate BSIZE 0" if "j < NBUF" for j
    using arg_cong [OF eqs [OF that], of b_valid] arg_cong [OF eqs [OF that], of b_dirty]
      arg_cong [OF eqs [OF that], of b_dev] arg_cong [OF eqs [OF that], of b_lock]
      arg_cong [OF eqs [OF that], of b_refcnt] arg_cong [OF eqs [OF that], of b_data]
    by (simp_all add: zero_buf_def del: replicate.simps replicate_Suc)
  have d: "disk (binit s) = disk s" "curproc (binit s) = curproc s" using f by (simp_all add: h_def)
  show r: "ring (bufs (binit s)) (rev [0..<NBUF])" unfolding ring_def using f by auto
  show "bio_ok (binit s)"
    unfolding bio_ok_def bufs_unique_def buf_ok_def using r assms(2,3) d z' by auto
  show "blk (binit s) = disk s"
    by (rule ext, rule blk_eqI) (use z' d in auto)
  show "hset (binit s) = {}" "dset (binit s) = {}" unfolding bset_def using z' by auto
qed

subsection \<open>The interface\<close>

text \<open>
  What a client may rely on.  \<open>get\<close> returns a handle on a block, \<open>store\<close> changes the data behind a
  handle, \<open>rel\<close> gives the handle back.  \<open>frame\<close> says what else of the state an operation keeps.
\<close>

locale block_cache =
  fixes ok :: "'s \<Rightarrow> bool" and view :: "'s \<Rightarrow> nat \<Rightarrow> block" and held :: "'s \<Rightarrow> nat set"
    and pinned :: "'s \<Rightarrow> nat set" and nblocks :: "'s \<Rightarrow> nat" and hold :: "'s \<Rightarrow> 'h \<Rightarrow> nat \<Rightarrow> bool"
    and frame :: "'s \<Rightarrow> 's \<Rightarrow> bool"
    and get :: "nat \<Rightarrow> 's \<Rightarrow> ('h \<times> 's) kres" and data :: "'s \<Rightarrow> 'h \<Rightarrow> block"
    and store :: "'h \<Rightarrow> block \<Rightarrow> 's \<Rightarrow> 's kres" and rel :: "'h \<Rightarrow> 's \<Rightarrow> 's kres"
  assumes get_law: "ok s \<Longrightarrow> b < nblocks s \<Longrightarrow> b \<notin> held s \<Longrightarrow> card (held s \<union> pinned s) < NBUF \<Longrightarrow>
      \<exists>h s'. get b s = OK (h, s') \<and> ok s' \<and> frame s s' \<and> hold s' h b \<and> view s' = view s \<and>
        held s' = insert b (held s) \<and> pinned s' = pinned s"
    and data_law: "ok s \<Longrightarrow> hold s h b \<Longrightarrow> data s h = view s b \<and> length (view s b) = BSIZE"
    and store_law: "ok s \<Longrightarrow> hold s h b \<Longrightarrow> length d = BSIZE \<Longrightarrow>
      \<exists>s'. store h d s = OK s' \<and> ok s' \<and> frame s s' \<and> hold s' h b \<and> view s' = (view s)(b := d) \<and>
        held s' = held s \<and> pinned s' \<subseteq> insert b (pinned s)"
    and rel_law: "ok s \<Longrightarrow> hold s h b \<Longrightarrow>
      \<exists>s'. rel h s = OK s' \<and> ok s' \<and> frame s s' \<and> view s' = view s \<and> held s' = held s - {b} \<and> pinned s' = pinned s"
    and frame_law: "frame s t \<Longrightarrow> frame t u \<Longrightarrow> frame s u"
begin

lemma read_block:
  assumes "ok s" and "b < nblocks s" and "b \<notin> held s" and "card (held s \<union> pinned s) < NBUF"
  shows "\<exists>s'. kbind (get b s) (\<lambda>(h, s). kbind (rel h s) (\<lambda>t. OK (data s h, t))) = OK (view s b, s') \<and>
    ok s' \<and> frame s s' \<and> view s' = view s \<and> held s' = held s \<and> pinned s' = pinned s"
proof -
  obtain h s1 where g: "get b s = OK (h, s1)" "ok s1" "frame s s1" "hold s1 h b" "view s1 = view s"
    "held s1 = insert b (held s)" "pinned s1 = pinned s"
    using get_law [OF assms] by blast
  obtain s2 where r: "rel h s1 = OK s2" "ok s2" "frame s1 s2" "view s2 = view s1" "held s2 = held s1 - {b}"
    "pinned s2 = pinned s1"
    using rel_law [OF g(2,4)] by blast
  have "held s2 = held s" using g(6) r(5) assms(3) by auto
  then show ?thesis
    using g r data_law [OF g(2,4)] frame_law [OF g(3) r(3)] by (intro exI [of _ s2]) simp
qed

lemma modify_block:
  assumes "ok s" and "b < nblocks s" and "b \<notin> held s" and "card (held s \<union> pinned s) < NBUF"
    and "\<And>d. length d = BSIZE \<Longrightarrow> length (f d) = BSIZE"
  shows "\<exists>s'. kbind (get b s) (\<lambda>(h, s). kbind (store h (f (data s h)) s) (rel h)) = OK s' \<and>
    ok s' \<and> frame s s' \<and> view s' = (view s)(b := f (view s b)) \<and> held s' = held s \<and>
    pinned s' \<subseteq> insert b (pinned s)"
proof -
  obtain h s1 where g: "get b s = OK (h, s1)" "ok s1" "frame s s1" "hold s1 h b" "view s1 = view s"
    "held s1 = insert b (held s)" "pinned s1 = pinned s"
    using get_law [OF assms(1-4)] by blast
  have d: "data s1 h = view s b" "length (f (view s b)) = BSIZE"
    using data_law [OF g(2,4)] g(5) assms(5) by simp_all
  obtain s2 where w: "store h (f (view s b)) s1 = OK s2" "ok s2" "frame s1 s2" "hold s2 h b"
    "view s2 = (view s1)(b := f (view s b))" "held s2 = held s1" "pinned s2 \<subseteq> insert b (pinned s1)"
    using store_law [OF g(2,4) d(2)] by blast
  obtain s3 where r: "rel h s2 = OK s3" "ok s3" "frame s2 s3" "view s3 = view s2" "held s3 = held s2 - {b}"
    "pinned s3 = pinned s2"
    using rel_law [OF w(2,4)] by blast
  have "held s3 = held s" using g(6) w(6) r(5) assms(3) by auto
  then show ?thesis
    using g d w r frame_law [OF g(3) frame_law [OF w(3) r(3)]] by (intro exI [of _ s3]) simp
qed

end

interpretation bc: block_cache bio_ok blk hset dset disksize holds bio_frame "bread 1"
  "\<lambda>s i. b_data (buf_at s i)" "\<lambda>i d s. bwrite i (set_data i d s)" brelse
proof (unfold_locales, goal_cases)
  case (1 s b)
  then show ?case using bread_ok [of s b] unfolding bio_to_def by blast
next
  case (2 s h b)
  then show ?case using holds_data(1) [of s h b] length_blk [of s b] by simp
next
  case (3 s h b d)
  then obtain s' where s': "bwrite h (set_data h d s) = OK s'"
    "bio_to s s' ((blk s)(b := d)) (hset s) (dset s - {b}) ((disk s)(b := d)) (dtrace s @ [(b, d)])"
    "\<forall>j c. holds s' j c \<longleftrightarrow> holds s j c"
    using bwrite_ok [of s h b d] by blast
  with 3(2) show ?case by (intro exI [of _ s']) (auto simp: bio_to_def)
next
  case (4 s h b)
  then show ?case using brelse_ok [of s h b] unfolding bio_to_def by blast
next
  case (5 s t u)
  then show ?case by (rule bio_frame_trans)
qed

subsection \<open>Properties\<close>

text \<open>
  Property C2. The buffer cache is a coherent copy of the disk.  Reading a block, storing new data
  in its buffer, writing it and releasing it succeeds whenever a buffer is left; the block is then
  on the disk, and a later read of any block returns the new data for this block and the previous
  content for every other, wherever the content lives.
\<close>

theorem buffer_cache_coherent:
  assumes "bio_ok s" and "hset s = {}" and "card (dset s) < NBUF" and "b < disksize s" and "c < disksize s"
    and "length d = BSIZE"
  shows "\<exists>i s1 s2 s3 j s4. bread 1 b s = OK (i, s1) \<and> b_data (buf_at s1 i) = blk s b \<and>
    bwrite i (set_data i d s1) = OK s2 \<and> disk s2 = (disk s)(b := d) \<and> brelse i s2 = OK s3 \<and>
    bread 1 c s3 = OK (j, s4) \<and> b_data (buf_at s4 j) = (if c = b then d else blk s c) \<and> bio_ok s4"
proof -
  obtain i s1 where r: "bread 1 b s = OK (i, s1)" "holds s1 i b"
    and t1: "bio_to s s1 (blk s) (insert b (hset s)) (dset s) (disk s) (dtrace s)"
    using bread_ok [of s b] assms by auto
  have s1: "bio_ok s1" "blk s1 = blk s" "hset s1 = {b}" "dset s1 = dset s" "disk s1 = disk s" "bio_frame s s1"
    using t1 assms(2) by (simp_all add: bio_to_def)
  obtain s2 where w: "bwrite i (set_data i d s1) = OK s2" "\<forall>j c. holds s2 j c \<longleftrightarrow> holds s1 j c"
    and t2: "bio_to s1 s2 ((blk s1)(b := d)) (hset s1) (dset s1 - {b}) ((disk s1)(b := d)) (dtrace s1 @ [(b, d)])"
    using bwrite_ok [OF s1(1) r(2) assms(6)] by blast
  have s2: "bio_ok s2" "holds s2 i b" "blk s2 = (blk s)(b := d)" "hset s2 = {b}" "dset s2 = dset s - {b}"
    "disk s2 = (disk s)(b := d)" "bio_frame s1 s2"
    using t2 w r s1 by (simp_all add: bio_to_def)
  obtain s3 where l: "brelse i s2 = OK s3"
    and t3: "bio_to s2 s3 (blk s2) (hset s2 - {b}) (dset s2) (disk s2) (dtrace s2)"
    using brelse_ok [OF s2(1,2)] by blast
  have s3: "bio_ok s3" "blk s3 = (blk s)(b := d)" "hset s3 = {}" "dset s3 = dset s - {b}" "bio_frame s2 s3"
    using t3 s2 by (simp_all add: bio_to_def)
  have "bio_frame s s3" using s1(6) s2(7) s3(5) bio_frame_trans by blast
  then have c: "c < disksize s3" using assms(5) by (simp add: bio_frame_simps)
  have "card (dset s3) < NBUF"
    using s3(4) assms(3) card_Diff1_le [of "dset s" b] by simp
  then obtain j s4 where r4: "bread 1 c s3 = OK (j, s4)" "holds s4 j c" "bio_ok s4" "blk s4 = blk s3"
    using bread_ok [OF s3(1) c] s3(3) by (auto simp: bio_to_def)
  have "b_data (buf_at s4 j) = (if c = b then d else blk s c)"
    using holds_data(1) [OF r4(3,2)] r4(4) s3(2) by simp
  moreover have "b_data (buf_at s1 i) = blk s b" using holds_data(1) [OF s1(1) r(2)] s1(2) by simp
  ultimately show ?thesis using r(1) w(1) s2(6) l r4(1,3) by blast
qed

definition boot_bios :: bios where
  "boot_bios = procs.extend (boot_procs\<lparr>curproc := Some 0\<rparr>)
     \<lparr>bufs = replicate (NBUF + 1) zero_buf, disk = (\<lambda>_. replicate BSIZE 0), disksize = FSSIZE, dtrace = []\<rparr>"

lemma boot_bios_ok:
  shows "bio_ok (binit boot_bios)" and "ring (bufs (binit boot_bios)) (rev [0..<NBUF])"
    and "blk (binit boot_bios) = (\<lambda>_. replicate BSIZE 0)" and "hset (binit boot_bios) = {}" and "dset (binit boot_bios) = {}"
proof -
  have b: "bufs boot_bios = replicate (NBUF + 1) zero_buf" "curproc boot_bios \<noteq> None"
      "\<forall>b. length (disk boot_bios b) = BSIZE" "disk boot_bios = (\<lambda>_. replicate BSIZE 0)"
    by (simp_all add: boot_bios_def procs.defs del: replicate.simps replicate_Suc)
  show "bio_ok (binit boot_bios)" "ring (bufs (binit boot_bios)) (rev [0..<NBUF])"
    "hset (binit boot_bios) = {}" "dset (binit boot_bios) = {}"
    by (rule binit_ok [OF b(1-3)])+
  show "blk (binit boot_bios) = (\<lambda>_. replicate BSIZE 0)"
    using binit_ok(3) [OF b(1-3)] b(4) by simp
qed

lemma boot_bios_size: "disksize (binit boot_bios) = FSSIZE"
proof -
  have "disksize (fold binit_buf bs s) = disksize s" for bs and s :: bios
    by (induction bs arbitrary: s) (simp_all add: binit_buf_frame)
  then show ?thesis by (simp add: binit_def Let_def boot_bios_def procs.defs)
qed

theorem buffer_cache_coherent_witness:
  "\<exists>i s1 s2 s3 j s4. bread 1 3 (binit boot_bios) = OK (i, s1) \<and>
     bwrite i (set_data i (replicate BSIZE 7) s1) = OK s2 \<and> brelse i s2 = OK s3 \<and>
     bread 1 3 s3 = OK (j, s4) \<and> b_data (buf_at s4 j) = replicate BSIZE 7"
  using buffer_cache_coherent [of "binit boot_bios" 3 3 "replicate BSIZE 7"]
    boot_bios_ok(1,4,5) boot_bios_size
  by simp blast

text \<open>
  Property C12. The links of the buffer ring implement least-recently-used replacement.  The ring
  stands for the list of buffers from most to least recently used; a miss takes the last free
  clean buffer of that list (and panics if there is none), and releasing a buffer moves it to the
  front.
\<close>

theorem bcache_replaces_lru:
  assumes "bio_ok s" and "ring (bufs s) mru" and "\<forall>i<NBUF. \<not> (b_dev (buf_at s i) = 1 \<and> b_blockno (buf_at s i) = b)"
    and "holds s k c"
  shows "bget 1 b s =
      (case find (\<lambda>i. b_refcnt (buf_at s i) = 0 \<and> \<not> b_dirty (buf_at s i)) (rev mru) of
         None \<Rightarrow> Panic ''bget: no buffers''
       | Some i \<Rightarrow> lock_buf i (upd_buf s i (\<lambda>p. p\<lparr>b_dev := 1, b_blockno := b, b_valid := False,
                     b_dirty := False, b_refcnt := 1\<rparr>))) \<and>
    (\<exists>s'. brelse k s = OK s' \<and> ring (bufs s') (k # remove1 k mru))"
proof -
  have "find (\<lambda>i. b_dev (buf_at s i) = 1 \<and> b_blockno (buf_at s i) = b) mru = None"
    using assms(2,3) by (auto simp: find_None_iff ring_def)
  then show ?thesis
    using scan_ring [OF assms(2)] brelse_ok [OF assms(1,4)] assms(2)
    by (auto simp: bget_def split: option.splits)
qed

theorem bcache_replaces_lru_witness:
  "\<exists>i s. bread 1 3 (binit boot_bios) = OK (i, s) \<and> (\<exists>mru s'. ring (bufs s) mru \<and>
     brelse i s = OK s' \<and> ring (bufs s') (i # remove1 i mru))"
proof -
  obtain i s where s: "bread 1 3 (binit boot_bios) = OK (i, s)" "bio_ok s" "holds s i 3"
    "hset s = {3}" "dset s = {}"
    using bread_ok [of "binit boot_bios" 3] boot_bios_ok boot_bios_size by (auto simp: bio_to_def)
  obtain mru where mru: "ring (bufs s) mru" using s(2) by (auto simp: bio_ok_def)
  have "\<exists>b. \<forall>j<NBUF. b_blockno (buf_at s j) \<noteq> b"
  proof -
    have "finite ((\<lambda>j. b_blockno (buf_at s j)) ` {..<NBUF})" by simp
    from ex_new_if_finite [OF infinite_UNIV_nat this] show ?thesis by (metis image_eqI lessThan_iff)
  qed
  then obtain b where "\<forall>j<NBUF. \<not> (b_dev (buf_at s j) = 1 \<and> b_blockno (buf_at s j) = b)" by blast
  from bcache_replaces_lru [OF s(2) mru this s(3)] s(1) mru show ?thesis by blast
qed

end
