(* ===== verification/Log.thy ===== *)
theory Log
  imports Bio
begin

text \<open>
  The superblock (fs.h, readsb of fs.c) and the redo log, log.c.  A transaction collects the numbers
  of the blocks it changed; the changed contents stay in the buffer cache, pinned by their dirty
  flags.  Commit copies them to the log area of the disk, writes the header block, which is the
  commit point, installs the blocks at their home locations and erases the header.  The lemmas
  follow the writes that reach the disk one by one, and recovery from any prefix of them.
\<close>

subsection \<open>The superblock\<close>

record superblock =
  sb_size :: nat        \<comment> \<open>size of file system image (blocks)\<close>
  sb_nblocks :: nat
  sb_ninodes :: nat
  sb_nlog :: nat
  sb_logstart :: nat
  sb_inodestart :: nat
  sb_bmapstart :: nat

definition sb_of_block :: "block \<Rightarrow> superblock" where
  "sb_of_block d = \<lparr>sb_size = unat (get32 d 0), sb_nblocks = unat (get32 d 4),
     sb_ninodes = unat (get32 d 8), sb_nlog = unat (get32 d 12), sb_logstart = unat (get32 d 16),
     sb_inodestart = unat (get32 d 20), sb_bmapstart = unat (get32 d 24)\<rparr>"

definition readsb :: "nat \<Rightarrow> 'z bios_scheme \<Rightarrow> (superblock \<times> 'z bios_scheme) kres" where
  "readsb dev s =
     kbind (bread dev 1 s) (\<lambda>(bp, s).
     let sb = sb_of_block (b_data (buf_at s bp))
     in kbind (brelse bp s) (\<lambda>s. OK (sb, s)))"

subsection \<open>State\<close>

record logs = bios +
  log_start :: nat
  log_size :: nat
  outstanding :: int       \<comment> \<open>how many FS sys calls are executing\<close>
  committing :: bool       \<comment> \<open>in commit(), please wait\<close>
  log_dev :: nat
  lh_n :: int
  lh_block :: "nat list"   \<comment> \<open>\<open>int block[LOGSIZE]\<close>\<close>

subsection \<open>Operations\<close>

text \<open>One round of the loop of install_trans: copy a log block to its home location.\<close>

definition install_block :: "nat \<Rightarrow> 'z logs_scheme \<Rightarrow> 'z logs_scheme kres" where
  "install_block tail s =
     (if tail \<ge> LOGSIZE then Stuck ''log.lh.block''
      else
        kbind (bread (log_dev s) (log_start s + tail + 1) s) (\<lambda>(lbuf, s).
        kbind (bread (log_dev s) (lh_block s ! tail) s) (\<lambda>(dbuf, s).
        kbind (bwrite dbuf (set_data dbuf (b_data (buf_at s lbuf)) s)) (\<lambda>s.
        kbind (brelse lbuf s) (\<lambda>s.
        brelse dbuf s)))))"

definition install_trans :: "'z logs_scheme \<Rightarrow> 'z logs_scheme kres" where
  "install_trans s = kfor install_block [0..<nat (lh_n s)] s"

definition read_head :: "'z logs_scheme \<Rightarrow> 'z logs_scheme kres" where
  "read_head s =
     kbind (bread (log_dev s) (log_start s) s) (\<lambda>(buf, s).
     let lh = b_data (buf_at s buf);
         n = sint (get32 lh 0)
     in if n > int LOGSIZE then Stuck ''log.lh.block''
        else
          let s = s\<lparr>lh_n := n\<rparr>;
              s = s\<lparr>lh_block := overwrite (lh_block s) 0 (map (\<lambda>i. unat (get32 lh (4 + 4 * i))) [0..<nat n])\<rparr>
          in brelse buf s)"

text \<open>The stores of write_head into the header block.\<close>

definition put_head :: "int \<Rightarrow> nat list \<Rightarrow> block \<Rightarrow> block" where
  "put_head n bs d =
     fold (\<lambda>i hb. put32 hb (4 + 4 * i) (word_of_nat (bs ! i))) [0..<nat n] (put32 d 0 (word_of_int n))"

definition write_head :: "'z logs_scheme \<Rightarrow> 'z logs_scheme kres" where
  "write_head s =
     kbind (bread (log_dev s) (log_start s) s) (\<lambda>(buf, s).
     if lh_n s > int LOGSIZE then Stuck ''log.lh.block''
     else
       let s = set_data buf (put_head (lh_n s) (lh_block s) (b_data (buf_at s buf))) s
       in kbind (bwrite buf s) (brelse buf))"

definition recover_from_log :: "'z logs_scheme \<Rightarrow> 'z logs_scheme kres" where
  "recover_from_log s =
     kbind (read_head s) (\<lambda>s.
     kbind (install_trans s) (\<lambda>s.
     write_head (s\<lparr>lh_n := 0\<rparr>)))"

definition initlog :: "nat \<Rightarrow> 'z logs_scheme \<Rightarrow> 'z logs_scheme kres" where
  "initlog dev s =
     (if 4 + 4 * LOGSIZE \<ge> BSIZE then Panic ''initlog: too big logheader''
      else
        kbind (readsb dev s) (\<lambda>(sb, s).
        recover_from_log (s\<lparr>log_start := sb_logstart sb, log_size := sb_nlog sb, log_dev := dev\<rparr>)))"

definition begin_op :: "'z logs_scheme \<Rightarrow> 'z logs_scheme kres" where
  "begin_op s =
     (if committing s then Sleep ChLog
      else if lh_n s + (outstanding s + 1) * int MAXOPBLOCKS > int LOGSIZE then Sleep ChLog
      else OK (s\<lparr>outstanding := outstanding s + 1\<rparr>))"

text \<open>One round of the loop of write_log: copy a cached block to the log.\<close>

definition log_block :: "nat \<Rightarrow> 'z logs_scheme \<Rightarrow> 'z logs_scheme kres" where
  "log_block tail s =
     (if tail \<ge> LOGSIZE then Stuck ''log.lh.block''
      else
        kbind (bread (log_dev s) (log_start s + tail + 1) s) (\<lambda>(to, s).
        kbind (bread (log_dev s) (lh_block s ! tail) s) (\<lambda>(from, s).
        kbind (bwrite to (set_data to (b_data (buf_at s from)) s)) (\<lambda>s.
        kbind (brelse from s) (\<lambda>s.
        brelse to s)))))"

definition write_log :: "'z logs_scheme \<Rightarrow> 'z logs_scheme kres" where
  "write_log s = kfor log_block [0..<nat (lh_n s)] s"

definition commit :: "'z logs_scheme \<Rightarrow> 'z logs_scheme kres" where
  "commit s =
     (if lh_n s > 0 then
        kbind (write_log s) (\<lambda>s.
        kbind (write_head s) (\<lambda>s.
        kbind (install_trans s) (\<lambda>s.
        write_head (s\<lparr>lh_n := 0\<rparr>))))
      else OK s)"

definition end_op :: "'z logs_scheme \<Rightarrow> 'z logs_scheme kres" where
  "end_op s =
     (let s = s\<lparr>outstanding := outstanding s - 1\<rparr>
      in if committing s then Panic ''log.committing''
         else if outstanding s = 0 then
           let s = s\<lparr>committing := True\<rparr>
           in kbind (commit s) (\<lambda>s.
              let s = s\<lparr>committing := False\<rparr>
              in OK (wakeup s ChLog))
         else OK (wakeup s ChLog))"

definition log_write :: "nat \<Rightarrow> 'z logs_scheme \<Rightarrow> 'z logs_scheme kres" where
  "log_write b s =
     (if lh_n s \<ge> int LOGSIZE \<or> lh_n s \<ge> int (log_size s) - 1 then Panic ''too big a transaction''
      else if outstanding s < 1 then Panic ''log_write outside of trans''
      else
        let n = nat (lh_n s);
            i = (case find_idx (\<lambda>x. x = b_blockno (buf_at s b)) (take n (lh_block s)) of
                   Some i \<Rightarrow> i | None \<Rightarrow> n);
            s = s\<lparr>lh_block := (lh_block s)[i := b_blockno (buf_at s b)]\<rparr>;
            s = (if i = n then s\<lparr>lh_n := lh_n s + 1\<rparr> else s)
        in OK (upd_buf s b (\<lambda>p. p\<lparr>b_dirty := True\<rparr>)))"

subsection \<open>The cache under the log\<close>

lemma blk_log_simps [simp]:
  "blk (s\<lparr>lh_n := n\<rparr>) = blk s" "blk (s\<lparr>lh_block := bs\<rparr>) = blk s"
  "blk (s\<lparr>outstanding := k\<rparr>) = blk s" "blk (s\<lparr>committing := c\<rparr>) = blk s"
  by (rule blk_cong; simp)+

lemma bio_log_simps [simp]:
  "bio_ok (s\<lparr>lh_n := n\<rparr>) = bio_ok s" "bio_ok (s\<lparr>lh_block := bs\<rparr>) = bio_ok s"
  "bio_ok (s\<lparr>outstanding := k\<rparr>) = bio_ok s" "bio_ok (s\<lparr>committing := c\<rparr>) = bio_ok s"
  "bset P (s\<lparr>lh_n := n\<rparr>) = bset P s" "bset P (s\<lparr>lh_block := bs\<rparr>) = bset P s"
  "bset P (s\<lparr>outstanding := k\<rparr>) = bset P s" "bset P (s\<lparr>committing := c\<rparr>) = bset P s"
  "holds (s\<lparr>lh_n := n\<rparr>) i b = holds s i b" "holds (s\<lparr>lh_block := bs\<rparr>) i b = holds s i b"
  by (simp_all add: bio_ok_def bset_def holds_def)

lemma bio_frame_logs:
  assumes "bio_frame s s'"
  shows "lh_n s' = lh_n s" and "lh_block s' = lh_block s" and "log_start s' = log_start s"
    and "log_size s' = log_size s" and "log_dev s' = log_dev s" and "outstanding s' = outstanding s"
    and "committing s' = committing s"
proof -
  let ?t = "s\<lparr>ptable := ptable s', bufs := bufs s', disk := disk s', dtrace := dtrace s'\<rparr>"
  have eq: "s' = ?t" using assms by (simp add: bio_frame_def)
  show "lh_n s' = lh_n s" by (subst eq) simp
  show "lh_block s' = lh_block s" by (subst eq) simp
  show "log_start s' = log_start s" by (subst eq) simp
  show "log_size s' = log_size s" by (subst eq) simp
  show "log_dev s' = log_dev s" by (subst eq) simp
  show "outstanding s' = outstanding s" by (subst eq) simp
  show "committing s' = committing s" by (subst eq) simp
qed

lemma bio_frame_upd_n:
  assumes "bio_frame s t"
  shows "bio_frame (s\<lparr>lh_n := n\<rparr>) (t\<lparr>lh_n := n\<rparr>)"
proof -
  have "t = s\<lparr>ptable := ptable t, bufs := bufs t, disk := disk t, dtrace := dtrace t\<rparr>"
    using assms by (simp add: bio_frame_def)
  from arg_cong [OF this, of "\<lambda>u. u\<lparr>lh_n := n\<rparr>"]
  have "t\<lparr>lh_n := n\<rparr> = s\<lparr>lh_n := n, ptable := ptable t, bufs := bufs t, disk := disk t, dtrace := dtrace t\<rparr>"
    by simp
  then show ?thesis using assms by (simp add: bio_frame_def)
qed

lemma bio_to_trans: "bio_to s t B H D K T \<Longrightarrow> bio_to t u B' H' D' K' T' \<Longrightarrow> bio_to s u B' H' D' K' T'"
  using bio_frame_trans by (auto simp: bio_to_def)

lemma bio_toD:
  assumes "bio_to s s' B H D K T"
  shows "bio_ok s'" and "bio_frame s s'" and "blk s' = B" and "hset s' = H" and "dset s' = D"
    and "disk s' = K" and "dtrace s' = T" and "disksize s' = disksize s"
  using assms bio_frame_simps(1) [of s s'] by (simp_all add: bio_to_def)

lemma read_two:
  assumes "bio_ok s" and "hset s = {}" and "a \<noteq> b" and "a < disksize s" and "b < disksize s"
    and "a \<in> dset s \<or> card (dset s) < NBUF" and "b \<in> dset s \<or> card (insert a (dset s)) < NBUF"
  shows "\<exists>x s1 y s2. bread 1 a s = OK (x, s1) \<and> bread 1 b s1 = OK (y, s2) \<and> bio_frame s s1 \<and>
    bio_to s s2 (blk s) {a, b} (dset s) (disk s) (dtrace s) \<and> holds s2 x a \<and> holds s2 y b"
proof -
  obtain x s1 where 1: "bread 1 a s = OK (x, s1)" "holds s1 x a"
    "bio_to s s1 (blk s) {a} (dset s) (disk s) (dtrace s)"
    using bread_ok [of s a] assms by auto
  note t1 = bio_toD [OF 1(3)]
  obtain y s2 where 2: "bread 1 b s1 = OK (y, s2)" "holds s2 y b" "\<forall>j c. holds s1 j c \<longrightarrow> holds s2 j c"
    "bio_to s1 s2 (blk s1) (insert b (hset s1)) (dset s1) (disk s1) (dtrace s1)"
    using bread_ok [OF t1(1), of b] assms(3,5,7) t1 by auto
  have "bio_to s s2 (blk s) {a, b} (dset s) (disk s) (dtrace s)"
    using bio_to_trans [OF 1(3) 2(4)] t1 by (simp add: insert_commute)
  with 1 2 t1(2) show ?thesis by blast
qed

lemma write_release:
  assumes "bio_ok s" and "hset s = {a, b}" and "a \<noteq> b" and "holds s x a" and "holds s y b" and "length d = BSIZE"
  shows "\<exists>s3 s4 s5. bwrite y (set_data y d s) = OK s3 \<and> brelse x s3 = OK s4 \<and> brelse y s4 = OK s5 \<and>
    bio_to s s5 ((blk s)(b := d)) {} (dset s - {b}) ((disk s)(b := d)) (dtrace s @ [(b, d)])"
proof -
  obtain s3 where 3: "bwrite y (set_data y d s) = OK s3" "\<forall>j c. holds s3 j c \<longleftrightarrow> holds s j c"
    "bio_to s s3 ((blk s)(b := d)) (hset s) (dset s - {b}) ((disk s)(b := d)) (dtrace s @ [(b, d)])"
    using bwrite_ok [OF assms(1,5,6)] by blast
  note t3 = bio_toD [OF 3(3)]
  have h3: "holds s3 x a" "holds s3 y b" using 3(2) assms(4,5) by simp_all
  obtain s4 where 4: "brelse x s3 = OK s4" "\<forall>j c. holds s3 j c \<and> c \<noteq> a \<longrightarrow> holds s4 j c"
    "bio_to s3 s4 (blk s3) (hset s3 - {a}) (dset s3) (disk s3) (dtrace s3)"
    using brelse_ok [OF t3(1) h3(1)] by blast
  note t4 = bio_toD [OF 4(3)]
  have h4: "holds s4 y b" using 4(2) h3(2) assms(3) by blast
  obtain s5 where 5: "brelse y s4 = OK s5"
    "bio_to s4 s5 (blk s4) (hset s4 - {b}) (dset s4) (disk s4) (dtrace s4)"
    using brelse_ok [OF t4(1) h4] by blast
  have "bio_to s s5 (blk s4) (hset s4 - {b}) (dset s4) (disk s4) (dtrace s4)"
    using bio_to_trans [OF 3(3) bio_to_trans [OF 4(3) 5(2)]] .
  moreover have "hset s4 - {b} = {}" using t3 t4 assms(2) by auto
  ultimately have "bio_to s s5 ((blk s)(b := d)) {} (dset s - {b}) ((disk s)(b := d)) (dtrace s @ [(b, d)])"
    using t3 t4 by metis
  then show ?thesis using 3(1) 4(1) 5(1) by blast
qed

lemma install_block_ok:
  assumes "bio_ok s" and "hset s = {}" and "log_dev s = 1" and "tail < LOGSIZE"
    and "log_start s + tail + 1 < disksize s" and "lh_block s ! tail < disksize s"
    and "lh_block s ! tail \<noteq> log_start s + tail + 1" and "card (dset s) < NBUF"
    and "lh_block s ! tail \<in> dset s \<or> card (insert (log_start s + tail + 1) (dset s)) < NBUF"
  defines "d \<equiv> blk s (log_start s + tail + 1)" and "b \<equiv> lh_block s ! tail"
  shows "\<exists>s'. install_block tail s = OK s' \<and>
    bio_to s s' ((blk s)(b := d)) {} (dset s - {b}) ((disk s)(b := d)) (dtrace s @ [(b, d)])"
proof -
  let ?a = "log_start s + tail + 1"
  obtain x s1 y s2 where 1: "bread 1 ?a s = OK (x, s1)" "bread 1 b s1 = OK (y, s2)" "bio_frame s s1"
    "bio_to s s2 (blk s) {?a, b} (dset s) (disk s) (dtrace s)" "holds s2 x ?a" "holds s2 y b"
    using read_two [of s ?a b] assms by (auto simp: b_def)
  note t = bio_toD [OF 1(4)]
  have dx: "b_data (buf_at s2 x) = d" using holds_data(1) [OF t(1) 1(5)] t(3) by (simp add: d_def)
  have ld: "length d = BSIZE" using length_blk [OF assms(1)] by (simp add: d_def)
  obtain s3 s4 s5 where 2: "bwrite y (set_data y d s2) = OK s3" "brelse x s3 = OK s4" "brelse y s4 = OK s5"
    "bio_to s2 s5 ((blk s2)(b := d)) {} (dset s2 - {b}) ((disk s2)(b := d)) (dtrace s2 @ [(b, d)])"
    using write_release [OF t(1) t(4) _ 1(5,6) ld] assms(7) by (auto simp: b_def)
  have "install_block tail s = OK s5"
    using 1 2 assms(3,4) dx bio_frame_logs [OF 1(3)] by (simp add: install_block_def b_def)
  then show ?thesis using bio_to_trans [OF 1(4) 2(4)] t by simp
qed

lemma log_block_ok:
  assumes "bio_ok s" and "hset s = {}" and "log_dev s = 1" and "tail < LOGSIZE"
    and "log_start s + tail + 1 < disksize s" and "lh_block s ! tail < disksize s"
    and "lh_block s ! tail \<noteq> log_start s + tail + 1" and "card (dset s) < NBUF"
    and "lh_block s ! tail \<in> dset s \<or> card (insert (log_start s + tail + 1) (dset s)) < NBUF"
  defines "d \<equiv> blk s (lh_block s ! tail)" and "a \<equiv> log_start s + tail + 1"
  shows "\<exists>s'. log_block tail s = OK s' \<and>
    bio_to s s' ((blk s)(a := d)) {} (dset s - {a}) ((disk s)(a := d)) (dtrace s @ [(a, d)])"
proof -
  let ?b = "lh_block s ! tail"
  obtain x s1 y s2 where 1: "bread 1 a s = OK (x, s1)" "bread 1 ?b s1 = OK (y, s2)" "bio_frame s s1"
    "bio_to s s2 (blk s) {a, ?b} (dset s) (disk s) (dtrace s)" "holds s2 x a" "holds s2 y ?b"
    using read_two [of s a ?b] assms by (auto simp: a_def)
  note t = bio_toD [OF 1(4)]
  have dx: "b_data (buf_at s2 y) = d" using holds_data(1) [OF t(1) 1(6)] t(3) by (simp add: d_def)
  have ld: "length d = BSIZE" using length_blk [OF assms(1)] by (simp add: d_def)
  have hs: "hset s2 = {?b, a}" using t(4) by auto
  obtain s3 s4 s5 where 2: "bwrite x (set_data x d s2) = OK s3" "brelse y s3 = OK s4" "brelse x s4 = OK s5"
    "bio_to s2 s5 ((blk s2)(a := d)) {} (dset s2 - {a}) ((disk s2)(a := d)) (dtrace s2 @ [(a, d)])"
    using write_release [OF t(1) hs _ 1(6,5) ld] assms(7) by (auto simp: a_def)
  have "log_block tail s = OK s5"
    using 1 2 assms(3,4) dx bio_frame_logs [OF 1(3)] by (simp add: log_block_def a_def)
  then show ?thesis using bio_to_trans [OF 1(4) 2(4)] t by simp
qed

subsection \<open>Sequences of block writes\<close>

definition apply_writes :: "(nat \<times> block) list \<Rightarrow> (nat \<Rightarrow> block) \<Rightarrow> nat \<Rightarrow> block" where
  "apply_writes ws f = fold (\<lambda>(b, d) f. f(b := d)) ws f"

lemma apply_writes_Nil [simp]: "apply_writes [] f = f"
  by (simp add: apply_writes_def)

lemma apply_writes_append: "apply_writes (ws @ vs) f = apply_writes vs (apply_writes ws f)"
  by (simp add: apply_writes_def)

lemma apply_writes_Cons [simp]: "apply_writes ((b, d) # ws) f = apply_writes ws (f(b := d))"
  by (simp add: apply_writes_def)

lemma apply_writes_other: "b \<notin> fst ` set ws \<Longrightarrow> apply_writes ws f b = f b"
proof (induction ws rule: rev_induct)
  case (snoc w ws)
  then show ?case by (cases w) (auto simp: apply_writes_append)
qed simp

lemma apply_writes_same:
  assumes "\<And>d'. (b, d') \<in> set ws \<Longrightarrow> d' = d" and "b \<in> fst ` set ws"
  shows "apply_writes ws f b = d"
  using assms
proof (induction ws rule: rev_induct)
  case (snoc w ws)
  show ?case
  proof (cases "fst w = b")
    case True
    then show ?thesis using snoc.prems(1) [of "snd w"] by (cases w) (auto simp: apply_writes_append)
  next
    case False
    then show ?thesis using snoc by (cases w) (auto simp: apply_writes_append)
  qed
qed simp

text \<open>
  Writing blocks \<open>bs\<close> with contents that depend only on the block: the written blocks have them,
  the others are unchanged.
\<close>

lemma apply_writes_map:
  "apply_writes (map (\<lambda>t. (bs ! t, g (bs ! t))) ts) f b = (if b \<in> (!) bs ` set ts then g b else f b)"
proof (cases "b \<in> (!) bs ` set ts")
  case True
  then show ?thesis by (auto intro!: apply_writes_same simp: image_iff)
next
  case False
  then have "b \<notin> fst ` set (map (\<lambda>t. (bs ! t, g (bs ! t))) ts)" by (auto simp: image_iff)
  then show ?thesis using False by (simp add: apply_writes_other)
qed

subsection \<open>The header block\<close>

lemma put_head_get:
  fixes w :: u32
  assumes "length d = BSIZE" and "k \<le> LOGSIZE" and "\<forall>i<k. bs ! i < 2 ^ 32"
  defines "h \<equiv> fold (\<lambda>i hb. put32 hb (4 + 4 * i) (word_of_nat (bs ! i))) [0..<k] (put32 d 0 w)"
  shows "length h = BSIZE \<and> get32 h 0 = w \<and> (\<forall>i<k. unat (get32 h (4 + 4 * i)) = bs ! i)"
  using assms(2,3) unfolding h_def
proof (induction k)
  case 0
  then show ?case using assms(1) by simp
next
  case (Suc k)
  define h where "h = fold (\<lambda>i hb. put32 hb (4 + 4 * i) (word_of_nat (bs ! i))) [0..<k] (put32 d 0 w)"
  have IH: "length h = BSIZE" "get32 h 0 = w" "\<forall>i<k. unat (get32 h (4 + 4 * i)) = bs ! i"
    using Suc unfolding h_def by auto
  have k: "4 + 4 * k + 4 \<le> BSIZE" using Suc.prems by simp
  let ?h = "put32 h (4 + 4 * k) (word_of_nat (bs ! k))"
  have l: "length ?h = BSIZE" using length_put32 [of "4 + 4 * k" h] k IH(1) by simp
  have w0: "get32 ?h 0 = w"
    using get32_put32_other [of "4 + 4 * k" h 0] k IH(1,2) by simp
  have "unat (get32 ?h (4 + 4 * i)) = bs ! i" if "i < Suc k" for i
  proof (cases "i = k")
    case True
    then show ?thesis
      using get32_put32 [of "4 + 4 * k" h] k IH(1) Suc.prems by (simp add: unat_of_nat)
  next
    case False
    then show ?thesis
      using get32_put32_other [of "4 + 4 * k" h "4 + 4 * i"] k IH(1,3) that by simp
  qed
  with l w0 show ?case by (simp add: h_def [symmetric])
qed

lemma put_head:
  assumes "length d = BSIZE" and "0 \<le> n" and "n \<le> int LOGSIZE" and "\<forall>i<nat n. bs ! i < 2 ^ 32"
  shows "length (put_head n bs d) = BSIZE" and "sint (get32 (put_head n bs d) 0) = n"
    and "i < nat n \<Longrightarrow> unat (get32 (put_head n bs d) (4 + 4 * i)) = bs ! i"
proof -
  have "sint (word_of_int n :: u32) = n"
    using assms(2,3) by (simp add: sint_sbintrunc' signed_take_bit_int_eq_self)
  then show "length (put_head n bs d) = BSIZE" "sint (get32 (put_head n bs d) 0) = n"
    "i < nat n \<Longrightarrow> unat (get32 (put_head n bs d) (4 + 4 * i)) = bs ! i"
    using put_head_get [OF assms(1), of "nat n" bs "word_of_int n"] assms(2-4) by (auto simp: put_head_def)
qed

lemma write_head_ok:
  assumes "bio_ok s" and "hset s = {}" and "log_dev s = 1" and "log_start s < disksize s"
    and "card (dset s) < NBUF" and "log_start s \<notin> dset s" and "0 \<le> lh_n s" and "lh_n s \<le> int LOGSIZE"
    and "\<forall>i<nat (lh_n s). lh_block s ! i < 2 ^ 32"
  defines "h \<equiv> put_head (lh_n s) (lh_block s) (blk s (log_start s))" and "a \<equiv> log_start s"
  shows "\<exists>s'. write_head s = OK s' \<and>
    bio_to s s' ((blk s)(a := h)) {} (dset s) ((disk s)(a := h)) (dtrace s @ [(a, h)])"
proof -
  obtain x s1 where 1: "bread 1 a s = OK (x, s1)" "holds s1 x a"
    "bio_to s s1 (blk s) {a} (dset s) (disk s) (dtrace s)"
    using bread_ok [of s a] assms by (auto simp: a_def)
  note t1 = bio_toD [OF 1(3)]
  note f1 = bio_frame_logs [OF t1(2)]
  have dx: "b_data (buf_at s1 x) = blk s a" using holds_data(1) [OF t1(1) 1(2)] t1(3) by simp
  have lh: "length h = BSIZE" unfolding h_def using assms length_blk [OF assms(1)] by (intro put_head(1)) auto
  obtain s2 where 2: "bwrite x (set_data x h s1) = OK s2" "\<forall>j c. holds s2 j c \<longleftrightarrow> holds s1 j c"
    "bio_to s1 s2 ((blk s1)(a := h)) (hset s1) (dset s1 - {a}) ((disk s1)(a := h)) (dtrace s1 @ [(a, h)])"
    using bwrite_ok [OF t1(1) 1(2) lh] by blast
  note t2 = bio_toD [OF 2(3)]
  have h2: "holds s2 x a" using 2(2) 1(2) by simp
  obtain s3 where 3: "brelse x s2 = OK s3"
    "bio_to s2 s3 (blk s2) (hset s2 - {a}) (dset s2) (disk s2) (dtrace s2)"
    using brelse_ok [OF t2(1) h2] by blast
  have "bio_to s s3 (blk s2) (hset s2 - {a}) (dset s2) (disk s2) (dtrace s2)"
    using bio_to_trans [OF 1(3) bio_to_trans [OF 2(3) 3(2)]] .
  moreover have "hset s2 - {a} = {}" "dset s2 = dset s" using t1 t2 assms(6) by (auto simp: a_def)
  ultimately have "bio_to s s3 ((blk s)(a := h)) {} (dset s) ((disk s)(a := h)) (dtrace s @ [(a, h)])"
    using t1 t2 by simp
  moreover have "write_head s = OK s3"
    using 1(1) 2(1) 3(1) assms(3,8) dx f1
    by (simp add: write_head_def Let_def a_def h_def)
  ultimately show ?thesis by blast
qed

subsection \<open>The log invariant\<close>

definition logged :: "'z logs_scheme \<Rightarrow> nat list" where
  "logged s = take (nat (lh_n s)) (lh_block s)"

definition log_area :: "'z logs_scheme \<Rightarrow> nat set" where
  "log_area s = {log_start s ..< log_start s + log_size s}"

text \<open>
  The shape of the log: the blocks of the transaction are distinct, lie outside the log area and
  fit into it, and fewer than all the buffers are needed to hold them.
\<close>

definition log_shape :: "'z logs_scheme \<Rightarrow> bool" where
  "log_shape s \<longleftrightarrow> log_dev s = 1 \<and> length (lh_block s) = LOGSIZE \<and>
     0 \<le> lh_n s \<and> lh_n s < int (log_size s) \<and> log_size s \<le> LOGSIZE \<and>
     log_start s + log_size s \<le> disksize s \<and> disksize s < 2 ^ 32 \<and>
     distinct (logged s) \<and> (\<forall>b \<in> set (logged s). b < disksize s \<and> b \<notin> log_area s)"

definition log_ok :: "'z logs_scheme \<Rightarrow> bool" where
  "log_ok s \<longleftrightarrow> bio_ok s \<and> log_shape s \<and> dset s \<subseteq> set (logged s) \<and>
     sint (get32 (disk s (log_start s)) 0) = 0"

lemma log_shape_nth:
  assumes "log_shape s" and "t < nat (lh_n s)"
  shows "lh_block s ! t \<in> set (logged s)" and "lh_block s ! t < disksize s" and "lh_block s ! t \<notin> log_area s"
    and "t < LOGSIZE" and "log_start s + t + 1 \<in> log_area s" and "log_start s + t + 1 < disksize s"
proof -
  have l: "t < length (logged s)" "logged s ! t = lh_block s ! t"
    using assms by (auto simp: log_shape_def logged_def)
  then show m: "lh_block s ! t \<in> set (logged s)" using nth_mem by metis
  show "lh_block s ! t < disksize s" "lh_block s ! t \<notin> log_area s"
    using m assms(1) by (auto simp: log_shape_def)
  show "t < LOGSIZE" "log_start s + t + 1 \<in> log_area s" "log_start s + t + 1 < disksize s"
    using assms by (auto simp: log_shape_def log_area_def)
qed

lemma log_shape_inj:
  assumes "log_shape s" and "t < nat (lh_n s)" and "u < nat (lh_n s)" and "lh_block s ! t = lh_block s ! u"
  shows "t = u"
proof -
  have "t < length (logged s)" "u < length (logged s)" "logged s ! t = logged s ! u" "distinct (logged s)"
    using assms by (auto simp: log_shape_def logged_def)
  then show ?thesis by (simp add: nth_eq_iff_index_eq)
qed

text \<open>There is a buffer left for each read of the commit.\<close>

lemma log_room:
  assumes "log_shape s" and "D \<subseteq> set (logged s)"
  shows "card D < NBUF" and "b \<in> set (logged s) \<Longrightarrow> b \<in> D \<or> card (insert a D) < NBUF"
proof -
  have "nat (lh_n s) < NBUF" using assms(1) by (auto simp: log_shape_def)
  then have n: "length (logged s) < NBUF" by (simp add: logged_def)
  have c: "card (set (logged s)) < NBUF" using n card_length [of "logged s"] by linarith
  have fin: "finite D" using assms(2) finite_subset by blast
  show "card D < NBUF" using c card_mono [OF _ assms(2)] by simp
  show "b \<in> D \<or> card (insert a D) < NBUF" if b: "b \<in> set (logged s)"
  proof (cases "b \<in> D")
    case False
    then have "card D < card (set (logged s))"
      using assms(2) b by (intro psubset_card_mono) auto
    then show ?thesis using c card_insert_le_m1 [of NBUF D a] fin by (simp add: card_insert_if)
  qed simp
qed

lemma write_log_loop:
  assumes sh: "log_shape s" and ok: "bio_ok s" "hset s = {}" "dset s \<subseteq> set (logged s)" and k: "k \<le> nat (lh_n s)"
  defines "W \<equiv> \<lambda>k. map (\<lambda>t. (log_start s + t + 1, blk s (lh_block s ! t))) [0..<k]"
  shows "\<exists>s'. kfor log_block [0..<k] s = OK s' \<and>
    bio_to s s' (apply_writes (W k) (blk s)) {} (dset s) (apply_writes (W k) (disk s)) (dtrace s @ W k)"
  using k
proof (induction k)
  case 0
  then show ?case using ok by (simp add: W_def bio_to_def)
next
  case (Suc k)
  then obtain s' where IH: "kfor log_block [0..<k] s = OK s'"
    "bio_to s s' (apply_writes (W k) (blk s)) {} (dset s) (apply_writes (W k) (disk s)) (dtrace s @ W k)"
    by auto
  note t = bio_toD [OF IH(2)]
  note f = bio_frame_logs [OF t(2)]
  have k: "k < nat (lh_n s)" using Suc.prems by simp
  note g = log_shape_nth [OF sh k]
  let ?a = "log_start s + k + 1" and ?b = "lh_block s ! k"
  have neq: "?b \<noteq> ?a" using g(3,5) by auto
  have na: "?a \<notin> dset s" using ok(3) sh g(5) by (auto simp: log_shape_def)
  have "?b \<notin> fst ` set (W k)"
    using g(3) k sh by (auto simp: W_def log_area_def log_shape_def)
  then have d: "blk s' ?b = blk s ?b" using t(3) by (simp add: apply_writes_other)
  obtain s'' where s'': "log_block k s' = OK s''"
    "bio_to s' s'' ((blk s')(?a := blk s' ?b)) {} (dset s' - {?a}) ((disk s')(?a := blk s' ?b))
       (dtrace s' @ [(?a, blk s' ?b)])"
    using log_block_ok [OF t(1,4), of k] g neq f t(5,8) log_room [OF sh ok(3)] sh
    by (auto simp: log_shape_def)
  have "kfor log_block [0..<Suc k] s = OK s''" using IH(1) s''(1) by (simp add: kfor_append)
  moreover have "bio_to s s'' (apply_writes (W (Suc k)) (blk s)) {} (dset s) (apply_writes (W (Suc k)) (disk s))
      (dtrace s @ W (Suc k))"
    using bio_to_trans [OF IH(2) s''(2)] t na d by (simp add: W_def apply_writes_append)
  ultimately show ?case by blast
qed

lemma install_loop:
  assumes sh: "log_shape s" and ok: "bio_ok s" "hset s = {}" "dset s \<subseteq> set (logged s)" and k: "k \<le> nat (lh_n s)"
  defines "W \<equiv> \<lambda>k. map (\<lambda>t. (lh_block s ! t, blk s (log_start s + t + 1))) [0..<k]"
  shows "\<exists>s'. kfor install_block [0..<k] s = OK s' \<and>
    bio_to s s' (apply_writes (W k) (blk s)) {} (dset s - (!) (lh_block s) ` {..<k})
      (apply_writes (W k) (disk s)) (dtrace s @ W k)"
  using k
proof (induction k)
  case 0
  then show ?case using ok by (simp add: W_def bio_to_def)
next
  case (Suc k)
  then obtain s' where IH: "kfor install_block [0..<k] s = OK s'"
    "bio_to s s' (apply_writes (W k) (blk s)) {} (dset s - (!) (lh_block s) ` {..<k})
       (apply_writes (W k) (disk s)) (dtrace s @ W k)"
    by auto
  note t = bio_toD [OF IH(2)]
  note f = bio_frame_logs [OF t(2)]
  have k: "k < nat (lh_n s)" using Suc.prems by simp
  note g = log_shape_nth [OF sh k]
  let ?a = "log_start s + k + 1" and ?b = "lh_block s ! k"
  have neq: "?b \<noteq> ?a" using g(3,5) by auto
  have "?a \<notin> fst ` set (W k)"
  proof
    assume "?a \<in> fst ` set (W k)"
    then obtain t where "t < k" "?a = lh_block s ! t" by (auto simp: W_def)
    then show False using log_shape_nth(3) [OF sh, of t] g(5) k by simp
  qed
  then have d: "blk s' ?a = blk s ?a" using t(3) by (simp add: apply_writes_other)
  have D: "dset s' \<subseteq> set (logged s)" using t(5) ok(3) by auto
  obtain s'' where s'': "install_block k s' = OK s''"
    "bio_to s' s'' ((blk s')(?b := blk s' ?a)) {} (dset s' - {?b}) ((disk s')(?b := blk s' ?a))
       (dtrace s' @ [(?b, blk s' ?a)])"
    using install_block_ok [OF t(1,4), of k] g neq f t(8) log_room [OF sh D] sh
    by (auto simp: log_shape_def)
  have "kfor install_block [0..<Suc k] s = OK s''" using IH(1) s''(1) by (simp add: kfor_append)
  moreover have D': "dset s' - {?b} = dset s - (!) (lh_block s) ` {..<Suc k}"
    using t(5) by (auto simp: lessThan_Suc)
  have "bio_to s s'' (apply_writes (W (Suc k)) (blk s)) {} (dset s - (!) (lh_block s) ` {..<Suc k})
      (apply_writes (W (Suc k)) (disk s)) (dtrace s @ W (Suc k))"
    using bio_to_trans [OF IH(2) s''(2)] t(3,6,7) d unfolding D' by (simp add: W_def apply_writes_append)
  ultimately show ?case by blast
qed

subsection \<open>Commit\<close>

text \<open>The writes of a commit, in order.\<close>

definition commit_writes :: "'z logs_scheme \<Rightarrow> (nat \<times> block) list" where
  "commit_writes s =
     (let n = nat (lh_n s); bs = lh_block s; a = log_start s;
          h = put_head (lh_n s) bs (blk s a)
      in map (\<lambda>t. (a + t + 1, blk s (bs ! t))) [0..<n] @ [(a, h)] @
         map (\<lambda>t. (bs ! t, blk s (bs ! t))) [0..<n] @ [(a, put_head 0 bs h)])"

lemma logged_image: "log_shape s \<Longrightarrow> (!) (lh_block s) ` {..<nat (lh_n s)} = set (logged s)"
proof -
  assume "log_shape s"
  then have "nat (lh_n s) \<le> length (lh_block s)" by (auto simp: log_shape_def)
  from nth_image [OF this] show ?thesis by (simp add: logged_def lessThan_atLeast0)
qed

lemma log_shape_cong:
  "log_dev s' = log_dev s \<Longrightarrow> lh_block s' = lh_block s \<Longrightarrow> lh_n s' = lh_n s \<Longrightarrow> log_size s' = log_size s \<Longrightarrow>
   log_start s' = log_start s \<Longrightarrow> disksize s' = disksize s \<Longrightarrow> log_shape s' = log_shape s"
  by (simp add: log_shape_def logged_def log_area_def)

lemma log_shape_frame:
  assumes "bio_frame s s'"
  shows "log_shape s' = log_shape s" and "logged s' = logged s" and "log_area s' = log_area s"
proof -
  note f = bio_frame_logs [OF assms] bio_frame_simps(1) [OF assms]
  show "log_shape s' = log_shape s" by (rule log_shape_cong) (simp_all add: f)
  show "logged s' = logged s" "log_area s' = log_area s" by (simp_all add: f logged_def log_area_def)
qed

lemma log_shape_blocks: "log_shape s \<Longrightarrow> t < nat (lh_n s) \<Longrightarrow> lh_block s ! t < 2 ^ 32"
  using log_shape_nth(2) [of s t] by (simp add: log_shape_def)

lemma log_start_area: "log_shape s \<Longrightarrow> log_start s \<in> log_area s \<and> log_start s < disksize s"
  by (auto simp: log_shape_def log_area_def)

lemma commit_ok:
  assumes ok: "log_ok s" and held: "hset s = {}" and n: "lh_n s > 0"
  shows "\<exists>s'. commit s = OK s' \<and> bio_ok s' \<and> bio_frame (s\<lparr>lh_n := 0\<rparr>) s' \<and> hset s' = {} \<and> dset s' = {} \<and>
    blk s' = apply_writes (commit_writes s) (blk s) \<and> disk s' = apply_writes (commit_writes s) (disk s) \<and>
    dtrace s' = dtrace s @ commit_writes s"
proof -
  have sh: "log_shape s" and bo: "bio_ok s" and D: "dset s \<subseteq> set (logged s)"
    using ok by (simp_all add: log_ok_def)
  let ?n = "nat (lh_n s)" and ?bs = "lh_block s" and ?a = "log_start s"
  have start: "?a \<in> log_area s" "?a < disksize s" using log_start_area [OF sh] by auto
  have nstart: "?a \<notin> set (logged s)" using start sh by (auto simp: log_shape_def)
  define W1 where "W1 = map (\<lambda>t. (?a + t + 1, blk s (?bs ! t))) [0..<?n]"
  define h1 where "h1 = put_head (lh_n s) ?bs (blk s ?a)"
  define W2 where "W2 = map (\<lambda>t. (?bs ! t, blk s (?bs ! t))) [0..<?n]"
  define h0 where "h0 = put_head 0 ?bs h1"
  obtain s1 where 1: "write_log s = OK s1"
    "bio_to s s1 (apply_writes W1 (blk s)) {} (dset s) (apply_writes W1 (disk s)) (dtrace s @ W1)"
    using write_log_loop [OF sh bo held D order_refl] by (auto simp: write_log_def W1_def)
  note t1 = bio_toD [OF 1(2)] and f1 = bio_frame_logs [OF bio_toD(2) [OF 1(2)]]
  have aW1: "?a \<notin> fst ` set W1" by (auto simp: W1_def)
  have b1: "blk s1 ?a = blk s ?a" using t1(3) aW1 by (simp add: apply_writes_other)
  obtain s2 where 2: "write_head s1 = OK s2"
    "bio_to s1 s2 ((blk s1)(?a := h1)) {} (dset s1) ((disk s1)(?a := h1)) (dtrace s1 @ [(?a, h1)])"
    using write_head_ok [OF t1(1,4)] sh f1 t1(5,8) start nstart D log_room(1) [OF sh D] b1 log_shape_blocks [OF sh] n
    by (auto simp: log_shape_def h1_def)
  note t2 = bio_toD [OF 2(2)] and f2 = bio_frame_logs [OF bio_toD(2) [OF 2(2)]]
  have fr2: "bio_frame s s2" using bio_frame_trans [OF t1(2) t2(2)] .
  note sh2 = log_shape_frame [OF fr2]
  have d2: "dset s2 \<subseteq> set (logged s2)" "log_shape s2" using t1(5) t2(5) D sh2 sh by auto
  have v2: "blk s2 (?a + t + 1) = blk s (?bs ! t)" if "t < ?n" for t
  proof -
    have "blk s2 (?a + t + 1) = apply_writes W1 (blk s) (?a + t + 1)" using t2(3) t1(3) by simp
    also have "\<dots> = blk s (?bs ! t)"
      by (rule apply_writes_same) (use that in \<open>auto simp: W1_def image_iff\<close>)
    finally show ?thesis .
  qed
  have W2: "map (\<lambda>t. (lh_block s2 ! t, blk s2 (log_start s2 + t + 1))) [0..<nat (lh_n s2)] = W2"
    using v2 f1 f2 by (simp add: W2_def)
  obtain s3 where 3: "install_trans s2 = OK s3"
    "bio_to s2 s3 (apply_writes W2 (blk s2)) {} (dset s2 - set (logged s2)) (apply_writes W2 (disk s2)) (dtrace s2 @ W2)"
    using install_loop [OF d2(2) t2(1,4) d2(1) order_refl] W2 logged_image [OF d2(2)] by (auto simp: install_trans_def)
  note t3 = bio_toD [OF 3(2)] and f3 = bio_frame_logs [OF bio_toD(2) [OF 3(2)]]
  have ds3: "dset s3 = {}" using t3(5) d2(1) by auto
  have aW2: "?a \<notin> fst ` set W2"
    using nstart log_shape_nth(1) [OF sh] by (auto simp: W2_def)
  have b3: "blk s3 ?a = h1" using t3(3) t2(3) aW2 by (simp add: apply_writes_other)
  let ?s3 = "s3\<lparr>lh_n := 0\<rparr>"
  have logs3: "log_dev ?s3 = 1" "log_start ?s3 = ?a" "lh_block ?s3 = ?bs" "?a < disksize s3"
    using f1 f2 f3 sh start t3(8) t2(8) t1(8) by (simp_all add: log_shape_def)
  obtain s4 where 4: "write_head ?s3 = OK s4"
    "bio_to ?s3 s4 ((blk s3)(?a := h0)) {} {} ((disk s3)(?a := h0)) (dtrace s3 @ [(?a, h0)])"
    using write_head_ok [of ?s3] t3(1,4) logs3 ds3 b3 by (auto simp: h0_def)
  note t4 = bio_toD [OF 4(2)]
  have fr: "bio_frame (s\<lparr>lh_n := 0\<rparr>) s4"
  proof -
    have "bio_frame s s3" using bio_frame_trans [OF fr2 t3(2)] .
    then have "bio_frame (s\<lparr>lh_n := 0\<rparr>) ?s3" by (rule bio_frame_upd_n)
    then show ?thesis using t4(2) bio_frame_trans by blast
  qed
  have "commit s = OK s4" using n 1 2 3 4 by (simp add: commit_def)
  moreover have cw: "commit_writes s = W1 @ [(?a, h1)] @ W2 @ [(?a, h0)]"
    by (simp add: commit_writes_def Let_def W1_def W2_def h1_def h0_def)
  ultimately show ?thesis
    using t4 fr t3(3,6,7) t2(3,6,7) t1(3,6,7)
    by (intro exI [of _ s4]) (simp add: cw apply_writes_append)
qed

subsection \<open>Recovery\<close>

text \<open>A state just after boot: nothing is cached, and the log header on the disk is sound.\<close>

definition head_blocks :: "block \<Rightarrow> nat list" where
  "head_blocks d = map (\<lambda>i. unat (get32 d (4 + 4 * i))) [0..<nat (sint (get32 d 0))]"

definition log_boot :: "'z logs_scheme \<Rightarrow> bool" where
  "log_boot r \<longleftrightarrow> bio_ok r \<and> hset r = {} \<and> dset r = {} \<and> log_dev r = 1 \<and> length (lh_block r) = LOGSIZE \<and>
     0 < log_size r \<and> log_size r \<le> LOGSIZE \<and> log_start r + log_size r \<le> disksize r \<and> disksize r < 2 ^ 32"

definition head_ok :: "'z logs_scheme \<Rightarrow> block \<Rightarrow> bool" where
  "head_ok r d \<longleftrightarrow> 0 \<le> sint (get32 d 0) \<and> sint (get32 d 0) < int (log_size r) \<and> distinct (head_blocks d) \<and>
     (\<forall>b \<in> set (head_blocks d). b < disksize r \<and> b \<notin> log_area r)"

lemma blk_boot: "log_boot r \<Longrightarrow> blk r = disk r"
  by (rule ext) (simp add: log_boot_def blk_clean)

lemma read_head_ok:
  assumes boot: "log_boot r" and h: "head_ok r (disk r (log_start r))"
  shows "\<exists>s. read_head r = OK s \<and> log_shape s \<and> logged s = head_blocks (disk r (log_start r)) \<and>
    bio_ok s \<and> hset s = {} \<and> dset s = {} \<and> blk s = blk r \<and> disk s = disk r \<and> dtrace s = dtrace r \<and>
    log_start s = log_start r \<and> log_size s = log_size r \<and> disksize s = disksize r"
proof -
  let ?a = "log_start r" and ?d = "disk r (log_start r)"
  let ?n = "sint (get32 ?d 0)"
  let ?bs = "overwrite (lh_block r) 0 (head_blocks ?d)"
  obtain x s1 where 1: "bread 1 ?a r = OK (x, s1)" "holds s1 x ?a"
    "bio_to r s1 (blk r) {?a} {} (disk r) (dtrace r)"
    using bread_ok [of r ?a] boot by (auto simp: log_boot_def)
  note t1 = bio_toD [OF 1(3)] and f1 = bio_frame_logs [OF bio_toD(2) [OF 1(3)]]
  have dx: "b_data (buf_at s1 x) = ?d" using holds_data(1) [OF t1(1) 1(2)] t1(3) blk_boot [OF boot] by simp
  let ?s1 = "s1\<lparr>lh_n := ?n, lh_block := ?bs\<rparr>"
  have ok1: "bio_ok ?s1" "holds ?s1 x ?a" using t1(1) 1(2) by simp_all
  obtain s2 where 2: "brelse x ?s1 = OK s2"
    "bio_to ?s1 s2 (blk ?s1) (hset ?s1 - {?a}) (dset ?s1) (disk ?s1) (dtrace ?s1)"
    using brelse_ok [OF ok1] by blast
  note t2 = bio_toD [OF 2(2)] and f2 = bio_frame_logs [OF bio_toD(2) [OF 2(2)]]
  have le: "?n \<le> int LOGSIZE" "nat ?n \<le> LOGSIZE" using boot h by (auto simp: log_boot_def head_ok_def)
  have "read_head r = OK s2"
    using 1(1) 2(1) dx le(1) boot f1 by (simp add: read_head_def Let_def log_boot_def head_blocks_def)
  moreover have lg: "take (nat ?n) ?bs = head_blocks ?d"
    by (simp add: overwrite_def head_blocks_def)
  have "length ?bs = LOGSIZE"
    using boot le(2) by (subst length_overwrite) (auto simp: log_boot_def head_blocks_def)
  then have "log_shape s2" "logged s2 = head_blocks ?d"
    using boot h lg f1 f2 t1(8) t2(8)
    by (simp_all add: log_shape_def log_boot_def head_ok_def logged_def log_area_def)
  ultimately show ?thesis using t1 t2 f1 f2 by simp
qed

lemma recover_ok:
  assumes boot: "log_boot r" and h: "head_ok r (disk r (log_start r))"
  defines "bs \<equiv> head_blocks (disk r (log_start r))"
  shows "\<exists>r' h0. recover_from_log r = OK r' \<and> log_ok r' \<and> lh_n r' = 0 \<and> log_area r' = log_area r \<and>
    disk r' = apply_writes (map (\<lambda>t. (bs ! t, disk r (log_start r + t + 1))) [0..<length bs] @ [(log_start r, h0)]) (disk r)"
proof -
  let ?a = "log_start r"
  obtain s where s: "read_head r = OK s" "log_shape s" "logged s = bs" "bio_ok s" "hset s = {}" "dset s = {}"
    "blk s = blk r" "disk s = disk r" "dtrace s = dtrace r" "log_start s = ?a" "log_size s = log_size r" "disksize s = disksize r"
    using read_head_ok [OF boot h] by (auto simp: bs_def)
  define W where "W = map (\<lambda>t. (lh_block s ! t, blk s (log_start s + t + 1))) [0..<nat (lh_n s)]"
  have ds: "dset s \<subseteq> set (logged s)" using s(6) by simp
  obtain s1 where 1: "install_trans s = OK s1"
    "bio_to s s1 (apply_writes W (blk s)) {} {} (apply_writes W (disk s)) (dtrace s @ W)"
    using install_loop [OF s(2,4,5) ds order_refl] s(6) by (auto simp: install_trans_def W_def)
  note t1 = bio_toD [OF 1(2)] and f1 = bio_frame_logs [OF bio_toD(2) [OF 1(2)]]
  let ?s1 = "s1\<lparr>lh_n := 0\<rparr>"
  define h0 where "h0 = put_head 0 (lh_block s) (blk s1 ?a)"
  have a: "?a < disksize s" "?a \<in> log_area s" using log_start_area [OF s(2)] s(10) by auto
  obtain s2 where 2: "write_head ?s1 = OK s2"
    "bio_to ?s1 s2 ((blk s1)(?a := h0)) {} {} ((disk s1)(?a := h0)) (dtrace s1 @ [(?a, h0)])"
    using write_head_ok [of ?s1] t1 f1 s a by (auto simp: log_shape_def h0_def)
  note t2 = bio_toD [OF 2(2)] and f2 = bio_frame_logs [OF bio_toD(2) [OF 2(2)]]
  have "recover_from_log r = OK s2" using s(1) 1(1) 2(1) by (simp add: recover_from_log_def)
  moreover have n: "length bs = nat (lh_n s)" "\<And>t. t < nat (lh_n s) \<Longrightarrow> bs ! t = lh_block s ! t"
    using s(2,3) by (auto simp: logged_def log_shape_def)
  then have "W = map (\<lambda>t. (bs ! t, disk r (?a + t + 1))) [0..<length bs]"
    using s(7,10) blk_boot [OF boot] by (simp add: W_def)
  moreover have "log_ok s2"
  proof -
    have "sint (get32 h0 0) = 0" unfolding h0_def using length_blk [OF t1(1)] by (intro put_head(2)) auto
    moreover have "log_shape s2" "logged s2 = []"
      using f1 f2 s(2) t1(8) t2(8) by (simp_all add: log_shape_def logged_def)
    ultimately show ?thesis using t2 f2 f1 s(10) by (simp add: log_ok_def)
  qed
  moreover have "log_area s2 = log_area r" using f1 f2 s(10,11) by (simp add: log_area_def)
  ultimately show ?thesis
    using t2(6) t1(6) s(8) f2 by (intro exI [of _ s2] exI [of _ h0]) (simp add: apply_writes_append)
qed

subsection \<open>Crashes during a commit\<close>

lemma head_blocks_put:
  assumes "log_shape s" and "length d = BSIZE"
  shows "head_blocks (put_head (lh_n s) (lh_block s) d) = logged s"
    and "head_ok s (put_head (lh_n s) (lh_block s) d)"
    and "head_blocks (put_head 0 (lh_block s) d) = []" and "head_ok s (put_head 0 (lh_block s) d)"
proof -
  have le: "0 \<le> lh_n s" "lh_n s \<le> int LOGSIZE" "\<forall>i<nat (lh_n s). lh_block s ! i < 2 ^ 32" "nat (lh_n s) \<le> LOGSIZE"
    using assms(1) log_shape_blocks [OF assms(1)] by (auto simp: log_shape_def)
  note p = put_head [OF assms(2) le(1-3)]
  show hb: "head_blocks (put_head (lh_n s) (lh_block s) d) = logged s"
    using assms(1) le p by (intro nth_equalityI) (simp_all add: head_blocks_def logged_def log_shape_def)
  then show "head_ok s (put_head (lh_n s) (lh_block s) d)"
    using assms(1) p(2) by (simp add: head_ok_def log_shape_def)
  have "sint (get32 (put_head 0 (lh_block s) d) 0) = 0" using assms(2) by (intro put_head(2)) auto
  then show "head_blocks (put_head 0 (lh_block s) d) = []" "head_ok s (put_head 0 (lh_block s) d)"
    using assms(1) by (auto simp: head_blocks_def head_ok_def log_shape_def)
qed

lemma head_ok_cong:
  "log_size r = log_size s \<Longrightarrow> disksize r = disksize s \<Longrightarrow> log_start r = log_start s \<Longrightarrow> head_ok r d = head_ok s d"
  by (simp add: head_ok_def log_area_def)

text \<open>The three parts of the writes of a commit.\<close>

lemma commit_writes_parts:
  assumes sh: "log_shape s" and bo: "bio_ok s"
  obtains W1 h1 W2 h0 where "commit_writes s = W1 @ (log_start s, h1) # W2 @ [(log_start s, h0)]"
    and "length W1 = nat (lh_n s)" and "length W2 = nat (lh_n s)"
    and "\<And>b d. (b, d) \<in> set W1 \<Longrightarrow> b \<in> log_area s \<and> b \<noteq> log_start s"
    and "\<And>t. t < nat (lh_n s) \<Longrightarrow> apply_writes W1 f (log_start s + t + 1) = blk s (lh_block s ! t)"
    and "\<And>b d. (b, d) \<in> set W2 \<Longrightarrow> b \<in> set (logged s) \<and> d = blk s b"
    and "fst ` set W2 = set (logged s)"
    and "head_blocks h1 = logged s" and "head_ok s h1" and "head_blocks h0 = []" and "head_ok s h0"
proof -
  let ?n = "nat (lh_n s)" and ?bs = "lh_block s" and ?a = "log_start s"
  define W1 where "W1 = map (\<lambda>t. (?a + t + 1, blk s (?bs ! t))) [0..<?n]"
  define h1 where "h1 = put_head (lh_n s) ?bs (blk s ?a)"
  define W2 where "W2 = map (\<lambda>t. (?bs ! t, blk s (?bs ! t))) [0..<?n]"
  define h0 where "h0 = put_head 0 ?bs h1"
  have l1: "length h1 = BSIZE"
    unfolding h1_def using sh log_shape_blocks [OF sh] length_blk [OF bo]
    by (intro put_head(1)) (auto simp: log_shape_def)
  show thesis
  proof (rule that)
    show "commit_writes s = W1 @ (?a, h1) # W2 @ [(?a, h0)]"
      by (simp add: commit_writes_def Let_def W1_def W2_def h1_def h0_def)
    show "length W1 = ?n" "length W2 = ?n" by (simp_all add: W1_def W2_def)
    show "b \<in> log_area s \<and> b \<noteq> ?a" if "(b, d) \<in> set W1" for b d
      using that log_shape_nth(5) [OF sh] by (auto simp: W1_def)
    show "apply_writes W1 f (?a + t + 1) = blk s (?bs ! t)" if "t < ?n" for t
      by (rule apply_writes_same) (use that in \<open>auto simp: W1_def image_iff\<close>)
    show "b \<in> set (logged s) \<and> d = blk s b" if "(b, d) \<in> set W2" for b d
      using that log_shape_nth(1) [OF sh] by (auto simp: W2_def)
    have "fst ` set W2 = (!) ?bs ` {..<?n}" by (simp add: W2_def image_image lessThan_atLeast0)
    then show "fst ` set W2 = set (logged s)" using logged_image [OF sh] by simp
    show "head_blocks h1 = logged s" "head_ok s h1"
      unfolding h1_def by (rule head_blocks_put [OF sh length_blk [OF bo]])+
    show "head_blocks h0 = []" "head_ok s h0"
      unfolding h0_def by (rule head_blocks_put [OF sh l1])+
  qed
qed

lemma crash_recover:
  assumes ok: "log_ok s"
    and boot: "log_boot r" and same: "log_start r = log_start s" "log_size r = log_size s" "disksize r = disksize s"
    and k: "k \<le> length (commit_writes s)"
    and D: "disk r = apply_writes (take k (commit_writes s)) (disk s)"
  shows "\<exists>r'. recover_from_log r = OK r' \<and> log_ok r' \<and> lh_n r' = 0 \<and>
    (\<forall>b. b \<notin> log_area s \<longrightarrow> disk r' b = (if k \<le> nat (lh_n s) then disk s b else blk s b))"
proof -
  have sh: "log_shape s" and bo: "bio_ok s" and ds: "dset s \<subseteq> set (logged s)"
    and h: "sint (get32 (disk s (log_start s)) 0) = 0"
    using ok by (simp_all add: log_ok_def)
  let ?n = "nat (lh_n s)" and ?a = "log_start s" and ?bs = "logged s"
  obtain W1 h1 W2 h0 where cw: "commit_writes s = W1 @ (?a, h1) # W2 @ [(?a, h0)]"
    and len: "length W1 = ?n" "length W2 = ?n"
    and w1: "\<And>b d. (b, d) \<in> set W1 \<Longrightarrow> b \<in> log_area s \<and> b \<noteq> ?a"
    and v1: "\<And>t. t < ?n \<Longrightarrow> apply_writes W1 (disk s) (?a + t + 1) = blk s (lh_block s ! t)"
    and w2: "\<And>b d. (b, d) \<in> set W2 \<Longrightarrow> b \<in> set ?bs \<and> d = blk s b" and f2: "fst ` set W2 = set ?bs"
    and hd: "head_blocks h1 = ?bs" "head_ok s h1" "head_blocks h0 = []" "head_ok s h0"
    using commit_writes_parts [OF sh bo, of "disk s"] by metis
  have area: "log_area r = log_area s" using same by (simp add: log_area_def)
  have a: "?a \<in> log_area s" using log_start_area [OF sh] by simp
  have disj: "b \<notin> log_area s" if "b \<in> set ?bs" for b using that sh by (simp add: log_shape_def)
  have clean: "blk s b = disk s b" if "b \<notin> set ?bs" for b using that ds blk_clean [OF bo] by blast
  have home: "apply_writes ws f b = f b" if "\<And>c d. (c, d) \<in> set ws \<Longrightarrow> c \<in> log_area s" "b \<notin> log_area s" for ws f b
    using that by (intro apply_writes_other) auto
  have h1: "apply_writes W1 (disk s) ?a = disk s ?a" using w1 by (intro apply_writes_other) fastforce
  have W2b: "apply_writes W2 f b = blk s b" if "b \<in> set ?bs" for f b
    using that w2 f2 by (intro apply_writes_same) auto
  have W2o: "apply_writes (take j W2) f b = f b" if "b \<notin> set ?bs" for f b j
    using that f2 set_take_subset [of j W2] by (intro apply_writes_other) blast
  have W2t: "apply_writes (take j W2) f b = blk s b \<or> apply_writes (take j W2) f b = f b" for f b j
  proof (cases "b \<in> fst ` set (take j W2)")
    case True
    then have "apply_writes (take j W2) f b = blk s b"
      using w2 set_take_subset [of j W2] by (intro apply_writes_same) auto
    then show ?thesis ..
  qed (simp add: apply_writes_other)
  note rec = recover_ok [OF boot]
  consider (old) "k \<le> ?n" | (mid) "?n < k" "k \<le> 2 * ?n + 1" | (new) "k = 2 * ?n + 2"
  proof -
    have "k \<le> 2 * ?n + 2" using k len by (simp add: cw)
    then show ?thesis using that by linarith
  qed
  then show ?thesis
  proof cases
    case old
    then have tk: "take k (commit_writes s) = take k W1" using len by (simp add: cw)
    have wt: "c \<in> log_area s \<and> c \<noteq> ?a" if "(c, d) \<in> set (take k W1)" for c d
      using w1 [of c d] that set_take_subset [of k W1] by blast
    have da: "disk r ?a = disk s ?a" unfolding D tk using wt by (intro apply_writes_other) fastforce
    have hb: "head_blocks (disk r (log_start r)) = []" using da h same by (simp add: head_blocks_def)
    moreover have "head_ok r (disk r (log_start r))"
      using hb da h same sh by (simp add: head_ok_def log_shape_def)
    ultimately obtain r' h' where r': "recover_from_log r = OK r'" "log_ok r'" "lh_n r' = 0"
      "disk r' = apply_writes [(?a, h')] (disk r)"
      using rec same by fastforce
    have "disk r' b = disk s b" if "b \<notin> log_area s" for b
      using that a r'(4) home [of "take k W1" b] wt by (auto simp: D tk)
    with r' old show ?thesis by auto
  next
    case mid
    then have tk: "take k (commit_writes s) = W1 @ (?a, h1) # take (k - ?n - 1) W2"
      using len by (simp add: cw take_Cons')
    have Db: "disk r b = apply_writes (take (k - ?n - 1) W2) ((apply_writes W1 (disk s))(?a := h1)) b" for b
      by (simp add: D tk apply_writes_append)
    have na: "?a \<notin> set ?bs" using a disj by blast
    have da: "disk r ?a = h1" using W2o [OF na] by (simp add: Db)
    have dl: "disk r (?a + t + 1) = blk s (?bs ! t)" if "t < ?n" for t
    proof -
      have "?a + t + 1 \<notin> set ?bs" using log_shape_nth(5) [OF sh that] disj by blast
      then show ?thesis using W2o v1 [OF that] that by (simp add: Db logged_def)
    qed
    have "head_ok r (disk r (log_start r))" using da hd same head_ok_cong [of r s] by simp
    with rec da hd same obtain r' h' where r': "recover_from_log r = OK r'" "log_ok r'" "lh_n r' = 0"
      "disk r' = apply_writes (map (\<lambda>t. (?bs ! t, disk r (?a + t + 1))) [0..<length ?bs] @ [(?a, h')]) (disk r)"
      by fastforce
    have n: "length ?bs = ?n" using sh by (auto simp: logged_def log_shape_def)
    then have "map (\<lambda>t. (?bs ! t, disk r (?a + t + 1))) [0..<length ?bs] = map (\<lambda>t. (?bs ! t, blk s (?bs ! t))) [0..<?n]"
      using dl by simp
    then have dr: "disk r' b = ((\<lambda>b. if b \<in> (!) ?bs ` {..<?n} then blk s b else disk r b)(?a := h')) b" for b
      using apply_writes_map [of ?bs "blk s" "[0..<?n]" "disk r"]
      by (simp add: r'(4) apply_writes_append lessThan_atLeast0)
    have im: "(!) ?bs ` {..<?n} = set ?bs" using n nth_image [of ?n ?bs] by (simp add: lessThan_atLeast0)
    have "disk r' b = blk s b" if b: "b \<notin> log_area s" for b
    proof (cases "b \<in> set ?bs")
      case True
      then show ?thesis using dr b a im by auto
    next
      case False
      then have "disk r b = disk s b"
        using W2o [of b] home [of W1 b] w1 b a by (auto simp: Db)
      then show ?thesis using False dr b a im clean by auto
    qed
    with r' mid show ?thesis by auto
  next
    case new
    then have tk: "take k (commit_writes s) = commit_writes s" using len by (simp add: cw)
    have Db: "disk r b = ((apply_writes W2 ((apply_writes W1 (disk s))(?a := h1)))(?a := h0)) b" for b
      unfolding D tk by (simp add: cw apply_writes_append)
    have "head_ok r (disk r (log_start r))" "head_blocks (disk r (log_start r)) = []"
      using hd same head_ok_cong [of r s] by (simp_all add: Db)
    with rec same obtain r' h' where r': "recover_from_log r = OK r'" "log_ok r'" "lh_n r' = 0"
      "disk r' = apply_writes [(?a, h')] (disk r)"
      by fastforce
    have "disk r' b = blk s b" if b: "b \<notin> log_area s" for b
    proof (cases "b \<in> set ?bs")
      case True
      then show ?thesis using b a W2b by (auto simp: r'(4) Db)
    next
      case False
      then have "apply_writes W2 ((apply_writes W1 (disk s))(?a := h1)) b = disk s b"
        using W2o [of b "length W2"] home [of W1 b] w1 b a by auto
      then show ?thesis using b a clean [OF False] by (auto simp: r'(4) Db)
    qed
    with r' new show ?thesis by auto
  qed
qed

subsection \<open>The cache and the log together\<close>

text \<open>What an operation inside a transaction may change: cached and logged blocks, and who is awake.\<close>

definition log_frame :: "'z logs_scheme \<Rightarrow> 'z logs_scheme \<Rightarrow> bool" where
  "log_frame s s' \<longleftrightarrow> list_all2 woken (ptable s) (ptable s') \<and>
     s' = s\<lparr>ptable := ptable s', bufs := bufs s', disk := disk s', dtrace := dtrace s',
            lh_n := lh_n s', lh_block := lh_block s'\<rparr>"

lemma log_frame_refl [simp]: "log_frame s s"
  by (simp add: log_frame_def woken_def list_all2_refl)

lemma log_frame_trans [trans]:
  assumes "log_frame s t" and "log_frame t u"
  shows "log_frame s u"
proof -
  have "u = t\<lparr>ptable := ptable u, bufs := bufs u, disk := disk u, dtrace := dtrace u, lh_n := lh_n u, lh_block := lh_block u\<rparr>"
    using assms(2) by (simp add: log_frame_def)
  also have "t = s\<lparr>ptable := ptable t, bufs := bufs t, disk := disk t, dtrace := dtrace t, lh_n := lh_n t, lh_block := lh_block t\<rparr>"
    using assms(1) by (simp add: log_frame_def)
  finally have "u = s\<lparr>ptable := ptable u, bufs := bufs u, disk := disk u, dtrace := dtrace u, lh_n := lh_n u, lh_block := lh_block u\<rparr>"
    by simp
  then show ?thesis
    using assms list_all2_trans [of woken woken woken "ptable s" "ptable t" "ptable u"] woken_trans
    by (auto simp: log_frame_def)
qed

lemma log_frame_bio:
  assumes "bio_frame s t"
  shows "log_frame s t"
proof -
  have "t = s\<lparr>ptable := ptable t, bufs := bufs t, disk := disk t, dtrace := dtrace t\<rparr>"
    using assms by (simp add: bio_frame_def)
  then have "t\<lparr>lh_n := lh_n t, lh_block := lh_block t\<rparr> =
      (s\<lparr>ptable := ptable t, bufs := bufs t, disk := disk t, dtrace := dtrace t\<rparr>)\<lparr>lh_n := lh_n t, lh_block := lh_block t\<rparr>"
    by metis
  then show ?thesis using assms by (simp add: log_frame_def bio_frame_def)
qed

lemma log_frame_simps:
  assumes "log_frame s s'"
  shows "disksize s' = disksize s" and "curproc s' = curproc s" and "mem s' = mem s"
    and "length (ptable s') = length (ptable s)"
    and "log_start s' = log_start s" and "log_size s' = log_size s" and "log_dev s' = log_dev s"
    and "outstanding s' = outstanding s" and "committing s' = committing s" and "log_area s' = log_area s"
proof -
  let ?t = "s\<lparr>ptable := ptable s', bufs := bufs s', disk := disk s', dtrace := dtrace s', lh_n := lh_n s', lh_block := lh_block s'\<rparr>"
  have eq: "s' = ?t" using assms by (simp add: log_frame_def)
  show "disksize s' = disksize s" by (subst eq) simp
  show "curproc s' = curproc s" by (subst eq) simp
  show "mem s' = mem s" by (subst eq) simp
  show a: "log_start s' = log_start s" "log_size s' = log_size s" by (subst eq, simp)+
  show "log_dev s' = log_dev s" by (subst eq) simp
  show "outstanding s' = outstanding s" by (subst eq) simp
  show "committing s' = committing s" by (subst eq) simp
  show "log_area s' = log_area s" using a by (simp add: log_area_def)
  have "list_all2 woken (ptable s) (ptable s')" using assms by (simp add: log_frame_def)
  from list_all2_lengthD [OF this] show "length (ptable s') = length (ptable s)" by simp
qed

definition fs_to :: "'z logs_scheme \<Rightarrow> 'z logs_scheme \<Rightarrow> (nat \<Rightarrow> block) \<Rightarrow> nat set \<Rightarrow> nat set \<Rightarrow> bool" where
  "fs_to s s' B H L \<longleftrightarrow> log_ok s' \<and> log_frame s s' \<and> blk s' = B \<and> hset s' = H \<and> set (logged s') = L"

lemma fs_to_refl: "log_ok s \<Longrightarrow> fs_to s s (blk s) (hset s) (set (logged s))"
  by (simp add: fs_to_def)

lemma fs_to_trans: "fs_to s t B H L \<Longrightarrow> fs_to t u B' H' L' \<Longrightarrow> fs_to s u B' H' L'"
  using log_frame_trans by (auto simp: fs_to_def)

lemma fs_toD:
  assumes "fs_to s s' B H L"
  shows "log_ok s'" and "log_frame s s'" and "blk s' = B" and "hset s' = H" and "set (logged s') = L"
    and "disksize s' = disksize s" and "log_area s' = log_area s" and "outstanding s' = outstanding s"
    and "log_size s' = log_size s"
  using assms log_frame_simps [of s s'] by (simp_all add: fs_to_def)

lemma log_ok_bio: "log_ok s \<Longrightarrow> bio_ok s"
  by (simp add: log_ok_def)

text \<open>A step of the cache that keeps dirty blocks inside the log and leaves the header alone.\<close>

lemma log_ok_bio_to:
  assumes "log_ok s" and "bio_to s s' B H D K T" and "D \<subseteq> set (logged s)" and "K (log_start s) = disk s (log_start s)"
  shows "fs_to s s' B H (set (logged s))"
proof -
  note t = bio_toD [OF assms(2)]
  note l = log_shape_frame [OF t(2)]
  have "log_ok s'"
    using assms t l bio_frame_logs [OF t(2)] by (simp add: log_ok_def)
  then show ?thesis using t l log_frame_bio [OF t(2)] by (simp add: fs_to_def)
qed

lemma bread_fs:
  assumes ok: "log_ok s" and b: "b < disksize s" "b \<notin> hset s" and room: "card (hset s \<union> set (logged s)) < NBUF"
  shows "\<exists>i s'. bread 1 b s = OK (i, s') \<and> fs_to s s' (blk s) (insert b (hset s)) (set (logged s)) \<and>
    holds s' i b \<and> (\<forall>j c. holds s j c \<longrightarrow> holds s' j c)"
proof -
  have D: "dset s \<subseteq> set (logged s)" using ok by (simp add: log_ok_def)
  have "finite (hset s)" by (simp add: bset_def)
  then have "card (hset s \<union> dset s) \<le> card (hset s \<union> set (logged s))"
    using D by (intro card_mono) auto
  then obtain i s' where 1: "bread 1 b s = OK (i, s')" "holds s' i b" "\<forall>j c. holds s j c \<longrightarrow> holds s' j c"
    "bio_to s s' (blk s) (insert b (hset s)) (dset s) (disk s) (dtrace s)"
    using bread_ok [OF log_ok_bio [OF ok] b] room by auto
  show ?thesis using 1 log_ok_bio_to [OF ok 1(4) D] by auto
qed

lemma brelse_fs:
  assumes ok: "log_ok s" and h: "holds s i b"
  shows "\<exists>s'. brelse i s = OK s' \<and> fs_to s s' (blk s) (hset s - {b}) (set (logged s)) \<and>
    (\<forall>j c. holds s j c \<and> c \<noteq> b \<longrightarrow> holds s' j c)"
proof -
  have D: "dset s \<subseteq> set (logged s)" using ok by (simp add: log_ok_def)
  obtain s' where 1: "brelse i s = OK s'" "\<forall>j c. holds s j c \<and> c \<noteq> b \<longrightarrow> holds s' j c"
    "bio_to s s' (blk s) (hset s - {b}) (dset s) (disk s) (dtrace s)"
    using brelse_ok [OF log_ok_bio [OF ok] h] by blast
  show ?thesis using 1 log_ok_bio_to [OF ok 1(3) D] by auto
qed

lemma bwrite_fs:
  assumes ok: "log_ok s" and h: "holds s i b" and d: "length d = BSIZE" and b: "b \<notin> log_area s"
  shows "\<exists>s'. bwrite i (set_data i d s) = OK s' \<and> fs_to s s' ((blk s)(b := d)) (hset s) (set (logged s)) \<and>
    (\<forall>j c. holds s' j c \<longleftrightarrow> holds s j c)"
proof -
  have D: "dset s - {b} \<subseteq> set (logged s)" using ok by (auto simp: log_ok_def)
  have a: "log_start s \<noteq> b" using log_start_area [of s] ok b by (auto simp: log_ok_def)
  obtain s' where 1: "bwrite i (set_data i d s) = OK s'" "\<forall>j c. holds s' j c \<longleftrightarrow> holds s j c"
    "bio_to s s' ((blk s)(b := d)) (hset s) (dset s - {b}) ((disk s)(b := d)) (dtrace s @ [(b, d)])"
    using bwrite_ok [OF log_ok_bio [OF ok] h d] by blast
  show ?thesis using 1 log_ok_bio_to [OF ok 1(3) D] a by auto
qed

text \<open>Appending a block to the transaction, or finding it there: log absorption.\<close>

lemma logged_absorb:
  assumes sh: "log_shape s" and b: "b < disksize s" "b \<notin> log_area s"
    and room: "b \<in> set (logged s) \<or> lh_n s + 1 < int (log_size s)"
  defines "n \<equiv> nat (lh_n s)"
  defines "i \<equiv> (case find_idx (\<lambda>x. x = b) (take n (lh_block s)) of Some i \<Rightarrow> i | None \<Rightarrow> n)"
  defines "s' \<equiv> s\<lparr>lh_block := (lh_block s)[i := b], lh_n := (if i = n then lh_n s + 1 else lh_n s)\<rparr>"
  shows "log_shape s'" and "set (logged s') = insert b (set (logged s))"
proof -
  have nl: "n < length (lh_block s)" "0 \<le> lh_n s" using sh by (auto simp: log_shape_def n_def)
  have lg: "logged s = take n (lh_block s)" by (simp add: logged_def n_def)
  have "logged s' = (if b \<in> set (logged s) then logged s else logged s @ [b])"
  proof (cases "b \<in> set (logged s)")
    case True
    then obtain j where j: "find_idx (\<lambda>x. x = b) (take n (lh_block s)) = Some j"
      using find_idx_exists [of b "take n (lh_block s)" "\<lambda>x. x = b"] by (auto simp: lg)
    then have "j < n" "lh_block s ! j = b" using find_idx_SomeD [OF j] by auto
    moreover have "(lh_block s)[j := b] = lh_block s" using calculation list_update_id by metis
    ultimately have "s' = s" using j by (simp add: s'_def i_def)
    then show ?thesis using True by (simp add: logged_def)
  next
    case False
    then have "find_idx (\<lambda>x. x = b) (take n (lh_block s)) = None"
      by (auto simp: find_idx_None_iff lg)
    then have s': "lh_block s' = (lh_block s)[n := b]" "lh_n s' = lh_n s + 1"
      by (simp_all add: s'_def i_def)
    have "nat (lh_n s') = Suc n" using s' nl by (simp add: n_def)
    then show ?thesis
      using False nl s'(1) by (simp add: logged_def n_def [symmetric] take_Suc_conv_app_nth)
  qed
  moreover have "lh_n s' = (if b \<in> set (logged s) then lh_n s else lh_n s + 1)"
  proof -
    have "length (logged s') = nat (lh_n s')" "length (logged s) = n"
      using nl room sh by (auto simp: logged_def s'_def n_def log_shape_def)
    then show ?thesis
      using calculation nl by (auto simp: s'_def n_def split: if_splits)
  qed
  moreover have eqs: "log_dev s' = log_dev s" "log_size s' = log_size s" "log_start s' = log_start s" "disksize s' = disksize s"
    "length (lh_block s') = length (lh_block s)" "log_area s' = log_area s"
    by (simp_all add: s'_def log_area_def)
  ultimately show "log_shape s'" "set (logged s') = insert b (set (logged s))"
    using sh b room by (auto simp: log_shape_def)
qed

lemma log_ok_upd:
  assumes "log_shape (s\<lparr>lh_block := bs, lh_n := n\<rparr>)"
    and "bio_to s s' B H D K T" and "D \<subseteq> set (logged (s\<lparr>lh_block := bs, lh_n := n\<rparr>))" and "K (log_start s) = disk s (log_start s)"
    and "sint (get32 (disk s (log_start s)) 0) = 0"
  shows "fs_to s (s'\<lparr>lh_block := bs, lh_n := n\<rparr>) B H (set (logged (s\<lparr>lh_block := bs, lh_n := n\<rparr>)))"
proof -
  note t = bio_toD [OF assms(2)] and f = bio_frame_logs [OF bio_toD(2) [OF assms(2)]]
  let ?s = "s\<lparr>lh_block := bs, lh_n := n\<rparr>" and ?t = "s'\<lparr>lh_block := bs, lh_n := n\<rparr>"
  have lg: "logged ?t = logged ?s" by (simp add: logged_def)
  have "log_shape ?t = log_shape ?s" using f t(8) by (intro log_shape_cong) simp_all
  then have "log_ok ?t" using assms t f lg by (simp add: log_ok_def)
  moreover have "log_frame s ?t"
  proof -
    have "log_frame s s'" by (rule log_frame_bio [OF t(2)])
    then have e: "s' = s\<lparr>ptable := ptable s', bufs := bufs s', disk := disk s', dtrace := dtrace s', lh_n := lh_n s', lh_block := lh_block s'\<rparr>"
      and w: "list_all2 woken (ptable s) (ptable s')" by (simp_all add: log_frame_def)
    from arg_cong [OF e, of "\<lambda>u. u\<lparr>lh_block := bs, lh_n := n\<rparr>"]
    have "?t = s\<lparr>ptable := ptable s', bufs := bufs s', disk := disk s', dtrace := dtrace s', lh_n := n, lh_block := bs\<rparr>"
      by simp
    then show ?thesis using w by (simp add: log_frame_def)
  qed
  ultimately show ?thesis using t lg by (simp add: fs_to_def)
qed

lemma log_write_fs:
  assumes ok: "log_ok s" and h: "holds s i b" and d: "length d = BSIZE" and b: "b \<notin> log_area s"
    and out: "outstanding s \<ge> 1" and room: "lh_n s + 1 < int (log_size s)"
  shows "\<exists>s'. log_write i (set_data i d s) = OK s' \<and>
    fs_to s s' ((blk s)(b := d)) (hset s) (insert b (set (logged s))) \<and> (\<forall>j c. holds s' j c \<longleftrightarrow> holds s j c)"
proof -
  have sh: "log_shape s" and bo: "bio_ok s" and D: "dset s \<subseteq> set (logged s)"
    and hdr: "sint (get32 (disk s (log_start s)) 0) = 0"
    using ok by (simp_all add: log_ok_def)
  have bd: "b < disksize s" using holds_data(3) [OF bo h] .
  define n where "n = nat (lh_n s)"
  define k where "k = (case find_idx (\<lambda>x. x = b) (take n (lh_block s)) of Some i \<Rightarrow> i | None \<Rightarrow> n)"
  define m where "m = (if k = n then lh_n s + 1 else lh_n s)"
  define bs where "bs = (lh_block s)[k := b]"
  have ls: "log_shape (s\<lparr>lh_block := bs, lh_n := m\<rparr>)"
    "set (logged (s\<lparr>lh_block := bs, lh_n := m\<rparr>)) = insert b (set (logged s))"
    using logged_absorb [OF sh bd b disjI2 [OF room]]
    unfolding n_def [symmetric] k_def [symmetric] bs_def [symmetric] m_def [symmetric] by simp_all
  let ?t = "upd_buf (set_data i d s) i (\<lambda>p. p\<lparr>b_dirty := True\<rparr>)"
  note t = mark_dirty_ok [OF bo h d]
  have il: "i < length (bufs s)" using bo h by (auto simp: bio_ok_def ring_def holds_def)
  have bi: "b_blockno (buf_at (set_data i d s) i) = b"
    using h il by (simp add: set_data_def holds_def)
  have lim: "\<not> lh_n s \<ge> int LOGSIZE" "\<not> lh_n s \<ge> int (log_size s) - 1"
    using sh room by (auto simp: log_shape_def)
  have sd: "lh_n (set_data i d s) = lh_n s" "lh_block (set_data i d s) = lh_block s"
    "log_size (set_data i d s) = log_size s" "outstanding (set_data i d s) = outstanding s"
    by (simp_all add: set_data_def upd_buf_def)
  have "log_write i (set_data i d s) = OK (?t\<lparr>lh_block := bs, lh_n := m\<rparr>)"
    using lim out bi il unfolding log_write_def sd Let_def bi
    unfolding n_def [symmetric] k_def [symmetric]
    by (auto simp: bs_def m_def upd_buf_def set_data_def)
  moreover have "fs_to s (?t\<lparr>lh_block := bs, lh_n := m\<rparr>) ((blk s)(b := d)) (hset s) (insert b (set (logged s)))"
    using log_ok_upd [OF ls(1) t(1)] ls(2) D hdr by auto
  moreover have "holds (?t\<lparr>lh_block := bs, lh_n := m\<rparr>) j c = holds s j c" for j c
    using t(2) by simp
  ultimately show ?thesis by blast
qed

lemma wakeup_simps [simp]:
  "bio_ok (wakeup s c) = bio_ok s" "bset P (wakeup s c) = bset P s" "disk (wakeup s c) = disk s"
  "blk (wakeup s c) = blk s" "log_shape (wakeup s c) = log_shape s" "logged (wakeup s c) = logged s"
  "lh_n (wakeup s c) = lh_n s" "outstanding (wakeup s c) = outstanding s" "committing (wakeup s c) = committing s"
  "log_start (wakeup s c) = log_start s" "dtrace (wakeup s c) = dtrace s" "log_area (wakeup s c) = log_area s"
proof -
  show "blk (wakeup s c) = blk s" by (rule blk_cong) (simp_all add: wakeup_def wakeup1_def)
qed (simp_all add: wakeup_def wakeup1_def bio_ok_def bset_def log_shape_def logged_def log_area_def)

lemma commit_home:
  assumes "log_ok s" and "hset s = {}" and "lh_n s > 0"
  shows "\<exists>s'. commit s = OK s' \<and> log_ok s' \<and> lh_n s' = 0 \<and> hset s' = {} \<and> dset s' = {} \<and>
    outstanding s' = outstanding s \<and> committing s' = committing s \<and> dtrace s' = dtrace s @ commit_writes s \<and>
    (\<forall>b. b \<notin> log_area s \<longrightarrow> blk s' b = blk s b \<and> disk s' b = blk s b)"
proof -
  have sh: "log_shape s" and bo: "bio_ok s" using assms(1) by (simp_all add: log_ok_def)
  let ?a = "log_start s"
  obtain s' where s': "commit s = OK s'" "bio_ok s'" "bio_frame (s\<lparr>lh_n := 0\<rparr>) s'" "hset s' = {}" "dset s' = {}"
    "blk s' = apply_writes (commit_writes s) (blk s)" "disk s' = apply_writes (commit_writes s) (disk s)"
    "dtrace s' = dtrace s @ commit_writes s"
    using commit_ok [OF assms] by blast
  note f = bio_frame_logs [OF s'(3)] bio_frame_simps(1) [OF s'(3)]
  obtain W1 h1 W2 h0 where cw: "commit_writes s = W1 @ (?a, h1) # W2 @ [(?a, h0)]"
    and w1: "\<And>b d. (b, d) \<in> set W1 \<Longrightarrow> b \<in> log_area s \<and> b \<noteq> ?a"
    and w2: "\<And>b d. (b, d) \<in> set W2 \<Longrightarrow> b \<in> set (logged s) \<and> d = blk s b"
    and h0: "head_blocks h0 = []" "head_ok s h0"
    using commit_writes_parts [OF sh bo] by metis
  have "blk s' b = blk s b" if b: "b \<notin> log_area s" for b
  proof -
    have a: "b \<noteq> ?a" using log_start_area [OF sh] b by auto
    have "apply_writes W1 (blk s) b = blk s b" using w1 b by (intro apply_writes_other) fastforce
    moreover have "apply_writes W2 g b = blk s b \<or> apply_writes W2 g b = g b" for g
    proof (cases "b \<in> fst ` set W2")
      case True
      then show ?thesis using w2 by (intro disjI1 apply_writes_same) auto
    qed (simp add: apply_writes_other)
    ultimately show ?thesis
      using a unfolding s'(6) cw by (simp add: apply_writes_append) (metis fun_upd_other)
  qed
  moreover have "disk s' = blk s'" using blk_clean [OF s'(2)] s'(5) by (simp add: fun_eq_iff)
  moreover have "log_ok s'"
  proof -
    have "nat (sint (get32 h0 0)) = 0" "0 \<le> sint (get32 h0 0)"
      using h0 by (simp_all add: head_ok_def head_blocks_def)
    then have "sint (get32 h0 0) = 0" by simp
    moreover have "disk s' ?a = h0" by (simp add: s'(7) cw apply_writes_append)
    moreover have "log_shape s'" "logged s' = []"
      using f sh by (simp_all add: log_shape_def logged_def)
    ultimately show ?thesis using s'(2,5) f by (simp add: log_ok_def)
  qed
  ultimately show ?thesis using s'(1,4,5,8) f by (intro exI [of _ s']) simp
qed

subsection \<open>Properties\<close>

text \<open>
  Property C1. A commit is atomic under crashes.  It succeeds without running out of buffers even
  when every block the log admits is pinned, and leaves the home blocks as the cache shows them.  If
  the machine stops after any prefix of its disk writes, recovery at the next boot succeeds and
  finds either every home block as it was before the transaction or every home block as the
  transaction left it; the write of the header block decides.
\<close>

theorem commit_crash_atomic:
  fixes s :: "'z logs_scheme"
  assumes "log_ok s" and "hset s = {}" and "lh_n s > 0"
  shows "\<exists>s' ws. commit s = OK s' \<and> dtrace s' = dtrace s @ ws \<and> length ws = 2 * nat (lh_n s) + 2 \<and>
    (\<forall>b. b \<notin> log_area s \<longrightarrow> disk s' b = blk s b) \<and>
    (\<forall>k (r :: 'z logs_scheme). k \<le> length ws \<and> log_boot r \<and> log_start r = log_start s \<and> log_size r = log_size s \<and>
       disksize r = disksize s \<and> disk r = apply_writes (take k ws) (disk s) \<longrightarrow>
       (\<exists>r'. recover_from_log r = OK r' \<and> log_ok r' \<and> lh_n r' = 0 \<and>
         (\<forall>b. b \<notin> log_area s \<longrightarrow> disk r' b = (if k \<le> nat (lh_n s) then disk s b else blk s b))))"
proof -
  have "length (commit_writes s) = 2 * nat (lh_n s) + 2" by (simp add: commit_writes_def Let_def)
  then show ?thesis using commit_home [OF assms] crash_recover [OF assms(1)] by blast
qed

definition boot_logs :: logs where
  "boot_logs = bios.extend (binit boot_bios)
     \<lparr>log_start = 2, log_size = LOGSIZE, outstanding = 1, committing = False, log_dev = 1,
      lh_n = 0, lh_block = replicate LOGSIZE 0\<rparr>"

lemma boot_logs_fields:
  "bufs boot_logs = bufs (binit boot_bios)" "disk boot_logs = disk (binit boot_bios)"
  "disksize boot_logs = FSSIZE" "curproc boot_logs = curproc (binit boot_bios)"
  "log_start boot_logs = 2" "log_size boot_logs = LOGSIZE" "outstanding boot_logs = 1" "log_dev boot_logs = 1"
  "lh_n boot_logs = 0" "lh_block boot_logs = replicate LOGSIZE 0" "committing boot_logs = False"
  using boot_bios_size by (simp_all add: boot_logs_def bios.defs del: replicate.simps replicate_Suc)

lemma boot_logs_ok:
  shows "log_ok boot_logs" and "hset boot_logs = {}" and "dset boot_logs = {}" and "blk boot_logs = (\<lambda>_. replicate BSIZE 0)"
    and "logged boot_logs = []" and "log_boot boot_logs" and "disk boot_logs = (\<lambda>_. replicate BSIZE 0)"
proof -
  note f = boot_logs_fields
  show h: "hset boot_logs = {}" and d: "dset boot_logs = {}"
    using boot_bios_ok(4,5) by (simp_all add: bset_def f)
  have b: "bio_ok boot_logs"
    using boot_bios_ok(1) boot_bios_size by (simp add: bio_ok_def f)
  have bk: "blk boot_logs = blk (binit boot_bios)" by (simp add: blk_def [abs_def] f cong: option.case_cong)
  then show "blk boot_logs = (\<lambda>_. replicate BSIZE 0)" using boot_bios_ok(3) by simp
  then show dk: "disk boot_logs = (\<lambda>_. replicate BSIZE 0)"
    using blk_clean [OF b] d by (metis empty_iff ext)
  show l: "logged boot_logs = []" by (simp add: logged_def f)
  have "get32 (replicate BSIZE 0) 0 = 0" by (simp add: get32_def slice_def eval_nat_numeral)
  then show "log_ok boot_logs"
    using b d l dk by (simp add: log_ok_def log_shape_def f del: replicate.simps replicate_Suc)
  show "log_boot boot_logs" using b h d by (simp add: log_boot_def f)
qed

text \<open>A transaction that has changed one block.\<close>

lemma one_block_logged:
  "\<exists>s :: logs. log_ok s \<and> hset s = {} \<and> lh_n s = 1 \<and> blk s 100 = replicate BSIZE 7 \<and> disk s = disk boot_logs \<and>
     log_start s = 2 \<and> log_size s = LOGSIZE \<and> disksize s = FSSIZE"
proof -
  note ok = boot_logs_ok and f = boot_logs_fields
  have bo: "bio_ok boot_logs" using ok(1) by (simp add: log_ok_def)
  obtain i s1 where 1: "holds s1 i 100" "bio_to boot_logs s1 (blk boot_logs) {100} {} (disk boot_logs) (dtrace boot_logs)"
    using bread_ok [OF bo, of 100] ok f by auto
  note t1 = bio_toD [OF 1(2)]
  let ?d = "replicate BSIZE 7 :: block" and ?s2 = "upd_buf (set_data i (replicate BSIZE 7) s1) i (\<lambda>p. p\<lparr>b_dirty := True\<rparr>)"
  have 2: "bio_to s1 ?s2 ((blk s1)(100 := ?d)) {100} {100} (disk boot_logs) (dtrace boot_logs)" "holds ?s2 i 100"
    using mark_dirty_ok [OF t1(1) 1(1), of ?d] t1 1(1) by simp_all
  note t2 = bio_toD [OF 2(1)]
  obtain s3 where 3: "bio_to ?s2 s3 (blk ?s2) {} {100} (disk boot_logs) (dtrace boot_logs)"
    using brelse_ok [OF t2(1) 2(2)] t2 by auto
  note t3 = bio_toD [OF 3]
  have fr: "bio_frame boot_logs s3" using t1(2) t2(2) t3(2) bio_frame_trans by blast
  note f3 = bio_frame_logs [OF fr] bio_frame_simps(1) [OF fr]
  let ?s = "s3\<lparr>lh_block := (replicate LOGSIZE 0)[0 := 100], lh_n := 1\<rparr>"
  have lg: "logged ?s = [100]" by (simp add: logged_def eval_nat_numeral)
  have "log_shape ?s"
    using f3 f lg by (simp add: log_shape_def log_area_def)
  moreover have "sint (get32 (disk ?s (log_start ?s)) 0) = 0"
    using ok(1) t3(6) f3 by (simp add: log_ok_def)
  ultimately have "log_ok ?s" using t3 lg by (simp add: log_ok_def)
  then show ?thesis
    using t3 t2 t1 f3 f by (intro exI [of _ ?s]) simp
qed

theorem commit_crash_atomic_witness:
  "\<exists>(s :: logs) s' r'. commit s = OK s' \<and> disk s' 100 = replicate BSIZE 7 \<and> disk s 100 = replicate BSIZE 0 \<and>
     recover_from_log boot_logs = OK r' \<and> disk r' 100 = replicate BSIZE 0"
proof -
  obtain s :: logs where s: "log_ok s" "hset s = {}" "lh_n s = 1" "blk s 100 = replicate BSIZE 7"
    "disk s = disk boot_logs" "log_start s = 2" "log_size s = LOGSIZE" "disksize s = FSSIZE"
    using one_block_logged by blast
  have a: "(100 :: nat) \<notin> log_area s" using s by (simp add: log_area_def)
  obtain s' ws where c: "commit s = OK s'" "disk s' 100 = blk s 100"
    "\<forall>k (r :: logs). k \<le> length ws \<and> log_boot r \<and> log_start r = log_start s \<and> log_size r = log_size s \<and>
       disksize r = disksize s \<and> disk r = apply_writes (take k ws) (disk s) \<longrightarrow>
       (\<exists>r'. recover_from_log r = OK r' \<and> log_ok r' \<and> lh_n r' = 0 \<and>
         (\<forall>b. b \<notin> log_area s \<longrightarrow> disk r' b = (if k \<le> nat (lh_n s) then disk s b else blk s b)))"
    using commit_crash_atomic [OF s(1,2)] s(3) a by (metis zero_less_one)
  from c(3) [rule_format, of 0 boot_logs] obtain r' where
    "recover_from_log boot_logs = OK r'" "disk r' 100 = disk s 100"
    using s boot_logs_ok(6) boot_logs_fields a by auto
  then show ?thesis
    using c(1,2) s(4,5) boot_logs_ok(7) by (intro exI [of _ s] exI [of _ s'] exI [of _ r']) simp
qed

text \<open>
  Property C14. When the last outstanding operation ends, end_op commits: the transaction is empty
  again, nothing stays pinned, no commit is in progress, and every block outside the log area is on
  the disk with the content that the cache showed before.
\<close>

theorem end_op_commits:
  assumes "log_ok s" and "hset s = {}" and "outstanding s = 1" and "\<not> committing s"
  shows "\<exists>s'. end_op s = OK s' \<and> log_ok s' \<and> lh_n s' = 0 \<and> outstanding s' = 0 \<and> \<not> committing s' \<and>
    dset s' = {} \<and> (\<forall>b. b \<notin> log_area s \<longrightarrow> blk s' b = blk s b \<and> disk s' b = blk s b)"
proof -
  let ?s = "s\<lparr>outstanding := 0, committing := True\<rparr>"
  have sh: "log_shape ?s" and lg: "logged ?s = logged s" and ar: "log_area ?s = log_area s"
    using assms(1) log_shape_cong [of ?s s] by (simp_all add: log_ok_def logged_def log_area_def)
  have ok: "log_ok ?s" "hset ?s = {}" using assms(1,2) sh lg by (simp_all add: log_ok_def)
  have "\<exists>t. commit ?s = OK t \<and> log_ok t \<and> lh_n t = 0 \<and> outstanding t = 0 \<and> dset t = {} \<and>
    (\<forall>b. b \<notin> log_area s \<longrightarrow> blk t b = blk s b \<and> disk t b = blk s b)"
  proof (cases "lh_n s > 0")
    case False
    then have n: "lh_n s = 0" using assms(1) by (simp add: log_ok_def log_shape_def)
    then have "dset s = {}" using assms(1) by (simp add: log_ok_def logged_def)
    moreover have "commit ?s = OK ?s" using n by (simp add: commit_def)
    ultimately show ?thesis
      using n ok blk_clean [OF log_ok_bio [OF assms(1)]] by (intro exI [of _ ?s]) simp
  next
    case True
    then show ?thesis using commit_home [OF ok] ar by auto
  qed
  then obtain t where t: "commit ?s = OK t" "log_ok t" "lh_n t = 0" "outstanding t = 0" "dset t = {}"
    "\<forall>b. b \<notin> log_area s \<longrightarrow> blk t b = blk s b \<and> disk t b = blk s b"
    by blast
  have "end_op s = OK (wakeup (t\<lparr>committing := False\<rparr>) ChLog)"
    using assms(3,4) t(1) by (simp add: end_op_def Let_def)
  moreover have "log_ok (t\<lparr>committing := False\<rparr>)"
    using t(2) log_shape_cong [of "t\<lparr>committing := False\<rparr>" t] by (simp add: log_ok_def logged_def)
  ultimately show ?thesis using t by (intro exI [of _ "wakeup (t\<lparr>committing := False\<rparr>) ChLog"]) (simp add: log_ok_def)
qed

theorem end_op_commits_witness:
  "\<exists>s'. end_op boot_logs = OK s' \<and> log_ok s' \<and> outstanding s' = 0 \<and> disk s' 100 = replicate BSIZE 0"
  using end_op_commits [of boot_logs] boot_logs_ok boot_logs_fields by (auto simp: log_area_def)

end
