(* ===== verification/Fs.thy ===== *)
theory Fs
  imports Log
begin

text \<open>
  The file system below directories, fs.c: the block bitmap, the inode table on the disk, the inode
  cache, and the content of files, with the small files of this kernel, whose bytes live in the
  address array of the inode.  Blocks are read and changed through the buffer cache and the log, so
  every operation here runs on the state of those components.  Kernel buffers that the code passes
  to readi and writei are lists of bytes.
\<close>

subsection \<open>State\<close>

record inode =
  i_dev :: nat
  i_inum :: nat
  i_ref :: int
  i_lock :: sleeplock
  i_valid :: bool         \<comment> \<open>I_VALID\<close>
  i_busy :: bool          \<comment> \<open>I_BUSY\<close>
  i_type :: u16
  i_major :: u16
  i_minor :: u16
  i_nlink :: u16
  i_size :: u32
  i_addrs :: "u32 list"   \<comment> \<open>\<open>uint addrs[NDIRECT+1]\<close>\<close>

record fss = logs +
  fs_sb :: superblock
  icache :: "inode list"

abbreviation (input) "T_DIR \<equiv> (1 :: u16)"
abbreviation (input) "T_FILE \<equiv> (2 :: u16)"
abbreviation (input) "T_DEV \<equiv> (3 :: u16)"
abbreviation (input) "T_SFILE \<equiv> (4 :: u16)"

abbreviation inode_at :: "'z fss_scheme \<Rightarrow> nat \<Rightarrow> inode" where
  "inode_at s i \<equiv> icache s ! i"

definition upd_inode :: "'z fss_scheme \<Rightarrow> nat \<Rightarrow> (inode \<Rightarrow> inode) \<Rightarrow> 'z fss_scheme" where
  "upd_inode s i f = s\<lparr>icache := (icache s)[i := f (icache s ! i)]\<rparr>"

lemma bio_frame_fss:
  assumes "bio_frame s s'"
  shows "fs_sb s' = fs_sb s \<and> icache s' = icache s"
proof -
  have eq: "s' = s\<lparr>ptable := ptable s', bufs := bufs s', disk := disk s', dtrace := dtrace s'\<rparr>"
    using assms by (simp add: bio_frame_def)
  show ?thesis by (subst (1 2) eq) simp
qed

definition IBLOCK :: "nat \<Rightarrow> superblock \<Rightarrow> nat" where
  "IBLOCK i sb = i div IPB + sb_inodestart sb"

definition BBLOCK :: "nat \<Rightarrow> superblock \<Rightarrow> nat" where
  "BBLOCK b sb = b div BPB + sb_bmapstart sb"

text \<open>
  The device switch: for a major device number the read and write functions of the driver, which
  take the inode and a byte count or the bytes.  A driver may sleep or panic.
\<close>

type_synonym 's devsw = "int \<Rightarrow> ((nat \<Rightarrow> u32 \<Rightarrow> 's \<Rightarrow> ((int \<times> u8 list) \<times> 's) kres) option \<times>
  (nat \<Rightarrow> u8 list \<Rightarrow> u32 \<Rightarrow> 's \<Rightarrow> (int \<times> 's) kres) option)"

subsection \<open>Blocks\<close>

definition bzero :: "nat \<Rightarrow> nat \<Rightarrow> 'z logs_scheme \<Rightarrow> 'z logs_scheme kres" where
  "bzero dev bno s =
     kbind (bread dev bno s) (\<lambda>(bp, s).
     kbind (log_write bp (set_data bp (replicate BSIZE 0) s)) (brelse bp))"

text \<open>The mask of a bit of the free map, and the search for a clear bit in one block of it.\<close>

definition bmask :: "nat \<Rightarrow> u8" where
  "bmask bi = push_bit (bi mod 8) 1"

definition balloc_scan :: "block \<Rightarrow> nat \<Rightarrow> nat option" where
  "balloc_scan d k = find (\<lambda>bi. d ! (bi div 8) AND bmask bi = 0) [0..<min BPB k]"

function balloc_from :: "nat \<Rightarrow> nat \<Rightarrow> 'z fss_scheme \<Rightarrow> (nat \<times> 'z fss_scheme) kres" where
  "balloc_from dev b s =
     (if b \<ge> sb_size (fs_sb s) then Panic ''balloc: out of blocks''
      else
        kbind (bread dev (BBLOCK b (fs_sb s)) s) (\<lambda>(bp, s1).
        let d = b_data (buf_at s1 bp)
        in case balloc_scan d (sb_size (fs_sb s) - b) of
             Some bi \<Rightarrow>
               kbind (log_write bp (set_data bp (d[bi div 8 := d ! (bi div 8) OR bmask bi]) s1)) (\<lambda>s1.
               kbind (brelse bp s1) (\<lambda>s1.
               kbind (bzero dev (b + bi) s1) (\<lambda>s1.
               OK (b + bi, s1))))
           | None \<Rightarrow>
               kbind (brelse bp s1) (\<lambda>s1.
               balloc_from dev (b + BPB) s1)))"
  by pat_completeness auto
termination
  by (relation "measure (\<lambda>(dev, b, s). sb_size (fs_sb s) - b)")
     (auto dest!: bread_frame brelse_frame bio_frame_fss)

declare balloc_from.simps [simp del]

definition balloc :: "nat \<Rightarrow> 'z fss_scheme \<Rightarrow> (nat \<times> 'z fss_scheme) kres" where
  "balloc dev s = balloc_from dev 0 s"

definition bfree :: "nat \<Rightarrow> nat \<Rightarrow> 'z fss_scheme \<Rightarrow> 'z fss_scheme kres" where
  "bfree dev b s =
     kbind (readsb dev s) (\<lambda>(sb', s).
     let s = s\<lparr>fs_sb := sb'\<rparr>
     in kbind (bread dev (BBLOCK b (fs_sb s)) s) (\<lambda>(bp, s).
        let bi = b mod BPB;
            d = b_data (buf_at s bp)
        in if d ! (bi div 8) AND bmask bi = 0 then Panic ''freeing free block''
           else
             kbind (log_write bp (set_data bp (d[bi div 8 := d ! (bi div 8) AND NOT (bmask bi)]) s)) (brelse bp)))"

subsection \<open>Inodes\<close>

definition iinit :: "nat \<Rightarrow> 'z fss_scheme \<Rightarrow> 'z fss_scheme kres" where
  "iinit dev s =
     (let s = s\<lparr>icache := map (\<lambda>ip. ip\<lparr>i_lock := initsleeplock\<rparr>) (icache s)\<rparr>
      in kbind (readsb dev s) (\<lambda>(sb', s). OK (s\<lparr>fs_sb := sb'\<rparr>)))"

text \<open>The fields of an on-disk inode (struct dinode) at its offset in a block.\<close>

definition dinode_off :: "nat \<Rightarrow> nat" where
  "dinode_off inum = inum mod IPB * 64"

definition put_dinode :: "block \<Rightarrow> nat \<Rightarrow> inode \<Rightarrow> block" where
  "put_dinode d off ip =
     (let d = put16 d off (i_type ip);
          d = put16 d (off + 2) (i_major ip);
          d = put16 d (off + 4) (i_minor ip);
          d = put16 d (off + 6) (i_nlink ip);
          d = put32 d (off + 8) (i_size ip)
      in overwrite d (off + 12) (bytes_of_words (i_addrs ip)))"

definition get_dinode :: "block \<Rightarrow> nat \<Rightarrow> inode \<Rightarrow> inode" where
  "get_dinode d off ip =
     ip\<lparr>i_type := get16 d off, i_major := get16 d (off + 2), i_minor := get16 d (off + 4),
        i_nlink := get16 d (off + 6), i_size := get32 d (off + 8),
        i_addrs := words_of_bytes (slice d (off + 12) 52)\<rparr>"

definition iget :: "nat \<Rightarrow> nat \<Rightarrow> 'z fss_scheme \<Rightarrow> (nat \<times> 'z fss_scheme) kres" where
  "iget dev inum s =
     (case find_idx (\<lambda>ip. i_ref ip > 0 \<and> i_dev ip = dev \<and> i_inum ip = inum) (icache s) of
        Some i \<Rightarrow> OK (i, upd_inode s i (\<lambda>ip. ip\<lparr>i_ref := i_ref ip + 1\<rparr>))
      | None \<Rightarrow>
          (case find_idx (\<lambda>ip. i_ref ip = 0) (icache s) of
             None \<Rightarrow> Panic ''iget: no inodes''
           | Some i \<Rightarrow> OK (i, upd_inode s i (\<lambda>ip. ip\<lparr>i_dev := dev, i_inum := inum, i_ref := 1,
                               i_valid := False, i_busy := False\<rparr>))))"

function ialloc_from :: "nat \<Rightarrow> u16 \<Rightarrow> nat \<Rightarrow> 'z fss_scheme \<Rightarrow> (nat \<times> 'z fss_scheme) kres" where
  "ialloc_from dev type inum s =
     (if inum \<ge> sb_ninodes (fs_sb s) then Panic ''ialloc: no inodes''
      else
        kbind (bread dev (IBLOCK inum (fs_sb s)) s) (\<lambda>(bp, s1).
        let d = b_data (buf_at s1 bp);
            off = dinode_off inum
        in if get16 d off = 0 then
             kbind (log_write bp (set_data bp (put16 (overwrite d off (replicate 64 0)) off type) s1)) (\<lambda>s1.
             kbind (brelse bp s1) (\<lambda>s1.
             iget dev inum s1))
           else
             kbind (brelse bp s1) (\<lambda>s1.
             ialloc_from dev type (inum + 1) s1)))"
  by pat_completeness auto
termination
  by (relation "measure (\<lambda>(dev, type, inum, s). sb_ninodes (fs_sb s) - inum)")
     (auto dest!: bread_frame brelse_frame bio_frame_fss)

declare ialloc_from.simps [simp del]

definition ialloc :: "nat \<Rightarrow> u16 \<Rightarrow> 'z fss_scheme \<Rightarrow> (nat \<times> 'z fss_scheme) kres" where
  "ialloc dev type s = ialloc_from dev type 1 s"

definition iupdate :: "nat \<Rightarrow> 'z fss_scheme \<Rightarrow> 'z fss_scheme kres" where
  "iupdate i s =
     kbind (bread (i_dev (inode_at s i)) (IBLOCK (i_inum (inode_at s i)) (fs_sb s)) s) (\<lambda>(bp, s).
     let d = put_dinode (b_data (buf_at s bp)) (dinode_off (i_inum (inode_at s i))) (inode_at s i)
     in kbind (log_write bp (set_data bp d s)) (brelse bp))"

definition idup :: "nat \<Rightarrow> 'z fss_scheme \<Rightarrow> nat \<times> 'z fss_scheme" where
  "idup i s = (i, upd_inode s i (\<lambda>ip. ip\<lparr>i_ref := i_ref ip + 1\<rparr>))"

definition ilock :: "nat option \<Rightarrow> 'z fss_scheme \<Rightarrow> 'z fss_scheme kres" where
  "ilock p s =
     (case p of
        None \<Rightarrow> Panic ''ilock''
      | Some i \<Rightarrow>
          if i_ref (inode_at s i) < 1 then Panic ''ilock''
          else
            kbind (acquiresleep (ChInodeLock i) (i_lock (inode_at s i)) s) (\<lambda>lk.
            let s = upd_inode s i (\<lambda>ip. ip\<lparr>i_lock := lk\<rparr>)
            in if i_valid (inode_at s i) then OK s
               else
                 kbind (bread (i_dev (inode_at s i)) (IBLOCK (i_inum (inode_at s i)) (fs_sb s)) s) (\<lambda>(bp, s).
                 let d = b_data (buf_at s bp);
                     s = upd_inode s i (get_dinode d (dinode_off (i_inum (inode_at s i))))
                 in kbind (brelse bp s) (\<lambda>s.
                    let s = upd_inode s i (\<lambda>ip. ip\<lparr>i_valid := True\<rparr>)
                    in if i_type (inode_at s i) = 0 then Panic ''ilock: no type'' else OK s))))"

definition iunlock :: "nat option \<Rightarrow> 'z fss_scheme \<Rightarrow> 'z fss_scheme kres" where
  "iunlock p s =
     (case p of
        None \<Rightarrow> Panic ''iunlock''
      | Some i \<Rightarrow>
          if \<not> holdingsleep (i_lock (inode_at s i)) \<or> i_ref (inode_at s i) < 1 then Panic ''iunlock''
          else
            let (lk, s) = releasesleep (ChInodeLock i) (i_lock (inode_at s i)) s
            in OK (upd_inode s i (\<lambda>ip. ip\<lparr>i_lock := lk\<rparr>)))"

subsection \<open>Inode content\<close>

definition bmap :: "nat \<Rightarrow> nat \<Rightarrow> 'z fss_scheme \<Rightarrow> (nat \<times> 'z fss_scheme) kres" where
  "bmap i bn s =
     (let ip = inode_at s i
      in if bn < NDIRECT then
           (if i_addrs ip ! bn = 0
            then kbind (balloc (i_dev ip) s) (\<lambda>(addr, s).
                 OK (addr, upd_inode s i (\<lambda>ip. ip\<lparr>i_addrs := (i_addrs ip)[bn := word_of_nat addr]\<rparr>)))
            else OK (unat (i_addrs ip ! bn), s))
         else if bn - NDIRECT < NINDIRECT then
           kbind (if i_addrs ip ! NDIRECT = 0
                  then kbind (balloc (i_dev ip) s) (\<lambda>(addr, s).
                       OK (addr, upd_inode s i (\<lambda>ip. ip\<lparr>i_addrs := (i_addrs ip)[NDIRECT := word_of_nat addr]\<rparr>)))
                  else OK (unat (i_addrs ip ! NDIRECT), s)) (\<lambda>(addr, s).
           kbind (bread (i_dev ip) addr s) (\<lambda>(bp, s).
           let off = 4 * (bn - NDIRECT)
           in if get32 (b_data (buf_at s bp)) off = 0
              then kbind (balloc (i_dev ip) s) (\<lambda>(addr, s).
                   kbind (log_write bp (set_data bp (put32 (b_data (buf_at s bp)) off (word_of_nat addr)) s)) (\<lambda>s.
                   kbind (brelse bp s) (\<lambda>s.
                   OK (addr, s))))
              else
                let addr = unat (get32 (b_data (buf_at s bp)) off)
                in kbind (brelse bp s) (\<lambda>s. OK (addr, s))))
         else Panic ''bmap: out of range'')"

text \<open>One round of each of the two loops of itrunc.\<close>

definition itrunc_direct :: "nat \<Rightarrow> nat \<Rightarrow> 'z fss_scheme \<Rightarrow> 'z fss_scheme kres" where
  "itrunc_direct i k s =
     (if i_addrs (inode_at s i) ! k \<noteq> 0
      then kbind (bfree (i_dev (inode_at s i)) (unat (i_addrs (inode_at s i) ! k)) s) (\<lambda>s.
           OK (upd_inode s i (\<lambda>ip. ip\<lparr>i_addrs := (i_addrs ip)[k := 0]\<rparr>)))
      else OK s)"

definition itrunc_indirect :: "nat \<Rightarrow> nat \<Rightarrow> nat \<Rightarrow> 'z fss_scheme \<Rightarrow> 'z fss_scheme kres" where
  "itrunc_indirect i bp j s =
     (let a = get32 (b_data (buf_at s bp)) (4 * j)
      in if a \<noteq> 0 then bfree (i_dev (inode_at s i)) (unat a) s else OK s)"

definition itrunc :: "nat \<Rightarrow> 'z fss_scheme \<Rightarrow> 'z fss_scheme kres" where
  "itrunc i s =
     kbind (kfor (itrunc_direct i) [0..<NDIRECT] s) (\<lambda>s.
     kbind (if i_addrs (inode_at s i) ! NDIRECT \<noteq> 0
            then kbind (bread (i_dev (inode_at s i)) (unat (i_addrs (inode_at s i) ! NDIRECT)) s) (\<lambda>(bp, s).
                 kbind (kfor (itrunc_indirect i bp) [0..<NINDIRECT] s) (\<lambda>s.
                 kbind (brelse bp s) (\<lambda>s.
                 kbind (bfree (i_dev (inode_at s i)) (unat (i_addrs (inode_at s i) ! NDIRECT)) s) (\<lambda>s.
                 OK (upd_inode s i (\<lambda>ip. ip\<lparr>i_addrs := (i_addrs ip)[NDIRECT := 0]\<rparr>))))))
            else OK s) (\<lambda>s.
     iupdate i (upd_inode s i (\<lambda>ip. ip\<lparr>i_size := 0\<rparr>))))"

definition iput :: "nat \<Rightarrow> 'z fss_scheme \<Rightarrow> 'z fss_scheme kres" where
  "iput i s =
     (let drop_ref = (\<lambda>s. OK (upd_inode s i (\<lambda>ip. ip\<lparr>i_ref := i_ref ip - 1\<rparr>)))
      in if i_ref (inode_at s i) = 1 \<and> i_valid (inode_at s i) \<and> i_nlink (inode_at s i) = 0 then
           (if i_busy (inode_at s i) then Panic ''iput busy''
            else
              let s = upd_inode s i (\<lambda>ip. ip\<lparr>i_busy := True\<rparr>)
              in kbind (if i_type (inode_at s i) \<noteq> T_SFILE then itrunc i s else OK s) (\<lambda>s.
                 let s = upd_inode s i (\<lambda>ip. ip\<lparr>i_type := 0\<rparr>)
                 in kbind (iupdate i s) (\<lambda>s.
                    let s = upd_inode s i (\<lambda>ip. ip\<lparr>i_valid := False, i_busy := False\<rparr>);
                        s = wakeup s (ChInode i)
                    in drop_ref s)))
         else drop_ref s)"

definition iunlockput :: "nat \<Rightarrow> 'z fss_scheme \<Rightarrow> 'z fss_scheme kres" where
  "iunlockput i s = kbind (iunlock (Some i) s) (iput i)"

record stat =
  st_type :: u16
  st_dev :: int
  st_ino :: nat
  st_nlink :: u16
  st_size :: u32

definition stati :: "nat \<Rightarrow> 'z fss_scheme \<Rightarrow> stat" where
  "stati i s =
     (let ip = inode_at s i
      in \<lparr>st_type = i_type ip, st_dev = int (i_dev ip), st_ino = i_inum ip, st_nlink = i_nlink ip,
          st_size = i_size ip\<rparr>)"

text \<open>The loop of readi for files kept in blocks: \<open>n\<close> bytes from offset \<open>off\<close>.\<close>

function readi_loop :: "nat \<Rightarrow> nat \<Rightarrow> nat \<Rightarrow> 'z fss_scheme \<Rightarrow> (u8 list \<times> 'z fss_scheme) kres" where
  "readi_loop i off n s =
     (if n = 0 then OK ([], s)
      else
        kbind (bmap i (off div BSIZE) s) (\<lambda>(sector_number, s).
        if sector_number = 0 then Panic ''readi: trying to read a block that was never allocated''
        else
          kbind (bread (i_dev (inode_at s i)) sector_number s) (\<lambda>(bp, s).
          let m = min n (BSIZE - off mod BSIZE);
              bytes = slice (b_data (buf_at s bp)) (off mod BSIZE) m
          in kbind (brelse bp s) (\<lambda>s.
             kbind (readi_loop i (off + m) (n - m) s) (\<lambda>(rest, s).
             OK (bytes @ rest, s))))))"
  by pat_completeness auto
termination
  by (relation "measure (\<lambda>(i, off, n, s). n)") auto

declare readi_loop.simps [simp del]

definition readi :: "'z fss_scheme devsw \<Rightarrow> nat \<Rightarrow> u32 \<Rightarrow> u32 \<Rightarrow> 'z fss_scheme \<Rightarrow>
    ((int \<times> u8 list) \<times> 'z fss_scheme) kres" where
  "readi devsw i off n s =
     (let ip = inode_at s i
      in if i_type ip = T_DEV then
           (if sint (i_major ip) < 0 \<or> sint (i_major ip) \<ge> int NDEV then OK ((-1, []), s)
            else case fst (devsw (sint (i_major ip))) of
              None \<Rightarrow> OK ((-1, []), s)
            | Some dread \<Rightarrow> dread i n s)
         else if off > i_size ip \<or> off + n < off then OK ((-1, []), s)
         else
           let n = (if off + n > i_size ip then i_size ip - off else n)
           in if i_type ip = T_SFILE then
                (if unat off + unat n > 52 then Stuck ''addrs''
                 else OK ((sint n, slice (bytes_of_words (i_addrs ip)) (unat off) (unat n)), s))
              else
                kbind (readi_loop i (unat off) (unat n) s) (\<lambda>(bytes, s). OK ((sint n, bytes), s)))"

text \<open>
  The loop of writei, which writes \<open>src\<close> at \<open>off\<close> and returns the number of bytes written: it stops
  early if a block cannot be found.
\<close>

function writei_loop :: "nat \<Rightarrow> nat \<Rightarrow> u8 list \<Rightarrow> 'z fss_scheme \<Rightarrow> (nat \<times> 'z fss_scheme) kres" where
  "writei_loop i off src s =
     (if src = [] then OK (0, s)
      else
        kbind (bmap i (off div BSIZE) s) (\<lambda>(sector_number, s).
        if sector_number = 0 then OK (0, s)
        else
          kbind (bread (i_dev (inode_at s i)) sector_number s) (\<lambda>(bp, s).
          let m = min (length src) (BSIZE - off mod BSIZE);
              d = overwrite (b_data (buf_at s bp)) (off mod BSIZE) (take m src)
          in kbind (bwrite bp (set_data bp d s)) (\<lambda>s.
             kbind (brelse bp s) (\<lambda>s.
             kbind (writei_loop i (off + m) (drop m src) s) (\<lambda>(k, s).
             OK (m + k, s)))))))"
  by pat_completeness auto
termination
  by (relation "measure (\<lambda>(i, off, src, s). length src)") auto

declare writei_loop.simps [simp del]

definition writei :: "'z fss_scheme devsw \<Rightarrow> nat \<Rightarrow> u8 list \<Rightarrow> u32 \<Rightarrow> u32 \<Rightarrow> 'z fss_scheme \<Rightarrow>
    (int \<times> 'z fss_scheme) kres" where
  "writei devsw i src off n s =
     (let ip = inode_at s i
      in if i_type ip = T_DEV then
           (if sint (i_major ip) < 0 \<or> sint (i_major ip) \<ge> int NDEV then OK (-1, s)
            else case snd (devsw (sint (i_major ip))) of
              None \<Rightarrow> OK (-1, s)
            | Some dwrite \<Rightarrow> dwrite i src n s)
         else if off > i_size ip \<or> off + n < off then OK (-1, s)
         else
           let n = (if off + n > of_nat (MAXFILE * BSIZE) then of_nat (MAXFILE * BSIZE) - off else n);
               n = (if i_type ip = T_SFILE \<and> off + n > 52 then 52 - off else n)
           in if length src < unat n then Stuck ''src''
              else
                kbind (if i_type ip = T_SFILE
                       then (if unat off + unat n > 52 then Stuck ''addrs''
                             else OK (n, off + n, upd_inode s i (\<lambda>ip. ip\<lparr>i_addrs :=
                                    words_of_bytes (overwrite (bytes_of_words (i_addrs ip)) (unat off) (take (unat n) src))\<rparr>)))
                       else kbind (writei_loop i (unat off) (take (unat n) src) s) (\<lambda>(k, s).
                            OK (of_nat k, off + of_nat k, s))) (\<lambda>(n, off, s).
                let grow = n > 0 \<and> off > i_size (inode_at s i)
                in if i_type (inode_at s i) = T_SFILE \<or> grow
                   then kbind (iupdate i (if grow then upd_inode s i (\<lambda>ip. ip\<lparr>i_size := off\<rparr>) else s)) (\<lambda>s.
                        OK (sint n, s))
                   else OK (sint n, s)))"

subsection \<open>On-disk inodes\<close>

lemma length_put_dinode:
  assumes "off + 64 \<le> length d" and "length (i_addrs ip) = NDIRECT + 1"
  shows "length (put_dinode d off ip) = length d"
  using assms by (simp add: put_dinode_def Let_def length_overwrite)

text \<open>What the stores of iupdate leave in a block, byte range by byte range.\<close>

lemma slice_put16_other:
  "off + 2 \<le> length d \<Longrightarrow> o2 + n \<le> off \<or> off + 2 \<le> o2 \<Longrightarrow> o2 + n \<le> length d \<Longrightarrow> slice (put16 d off w) o2 n = slice d o2 n"
  by (simp add: put16_def slice_overwrite_other)

lemma slice_put32_other:
  "off + 4 \<le> length d \<Longrightarrow> o2 + n \<le> off \<or> off + 4 \<le> o2 \<Longrightarrow> o2 + n \<le> length d \<Longrightarrow> slice (put32 d off w) o2 n = slice d o2 n"
  by (simp add: put32_def slice_overwrite_other)

lemma slice_put_dinode_other:
  assumes "off + 64 \<le> length d" and "length (i_addrs ip) = NDIRECT + 1"
    and "o2 + n \<le> off \<or> off + 64 \<le> o2" and "o2 + n \<le> length d"
  shows "slice (put_dinode d off ip) o2 n = slice d o2 n"
  using assms by (auto simp: put_dinode_def Let_def slice_overwrite_other slice_put16_other slice_put32_other)

lemma get_dinode_put_dinode:
  assumes "off + 64 \<le> length d" and "length (i_addrs ip) = NDIRECT + 1"
  shows "get_dinode (put_dinode d off ip) off jp =
    jp\<lparr>i_type := i_type ip, i_major := i_major ip, i_minor := i_minor ip, i_nlink := i_nlink ip,
       i_size := i_size ip, i_addrs := i_addrs ip\<rparr>"
proof -
  define d1 where "d1 = put16 d off (i_type ip)"
  define d2 where "d2 = put16 d1 (off + 2) (i_major ip)"
  define d3 where "d3 = put16 d2 (off + 4) (i_minor ip)"
  define d4 where "d4 = put16 d3 (off + 6) (i_nlink ip)"
  define d5 where "d5 = put32 d4 (off + 8) (i_size ip)"
  define d6 where "d6 = overwrite d5 (off + 12) (bytes_of_words (i_addrs ip))"
  have len: "length d1 = length d" "length d2 = length d" "length d3 = length d" "length d4 = length d" "length d5 = length d"
    using assms(1) by (simp_all add: d1_def d2_def d3_def d4_def d5_def)
  have p: "put_dinode d off ip = d6"
    by (simp add: put_dinode_def d1_def d2_def d3_def d4_def d5_def d6_def)
  have la: "length (bytes_of_words (i_addrs ip)) = 52" using assms(2) by simp
  have s6: "slice d6 o2 n = slice d5 o2 n" if "o2 + n \<le> off + 12" for o2 n
    unfolding d6_def using that assms(1) la len by (intro slice_overwrite_other) auto
  have s5: "slice d5 o2 2 = slice d4 o2 2" if "o2 + 2 \<le> off + 8" for o2
    unfolding d5_def using that assms(1) len by (intro slice_put32_other) auto
  have s4: "slice d4 o2 2 = slice d3 o2 2" if "o2 + 2 \<le> off + 6" for o2
    unfolding d4_def using that assms(1) len by (intro slice_put16_other) auto
  have s3: "slice d3 o2 2 = slice d2 o2 2" if "o2 + 2 \<le> off + 4" for o2
    unfolding d3_def using that assms(1) len by (intro slice_put16_other) auto
  have s2: "slice d2 o2 2 = slice d1 o2 2" if "o2 + 2 \<le> off + 2" for o2
    unfolding d2_def using that assms(1) len by (intro slice_put16_other) auto
  have t: "get16 d1 off = i_type ip" "get16 d2 (off + 2) = i_major ip" "get16 d3 (off + 4) = i_minor ip"
    "get16 d4 (off + 6) = i_nlink ip" "get32 d5 (off + 8) = i_size ip"
    using assms(1) len by (simp_all add: d1_def d2_def d3_def d4_def d5_def)
  have a: "slice d6 (off + 12) 52 = bytes_of_words (i_addrs ip)"
    unfolding d6_def using slice_overwrite_same [of "off + 12" "bytes_of_words (i_addrs ip)" d5] la len assms(1) by simp
  show ?thesis
    using t a unfolding p get_dinode_def get16_def get32_def
    by (simp add: s6 s5 s4 s3 s2)
qed

subsection \<open>The cache, the log and the inode table\<close>

lemma log_frame_fss:
  assumes "log_frame s s'"
  shows "fs_sb s' = fs_sb s" and "icache s' = icache s"
proof -
  have eq: "s' = s\<lparr>ptable := ptable s', bufs := bufs s', disk := disk s', dtrace := dtrace s', lh_n := lh_n s', lh_block := lh_block s'\<rparr>"
    using assms by (simp add: log_frame_def)
  show "fs_sb s' = fs_sb s" by (subst eq) simp
  show "icache s' = icache s" by (subst eq) simp
qed

text \<open>Room for \<open>l\<close> more blocks in the log and \<open>h\<close> more buffers in the hands of the caller.\<close>

definition room :: "'z logs_scheme \<Rightarrow> nat \<Rightarrow> nat \<Rightarrow> bool" where
  "room s l h \<longleftrightarrow> card (set (logged s)) + l < log_size s \<and> card (hset s) + card (set (logged s)) + l + h \<le> NBUF \<and>
     outstanding s \<ge> 1"

lemma lh_n_card: "log_ok s \<Longrightarrow> lh_n s = int (card (set (logged s)))"
  by (auto simp: log_ok_def log_shape_def logged_def distinct_card)

lemma bread_room:
  assumes "log_ok s" and "b < disksize s" and "b \<notin> hset s" and "room s l h" and "h > 0"
  shows "\<exists>i s'. bread 1 b s = OK (i, s') \<and> fs_to s s' (blk s) (insert b (hset s)) (set (logged s)) \<and>
    holds s' i b \<and> (\<forall>j c. holds s j c \<longrightarrow> holds s' j c)"
proof -
  have "card (hset s \<union> set (logged s)) \<le> card (hset s) + card (set (logged s))" by (rule card_Un_le)
  then have "card (hset s \<union> set (logged s)) < NBUF" using assms(4,5) by (simp add: room_def)
  from bread_fs [OF assms(1-3) this] show ?thesis .
qed

lemma log_write_room:
  assumes "log_ok s" and "holds s i b" and "length d = BSIZE" and "b \<notin> log_area s" and "room s l h" and "l > 0"
  shows "\<exists>s'. log_write i (set_data i d s) = OK s' \<and>
    fs_to s s' ((blk s)(b := d)) (hset s) (insert b (set (logged s))) \<and> (\<forall>j c. holds s' j c \<longleftrightarrow> holds s j c)"
  using assms lh_n_card [OF assms(1)] by (intro log_write_fs) (auto simp: room_def)

lemma finite_hset [simp]: "finite (bset P s)"
  by (simp add: bset_def)

lemma room_step:
  assumes "fs_to s s' B H L" and "room s l h" and "card L + l' \<le> card (set (logged s)) + l"
    and "card H + card L + l' + h' \<le> card (hset s) + card (set (logged s)) + l + h"
  shows "room s' l' h'"
  using assms fs_toD [OF assms(1)] by (simp add: room_def)

text \<open>Changing one block inside a transaction: read it, store, log it, release it.\<close>

lemma update_block:
  assumes ok: "log_ok s" and b: "b < disksize s" "b \<notin> hset s" "b \<notin> log_area s" and r: "room s l h" "l > 0" "h > 0"
    and f: "length (f (blk s b)) = BSIZE"
  shows "\<exists>i s1 s2 s3. bread 1 b s = OK (i, s1) \<and> log_frame s s1 \<and> b_data (buf_at s1 i) = blk s b \<and>
    log_write i (set_data i (f (blk s b)) s1) = OK s2 \<and> brelse i s2 = OK s3 \<and>
    fs_to s s3 ((blk s)(b := f (blk s b))) (hset s) (insert b (set (logged s)))"
proof -
  obtain i s1 where 1: "bread 1 b s = OK (i, s1)" "holds s1 i b"
    "fs_to s s1 (blk s) (insert b (hset s)) (set (logged s))"
    using bread_room [OF ok b(1,2) r(1,3)] by blast
  note t1 = fs_toD [OF 1(3)]
  have d: "b_data (buf_at s1 i) = blk s b" using holds_data(1) [OF log_ok_bio [OF t1(1)] 1(2)] t1(3) by simp
  have r1: "room s1 l (h - 1)"
    using r b(2) by (intro room_step [OF 1(3) r(1)]) (simp_all add: card_insert_disjoint)
  obtain s2 where 2: "log_write i (set_data i (f (blk s b)) s1) = OK s2" "\<forall>j c. holds s2 j c \<longleftrightarrow> holds s1 j c"
    "fs_to s1 s2 ((blk s1)(b := f (blk s b))) (hset s1) (insert b (set (logged s1)))"
    using log_write_room [OF t1(1) 1(2) f _ r1 r(2)] b(3) t1(7) by auto
  note t2 = fs_toD [OF 2(3)]
  have h2: "holds s2 i b" using 2(2) 1(2) by simp
  obtain s3 where 3: "brelse i s2 = OK s3" "fs_to s2 s3 (blk s2) (hset s2 - {b}) (set (logged s2))"
    using brelse_fs [OF t2(1) h2] by blast
  have "fs_to s s3 (blk s2) (hset s2 - {b}) (set (logged s2))"
    by (rule fs_to_trans [OF 1(3) fs_to_trans [OF 2(3) 3(2)]])
  moreover have "hset s2 - {b} = hset s" using t2(4) t1(4) b(2) by auto
  ultimately have "fs_to s s3 ((blk s)(b := f (blk s b))) (hset s) (insert b (set (logged s)))"
    using t1 t2 by simp
  then show ?thesis using 1(1) 2(1) 3(1) t1(2) d by blast
qed

text \<open>The state of the file system as the operations on inode \<open>i\<close> find it.\<close>

definition iblock_ok :: "'z fss_scheme \<Rightarrow> nat \<Rightarrow> bool" where
  "iblock_ok s i \<longleftrightarrow> i < length (icache s) \<and> i_dev (inode_at s i) = 1 \<and> length (i_addrs (inode_at s i)) = NDIRECT + 1 \<and>
     IBLOCK (i_inum (inode_at s i)) (fs_sb s) < disksize s \<and> IBLOCK (i_inum (inode_at s i)) (fs_sb s) \<notin> log_area s"

lemma dinode_off_le: "dinode_off n + 64 \<le> BSIZE"
  by (simp add: dinode_off_def)

lemma upd_inode_simps [simp]:
  "icache (upd_inode s i f) = (icache s)[i := f (icache s ! i)]" "fs_sb (upd_inode s i f) = fs_sb s"
  "disksize (upd_inode s i f) = disksize s" "log_area (upd_inode s i f) = log_area s" "logged (upd_inode s i f) = logged s"
  "bset P (upd_inode s i f) = bset P s" "outstanding (upd_inode s i f) = outstanding s" "log_size (upd_inode s i f) = log_size s"
  "bio_ok (upd_inode s i f) = bio_ok s" "log_ok (upd_inode s i f) = log_ok s" "room (upd_inode s i f) l h = room s l h"
  "curproc (upd_inode s i f) = curproc s" "ptable (upd_inode s i f) = ptable s" "blk (upd_inode s i f) = blk s"
  "holds (upd_inode s i f) j c = holds s j c" "bufs (upd_inode s i f) = bufs s"
proof -
  show "blk (upd_inode s i f) = blk s" by (rule blk_cong) (simp_all add: upd_inode_def)
qed (simp_all add: upd_inode_def log_area_def logged_def bset_def bio_ok_def log_ok_def log_shape_def room_def holds_def)

lemma iupdate_ok:
  assumes ok: "log_ok s" and ib: "iblock_ok s i" and r: "room s l h" "l > 0" "h > 0"
  defines "b \<equiv> IBLOCK (i_inum (inode_at s i)) (fs_sb s)" and "off \<equiv> dinode_off (i_inum (inode_at s i))"
  assumes nh: "b \<notin> hset s"
  shows "\<exists>s'. iupdate i s = OK s' \<and>
    fs_to s s' ((blk s)(b := put_dinode (blk s b) off (inode_at s i))) (hset s) (insert b (set (logged s)))"
proof -
  let ?f = "\<lambda>d. put_dinode d off (inode_at s i)"
  have "length (?f (blk s b)) = BSIZE"
    using length_put_dinode [of off "blk s b" "inode_at s i"] length_blk [OF log_ok_bio [OF ok]] dinode_off_le ib
    by (simp add: off_def iblock_ok_def)
  then obtain x s1 s2 s3 where 1: "bread 1 b s = OK (x, s1)" "log_frame s s1" "b_data (buf_at s1 x) = blk s b"
    "log_write x (set_data x (?f (blk s b)) s1) = OK s2" "brelse x s2 = OK s3"
    "fs_to s s3 ((blk s)(b := ?f (blk s b))) (hset s) (insert b (set (logged s)))"
    using update_block [OF ok _ nh _ r, of ?f] ib by (auto simp: iblock_ok_def b_def)
  have "iupdate i s = OK s3"
    using 1 ib log_frame_fss [OF 1(2)] by (simp add: iupdate_def iblock_ok_def b_def off_def)
  then show ?thesis using 1(6) by blast
qed

subsection \<open>Small files\<close>

definition sfile_ok :: "'z fss_scheme \<Rightarrow> nat \<Rightarrow> bool" where
  "sfile_ok s i \<longleftrightarrow> iblock_ok s i \<and> i_type (inode_at s i) = T_SFILE \<and> i_size (inode_at s i) \<le> 52"

definition sfile_content :: "'z fss_scheme \<Rightarrow> nat \<Rightarrow> u8 list" where
  "sfile_content s i = take (unat (i_size (inode_at s i))) (bytes_of_words (i_addrs (inode_at s i)))"

lemma unat_add_small: "unat (a :: u32) \<le> m \<Longrightarrow> unat b \<le> n \<Longrightarrow> m + n < 4294967296 \<Longrightarrow> unat (a + b) = unat a + unat b"
  by (simp add: unat_word_ariths)

lemma sint_small: "unat (w :: u32) < 2147483648 \<Longrightarrow> sint w = int (unat w)"
proof -
  assume "unat w < 2147483648"
  then have "int (unat w) < 2147483648" by linarith
  then have "uint w < 2147483648" by simp
  then show ?thesis
    using signed_take_bit_int_eq_self [of 31 "uint w"] by (simp add: sint_uint order_trans [OF _ uint_ge_0])
qed

lemma writei_sfile:
  assumes ok: "log_ok s" and sf: "sfile_ok s i" and r: "room s l h" "l > 0" "h > 0"
    and nh: "IBLOCK (i_inum (inode_at s i)) (fs_sb s) \<notin> hset s"
    and off: "off \<le> i_size (inode_at s i)" and n: "unat off + unat n \<le> 52" and src: "length src = unat n"
  defines "bytes \<equiv> overwrite (bytes_of_words (i_addrs (inode_at s i))) (unat off) src"
  defines "ip \<equiv> (inode_at s i)\<lparr>i_addrs := words_of_bytes bytes,
     i_size := if off + n > i_size (inode_at s i) then off + n else i_size (inode_at s i)\<rparr>"
  shows "\<exists>s'. writei devsw i src off n s = OK (sint n, s') \<and> log_ok s' \<and> icache s' = (icache s)[i := ip] \<and>
    fs_sb s' = fs_sb s \<and> hset s' = hset s \<and> disksize s' = disksize s \<and> log_area s' = log_area s \<and>
    blk s' = (blk s)(IBLOCK (i_inum ip) (fs_sb s) := put_dinode (blk s (IBLOCK (i_inum ip) (fs_sb s))) (dinode_off (i_inum ip)) ip)"
proof -
  have i: "i < length (icache s)" "length (i_addrs (inode_at s i)) = 13" "i_type (inode_at s i) = T_SFILE"
    using sf by (simp_all add: sfile_ok_def iblock_ok_def)
  have on: "unat (off + n) = unat off + unat n" using n by (intro unat_add_small [of off 52 n 52]) auto
  have c1: "\<not> off > i_size (inode_at s i)" "\<not> off + n < off" "\<not> off + n > of_nat (MAXFILE * BSIZE)" "\<not> off + n > 52"
    using off on n by (auto simp: word_less_nat_alt word_le_nat_alt)
  have lb: "length bytes = 52" unfolding bytes_def using i n src by (subst length_overwrite) auto
  let ?s2 = "upd_inode s i (\<lambda>_. ip)"
    and ?g = "\<lambda>ip. ip\<lparr>i_addrs := words_of_bytes (overwrite (bytes_of_words (i_addrs ip)) (unat off) src)\<rparr>"
  have ibk: "iblock_ok ?s2 i"
    using sf i lb by (simp add: sfile_ok_def iblock_ok_def ip_def)
  have "off + n > i_size (inode_at s i) \<Longrightarrow> n > 0"
    using off by (cases "n = 0") (auto simp: word_neq_0_conv)
  then have st: "n > 0 \<and> off + n > i_size (inode_at s i) \<Longrightarrow>
      upd_inode (upd_inode s i ?g) i (\<lambda>p. p\<lparr>i_size := off + n\<rparr>) = ?s2"
      "\<not> (n > 0 \<and> off + n > i_size (inode_at s i)) \<Longrightarrow> upd_inode s i ?g = ?s2"
    using i by (auto simp: upd_inode_def ip_def bytes_def)
  obtain s' where s': "iupdate i ?s2 = OK s'"
    "fs_to ?s2 s' ((blk ?s2)(IBLOCK (i_inum ip) (fs_sb s) := put_dinode (blk ?s2 (IBLOCK (i_inum ip) (fs_sb s))) (dinode_off (i_inum ip)) ip))
       (hset ?s2) (insert (IBLOCK (i_inum ip) (fs_sb s)) (set (logged ?s2)))"
    using iupdate_ok [OF _ ibk, of l h] ok r nh i by (auto simp: ip_def)
  have ipf: "i_type ip = T_SFILE" "\<not> (n > 0 \<and> off + n > i_size (inode_at s i)) \<Longrightarrow> i_size ip = i_size (inode_at s i)"
    using i \<open>off + n > i_size (inode_at s i) \<Longrightarrow> n > 0\<close> by (auto simp: ip_def)
  have "writei devsw i src off n s = OK (sint n, s')"
    using c1 i n src st s'(1) ipf by (cases "n > 0 \<and> off + n > i_size (inode_at s i)") (auto simp: writei_def Let_def)
  moreover note t = fs_toD [OF s'(2)] log_frame_fss [OF fs_toD(2) [OF s'(2)]]
  ultimately show ?thesis using t by (intro exI [of _ s']) simp
qed

lemma readi_sfile:
  assumes sf: "sfile_ok s i" and off: "off \<le> i_size (inode_at s i)" and n: "unat off + unat n \<le> unat (i_size (inode_at s i))"
  shows "readi devsw i off n s = OK ((int (unat n), slice (sfile_content s i) (unat off) (unat n)), s)"
proof -
  have sz: "unat (i_size (inode_at s i)) \<le> 52" "i_type (inode_at s i) = T_SFILE"
    using sf by (simp_all add: sfile_ok_def word_le_nat_alt)
  have on: "unat (off + n) = unat off + unat n" using n sz by (intro unat_add_small [of off 52 n 52]) auto
  have "\<not> off > i_size (inode_at s i)" "\<not> off + n < off" "\<not> off + n > i_size (inode_at s i)"
    using off on n by (auto simp: word_less_nat_alt word_le_nat_alt)
  moreover have "slice (sfile_content s i) (unat off) (unat n) =
      slice (bytes_of_words (i_addrs (inode_at s i))) (unat off) (unat n)"
    using n by (simp add: sfile_content_def slice_def drop_take min_absorb1)
  ultimately show ?thesis
    using sz n sint_small [of n] by (simp add: readi_def Let_def)
qed

lemma take_overwrite:
  assumes "off + length src \<le> length xs" and "off \<le> z"
  shows "take (max z (off + length src)) (overwrite xs off src) = take off (take z xs) @ src @ drop (off + length src) (take z xs)"
proof (cases "z \<le> off + length src")
  case True then show ?thesis using assms by (cases src) (auto simp: overwrite_def max_def min_def drop_take)
next
  case False
  then have "length src \<le> z - off" "z - off - length src = z - (off + length src)" by auto
  then show ?thesis using assms False by (simp add: overwrite_def max_def drop_take min_absorb1 min_absorb2)
qed

lemma sfile_content_write:
  assumes len: "length (i_addrs (inode_at s i)) = 13" and i: "i < length (icache s)"
    and off: "unat off \<le> unat (i_size (inode_at s i))" and n: "unat off + length src \<le> 52"
  defines "bytes \<equiv> overwrite (bytes_of_words (i_addrs (inode_at s i))) (unat off) src"
  assumes s': "icache s' = (icache s)[i := (inode_at s i)\<lparr>i_addrs := words_of_bytes bytes, i_size := sz\<rparr>]"
    and sz: "unat sz = max (unat (i_size (inode_at s i))) (unat off + length src)" and le: "unat (i_size (inode_at s i)) \<le> 52"
  shows "sfile_content s' i = take (unat off) (sfile_content s i) @ src @ drop (unat off + length src) (sfile_content s i)"
proof -
  let ?b = "bytes_of_words (i_addrs (inode_at s i))"
  have lb: "length ?b = 52" using len by simp
  have "length bytes = 52" unfolding bytes_def using n lb by (subst length_overwrite) auto
  then have "sfile_content s' i = take (unat sz) bytes"
    using i s' by (simp add: sfile_content_def)
  also have "\<dots> = take (unat off) (sfile_content s i) @ src @ drop (unat off + length src) (sfile_content s i)"
    using take_overwrite [of "unat off" src ?b "unat (i_size (inode_at s i))"] off sz lb n by (simp add: bytes_def sfile_content_def)
  finally show ?thesis .
qed

lemma sfile_write:
  assumes "log_ok s" and "sfile_ok s i" and "room s 1 1" and "IBLOCK (i_inum (inode_at s i)) (fs_sb s) \<notin> hset s"
    and "off \<le> i_size (inode_at s i)" and "unat off + unat n \<le> 52" and "length src = unat n"
  shows "\<exists>s'. writei devsw i src off n s = OK (int (unat n), s') \<and> sfile_ok s' i \<and>
    readi devsw i off n s' = OK ((int (unat n), src), s') \<and>
    sfile_content s' i = take (unat off) (sfile_content s i) @ src @ drop (unat off + unat n) (sfile_content s i) \<and>
    get_dinode (blk s' (IBLOCK (i_inum (inode_at s i)) (fs_sb s))) (dinode_off (i_inum (inode_at s i))) (inode_at s' i) = inode_at s' i \<and>
    (\<forall>b. b \<noteq> IBLOCK (i_inum (inode_at s i)) (fs_sb s) \<longrightarrow> blk s' b = blk s b)"
proof -
  let ?ib = "IBLOCK (i_inum (inode_at s i)) (fs_sb s)" and ?o = "dinode_off (i_inum (inode_at s i))"
  let ?bytes = "overwrite (bytes_of_words (i_addrs (inode_at s i))) (unat off) src"
  let ?sz = "if off + n > i_size (inode_at s i) then off + n else i_size (inode_at s i)"
  let ?ip = "(inode_at s i)\<lparr>i_addrs := words_of_bytes ?bytes, i_size := ?sz\<rparr>"
  obtain s' where w: "writei devsw i src off n s = OK (sint n, s')" "log_ok s'" "icache s' = (icache s)[i := ?ip]"
    "fs_sb s' = fs_sb s" "disksize s' = disksize s" "log_area s' = log_area s" "blk s' = (blk s)(?ib := put_dinode (blk s ?ib) ?o ?ip)"
    using writei_sfile [OF assms(1-3) zero_less_one zero_less_one assms(4-7), of devsw] by auto
  have i: "i < length (icache s)" "length (i_addrs (inode_at s i)) = 13" "unat (i_size (inode_at s i)) \<le> 52"
    using assms(2) by (simp_all add: sfile_ok_def iblock_ok_def word_le_nat_alt)
  have on: "unat (off + n) = unat off + unat n" using assms(6) by (intro unat_add_small [of off 52 n 52]) auto
  have sz: "unat ?sz = max (unat (i_size (inode_at s i))) (unat off + length src)"
    using on assms(7) by (auto simp: word_less_nat_alt)
  have lb: "length ?bytes = 52" using i assms(6,7) by (subst length_overwrite) auto
  have ip: "inode_at s' i = ?ip" using w(3) i by simp
  have offle: "unat off \<le> unat (i_size (inode_at s i))" using assms(5) by (simp add: word_le_nat_alt)
  have n: "sint n = int (unat n)" using assms(6) by (intro sint_small) simp
  have cont: "sfile_content s' i = take (unat off) (sfile_content s i) @ src @ drop (unat off + length src) (sfile_content s i)"
    using i assms(6,7) offle by (intro sfile_content_write [OF i(2,1) offle _ w(3) sz i(3)]) simp
  have sf: "sfile_ok s' i"
    using assms(2,6,7) w(3-6) ip lb i on by (auto simp: sfile_ok_def iblock_ok_def word_le_nat_alt)
  have "unat off + unat n \<le> unat (i_size (inode_at s' i))" using sz assms(7) by (simp add: ip)
  then have "readi devsw i off n s' = OK ((int (unat n), slice (sfile_content s' i) (unat off) (unat n)), s')"
    using offle sz by (intro readi_sfile [OF sf]) (auto simp: ip word_le_nat_alt)
  moreover have "slice (sfile_content s' i) (unat off) (unat n) = src"
    using offle assms(7) i(2,3) unfolding cont by (simp add: slice_def sfile_content_def)
  moreover have "get_dinode (blk s' ?ib) ?o (inode_at s' i) = inode_at s' i"
    using get_dinode_put_dinode [of ?o "blk s ?ib" ?ip "inode_at s' i"] dinode_off_le
      length_blk [OF log_ok_bio [OF assms(1)]] lb by (simp add: w(7) ip)
  ultimately show ?thesis using w n sf cont assms(7) by (intro exI [of _ s']) simp
qed

lemma sfile_write_cut:
  assumes "i_type (inode_at s i) = T_SFILE" and "i_size (inode_at s i) \<le> 52" and "off \<le> i_size (inode_at s i)"
    and "unat off + unat n > 52" and "unat off + unat n < 2 ^ 32" and "length src = unat n"
  shows "writei devsw i src off n s = writei devsw i (take (52 - unat off) src) off (52 - off) s"
    and "unat (52 - off) = 52 - unat off" and "unat off \<le> 52"
proof -
  have on: "unat (off + n) = unat off + unat n" using assms(5) by (simp add: unat_word_ariths)
  show o52: "unat off \<le> 52" using assms(2,3) by (simp add: word_le_nat_alt)
  show k: "unat (52 - off) = 52 - unat off" using o52 by (simp add: unat_sub word_le_nat_alt)
  have c: "\<not> off > i_size (inode_at s i)" "\<not> off + n < off" "off + n > 52" "off + (52 - off) = 52" "\<not> 52 < off"
    using assms(3,4) on o52 by (auto simp: word_less_nat_alt word_le_nat_alt)
  moreover have "\<not> length src < 52 - unat off" "length (take (52 - unat off) src) = 52 - unat off" using assms(4,6) by auto
  ultimately show "writei devsw i src off n s = writei devsw i (take (52 - unat off) src) off (52 - off) s"
    using assms(1) k o52 by (simp add: writei_def Let_def min_absorb1 del: length_take)
qed

subsection \<open>Properties\<close>

text \<open>
  Property C13. Writing to a small file works inside the inode.  A write of at most 52 bytes in total
  succeeds, replaces exactly the written range of the content, grows the size when it passes the
  end, keeps the size within the 52 bytes of the address array, and reading the range back returns
  the bytes written; the inode block on the disk, as the cache shows it, holds the new inode, and no
  data block is touched.
\<close>

theorem small_file_write_read:
  assumes "log_ok s" and "sfile_ok s i" and "room s 1 1" and "IBLOCK (i_inum (inode_at s i)) (fs_sb s) \<notin> hset s"
    and "off \<le> i_size (inode_at s i)" and "unat off + unat n \<le> 52" and "length src = unat n"
  shows "\<exists>s'. writei devsw i src off n s = OK (int (unat n), s') \<and> sfile_ok s' i \<and>
    readi devsw i off n s' = OK ((int (unat n), src), s') \<and>
    sfile_content s' i = take (unat off) (sfile_content s i) @ src @ drop (unat off + unat n) (sfile_content s i) \<and>
    get_dinode (blk s' (IBLOCK (i_inum (inode_at s i)) (fs_sb s))) (dinode_off (i_inum (inode_at s i))) (inode_at s' i) = inode_at s' i \<and>
    (\<forall>b. b \<noteq> IBLOCK (i_inum (inode_at s i)) (fs_sb s) \<longrightarrow> blk s' b = blk s b)"
  by (rule sfile_write [OF assms])

text \<open>A state with one small file open, inside an operation, on the disk that mkfs lays out.\<close>

definition mkfs_sb :: superblock where
  "mkfs_sb = \<lparr>sb_size = 1000, sb_nblocks = 941, sb_ninodes = 200, sb_nlog = 30, sb_logstart = 2, sb_inodestart = 32, sb_bmapstart = 58\<rparr>"

definition free_inode :: inode where
  "free_inode = \<lparr>i_dev = 0, i_inum = 0, i_ref = 0, i_lock = initsleeplock, i_valid = False, i_busy = False, i_type = 0,
     i_major = 0, i_minor = 0, i_nlink = 0, i_size = 0, i_addrs = replicate 13 0\<rparr>"

definition boot_sfile :: fss where
  "boot_sfile = logs.extend boot_logs \<lparr>fs_sb = mkfs_sb,
     icache = (replicate 50 free_inode)[0 := free_inode\<lparr>i_dev := 1, i_inum := 5, i_ref := 1, i_valid := True, i_type := T_SFILE, i_nlink := 1\<rparr>]\<rparr>"

lemma boot_sfile_fields:
  "bufs boot_sfile = bufs boot_logs" "disk boot_sfile = disk boot_logs" "disksize boot_sfile = disksize boot_logs"
  "curproc boot_sfile = curproc boot_logs" "log_start boot_sfile = 2" "log_size boot_sfile = LOGSIZE" "outstanding boot_sfile = 1"
  "lh_n boot_sfile = lh_n boot_logs" "lh_block boot_sfile = lh_block boot_logs" "log_dev boot_sfile = log_dev boot_logs" "fs_sb boot_sfile = mkfs_sb"
  "length (icache boot_sfile) = 50"
  "inode_at boot_sfile 0 = free_inode\<lparr>i_dev := 1, i_inum := 5, i_ref := 1, i_valid := True, i_type := T_SFILE, i_nlink := 1\<rparr>"
  by (simp_all add: boot_sfile_def logs.defs boot_logs_fields del: replicate.simps replicate_Suc)

lemma boot_sfile_ok:
  shows "log_ok boot_sfile" and "hset boot_sfile = {}" and "sfile_ok boot_sfile 0" and "room boot_sfile 1 1"
    and "IBLOCK (i_inum (inode_at boot_sfile 0)) (fs_sb boot_sfile) = 32" and "sfile_content boot_sfile 0 = []"
proof -
  note f = boot_sfile_fields
  show h: "hset boot_sfile = {}" using boot_logs_ok(2) by (simp add: bset_def f)
  have d: "dset boot_sfile = dset boot_logs" by (simp add: bset_def f)
  have l: "logged boot_sfile = logged boot_logs" by (simp add: logged_def f)
  have b: "bio_ok boot_sfile = bio_ok boot_logs" by (simp add: bio_ok_def f)
  show "log_ok boot_sfile"
    using boot_logs_ok(1) by (simp add: log_ok_def log_shape_def l d b f log_area_def boot_logs_fields)
  show ib: "IBLOCK (i_inum (inode_at boot_sfile 0)) (fs_sb boot_sfile) = 32"
    by (simp add: f IBLOCK_def mkfs_sb_def)
  show "sfile_ok boot_sfile 0"
    using ib by (simp add: sfile_ok_def iblock_ok_def f free_inode_def boot_logs_fields log_area_def)
  show "room boot_sfile 1 1" by (simp add: room_def h l boot_logs_ok(5) f)
  show "sfile_content boot_sfile 0 = []" by (simp add: sfile_content_def f free_inode_def)
qed

theorem small_file_write_read_witness:
  "\<exists>s'. writei (\<lambda>_. (None, None)) 0 [104, 105] 0 2 boot_sfile = OK (2, s') \<and> sfile_content s' 0 = [104, 105]"
  using small_file_write_read [of boot_sfile 0 0 2 "[104, 105]" "\<lambda>_. (None, None)"] boot_sfile_ok by auto

text \<open>
  Property C29. A small file never outgrows its inode: a write that would pass the 52 bytes of the
  address array is cut there, so writei returns fewer bytes than it was asked to write, and no
  write that fits in the type of the offset makes it go outside the array.
\<close>

theorem small_file_write_cut:
  assumes "log_ok s" and "sfile_ok s i" and "room s 1 1" and "IBLOCK (i_inum (inode_at s i)) (fs_sb s) \<notin> hset s"
    and "off \<le> i_size (inode_at s i)" and "unat off + unat n > 52" and "unat off + unat n < 2 ^ 32" and "length src = unat n"
  shows "\<exists>s'. writei devsw i src off n s = OK (52 - int (unat off), s') \<and> sfile_ok s' i \<and>
    52 - int (unat off) < int (unat n) \<and>
    sfile_content s' i = take (unat off) (sfile_content s i) @ take (52 - unat off) src"
proof -
  have t: "i_type (inode_at s i) = T_SFILE" "i_size (inode_at s i) \<le> 52" using assms(2) by (simp_all add: sfile_ok_def)
  note c = sfile_write_cut [OF t assms(5-8)]
  have "length (sfile_content s i) \<le> 52" using t by (simp add: sfile_content_def word_le_nat_alt)
  then show ?thesis
    using sfile_write [OF assms(1-5), of "52 - off" "take (52 - unat off) src" devsw] c assms(6,8)
    by (auto simp: of_nat_diff simp del: of_nat_unat uint_nat)
qed

theorem small_file_write_cut_witness:
  "\<exists>s'. writei (\<lambda>_. (None, None)) 0 (replicate 60 7) 0 60 boot_sfile = OK (52, s') \<and> sfile_content s' 0 = replicate 52 7"
  using small_file_write_cut [of boot_sfile 0 0 60 "replicate 60 7" "\<lambda>_. (None, None)"] boot_sfile_ok
  by (auto simp del: replicate.simps)

subsection \<open>Filling the log\<close>

lemma bzero_fs:
  assumes "log_ok s" and "b < disksize s" "b \<notin> hset s" "b \<notin> log_area s" and "room s l h" "l > 0" "h > 0"
  shows "\<exists>s'. bzero 1 b s = OK s' \<and> fs_to s s' ((blk s)(b := replicate BSIZE 0)) (hset s) (insert b (set (logged s)))"
  using update_block [OF assms, of "\<lambda>_. replicate BSIZE 0"] by (auto simp: bzero_def simp del: replicate.simps)

lemma bzero_all:
  assumes "log_ok s" and "hset s = {}" and "outstanding s \<ge> 1" and "distinct bs"
    and "\<forall>b \<in> set bs. b < disksize s \<and> b \<notin> log_area s \<and> b \<notin> set (logged s)"
    and "card (set (logged s)) + length bs < log_size s"
  shows "\<exists>s'. kfor (bzero 1) bs s = OK s' \<and> log_ok s' \<and> log_frame s s' \<and> hset s' = {} \<and> set (logged s') = set (logged s) \<union> set bs"
  using assms
proof (induction bs arbitrary: s)
  case (Cons b bs)
  have "log_size s \<le> LOGSIZE" using Cons.prems(1) by (simp add: log_ok_def log_shape_def)
  then have r: "room s 1 1" using Cons.prems(2,3,6) by (simp add: room_def)
  obtain t where t: "bzero 1 b s = OK t" "fs_to s t ((blk s)(b := replicate BSIZE 0)) (hset s) (insert b (set (logged s)))"
    using bzero_fs [OF Cons.prems(1) _ _ _ r, of b] Cons.prems(2,5) by auto
  note d = fs_toD [OF t(2)]
  have "\<exists>s'. kfor (bzero 1) bs t = OK s' \<and> log_ok s' \<and> log_frame t s' \<and> hset s' = {} \<and> set (logged s') = set (logged t) \<union> set bs"
    using Cons.prems d by (intro Cons.IH) auto
  then obtain s' where s': "kfor (bzero 1) bs t = OK s'" "log_ok s'" "log_frame t s'" "hset s' = {}"
    "set (logged s') = set (logged t) \<union> set bs" by blast
  then show ?case using t(1) d(5) log_frame_trans [OF d(2) s'(3)] by (intro exI [of _ s']) simp
qed simp

lemma begin_op_three:
  assumes "lh_n s = 0" and "outstanding s = 0" and "\<not> committing s"
  shows "kbind (begin_op s) (\<lambda>s. kbind (begin_op s) begin_op) = OK (s\<lparr>outstanding := 3\<rparr>)"
  using assms by (simp add: begin_op_def)

text \<open>
  Property C28. The reservation of begin_op is one block too generous for the log that mkfs makes.
  From any state with an empty log of \<open>LOGSIZE\<close> blocks, one of which is the header, three operations
  are admitted, each of which may write \<open>MAXOPBLOCKS\<close> blocks.  Whichever distinct blocks outside the
  log they choose and in whatever order, when each stays within its allowance all their writes but
  the last succeed, here those of bzero, and the last one panics in log_write.
\<close>

theorem begin_op_overcommits:
  assumes "log_ok s" and "hset s = {}" and "log_size s = LOGSIZE"
    and "lh_n s = 0" and "outstanding s = 0" and "\<not> committing s"
    and "distinct bs" and "length bs = 3 * MAXOPBLOCKS" and "\<forall>b \<in> set bs. b < disksize s \<and> b \<notin> log_area s"
  shows "\<exists>s3 s'. kbind (begin_op s) (\<lambda>s. kbind (begin_op s) begin_op) = OK s3 \<and>
    kfor (bzero 1) (butlast bs) s3 = OK s' \<and> bzero 1 (last bs) s' = Panic ''too big a transaction''"
proof -
  let ?s = "s\<lparr>outstanding := 3\<rparr>"
  have l: "logged ?s = []" using assms(4) by (simp add: logged_def)
  have f: "hset ?s = {}" "log_area ?s = log_area s" using assms(2) by (simp_all add: bset_def log_area_def)
  have ok: "log_ok ?s" using assms(1) by (simp add: log_ok_def log_shape_def logged_def log_area_def bio_ok_def bset_def)
  have last: "last bs \<in> set bs" using assms(8) by (intro last_in_set) auto
  have b: "\<forall>b \<in> set (butlast bs). b < disksize s \<and> b \<notin> log_area s" using assms(9) in_set_butlastD by metis
  obtain s' where s': "kfor (bzero 1) (butlast bs) ?s = OK s'" "log_ok s'" "log_frame ?s s'" "hset s' = {}"
    "set (logged s') = set (butlast bs)"
    using bzero_all [of ?s "butlast bs"] ok f l assms(3,7,8) b by (auto simp: distinct_butlast)
  have c: "card (set (logged s')) = 29" using s'(5) assms(7,8) by (simp add: distinct_card distinct_butlast)
  then have n: "lh_n s' = 29" using lh_n_card [OF s'(2)] by simp
  obtain i t where t: "bread 1 (last bs) s' = OK (i, t)" "fs_to s' t (blk s') (insert (last bs) (hset s')) (set (logged s'))"
    using bread_fs [OF s'(2), of "last bs"] s'(4) c last assms(9) log_frame_simps [OF s'(3)] by auto
  have "lh_n t = 29" using lh_n_card [OF fs_toD(1) [OF t(2)]] fs_toD(5) [OF t(2)] c by simp
  moreover have "log_size t = LOGSIZE" using fs_toD(9) [OF t(2)] log_frame_simps [OF s'(3)] assms(3) by simp
  ultimately have "bzero 1 (last bs) s' = Panic ''too big a transaction''" using t(1) by (simp add: bzero_def log_write_def set_data_def upd_buf_def)
  then show ?thesis using begin_op_three [OF assms(4-6)] s'(1) by blast
qed

theorem begin_op_overcommits_witness:
  "\<exists>s3 s'. kbind (begin_op (boot_logs\<lparr>outstanding := 0\<rparr>)) (\<lambda>s. kbind (begin_op s) begin_op) = OK s3 \<and>
     kfor (bzero 1) [100..<129] s3 = OK s' \<and> bzero 1 129 s' = Panic ''too big a transaction''"
proof -
  note f = boot_logs_fields
  let ?s = "boot_logs\<lparr>outstanding := 0\<rparr>"
  have "log_ok ?s" "hset ?s = {}"
    using boot_logs_ok(1,2) by (simp_all add: log_ok_def log_shape_def logged_def log_area_def bio_ok_def bset_def)
  moreover have "butlast [100..<130] = [100..<129]" "last [100..<130] = (129 :: nat)" by simp_all
  ultimately show ?thesis
    using begin_op_overcommits [of ?s "[100..<130]"] by (simp add: f log_area_def del: upt_rec_numeral)
qed

end
