(* ===== verification/Dir.thy ===== *)
theory Dir
  imports Fs
begin

text \<open>
  Directories and path names, the second half of fs.c.  A directory is a file of 16-byte entries
  (struct dirent: an inode number and a name of at most \<open>DIRSIZ\<close> bytes).  A path is the list of the
  bytes of the C string before its NUL, and the buffer of \<open>DIRSIZ\<close> bytes that receives a path element
  is a list of 14 bytes.
\<close>


text \<open>The byte that a pointer into a string reads: the NUL at its end.\<close>

definition cur :: "u8 list \<Rightarrow> u8" where
  "cur p = (case p of [] \<Rightarrow> 0 | c # _ \<Rightarrow> c)"

definition carr_of :: "u8 list \<Rightarrow> carr" where
  "carr_of xs i = (if i < length xs then xs ! i else 0)"

subsection \<open>Directory entries\<close>

record dirent =
  de_inum :: u16
  de_name :: "u8 list"

definition dirent_bytes :: "dirent \<Rightarrow> u8 list" where
  "dirent_bytes de = le16 (de_inum de) @ de_name de"

definition dirent_of :: "u8 list \<Rightarrow> dirent" where
  "dirent_of bs = \<lparr>de_inum = get16 bs 0, de_name = drop 2 bs\<rparr>"

definition namecmp :: "u8 list \<Rightarrow> u8 list \<Rightarrow> int" where
  "namecmp s t = strncmp (carr_of s) (carr_of t) DIRSIZ"

text \<open>
  The offsets of the entries of a directory of size \<open>sz\<close>.  The two loops below run over them: the
  directory is locked, and reading it does not change its size (\<open>readi_size\<close> below).
\<close>

definition dir_offs :: "u32 \<Rightarrow> nat list" where
  "dir_offs sz = map (\<lambda>k. 16 * k) [0..<(unat sz + 15) div 16]"

text \<open>Reading the entry at an offset: both loops panic if it cannot be read.\<close>

definition read_dirent :: "'z fss_scheme devsw \<Rightarrow> nat \<Rightarrow> nat \<Rightarrow> 'z fss_scheme \<Rightarrow> (dirent \<times> 'z fss_scheme) kres" where
  "read_dirent devsw dp off s =
     kbind (readi devsw dp (word_of_nat off) 16 s) (\<lambda>((r, bytes), s).
     if r \<noteq> 16 then Panic ''dirlink read'' else OK (dirent_of bytes, s))"

primrec dirlookup_scan :: "'z fss_scheme devsw \<Rightarrow> nat \<Rightarrow> u8 list \<Rightarrow> nat list \<Rightarrow> 'z fss_scheme \<Rightarrow>
    ((nat \<times> nat) option \<times> 'z fss_scheme) kres" where
  "dirlookup_scan devsw dp name [] s = OK (None, s)"
| "dirlookup_scan devsw dp name (off # offs) s =
     kbind (read_dirent devsw dp off s) (\<lambda>(de, s).
     if de_inum de = 0 then dirlookup_scan devsw dp name offs s
     else if namecmp name (de_name de) = 0 then
       kbind (iget (i_dev (inode_at s dp)) (unat (de_inum de)) s) (\<lambda>(ip, s).
       OK (Some (ip, off), s))
     else dirlookup_scan devsw dp name offs s)"

definition dirlookup :: "'z fss_scheme devsw \<Rightarrow> nat \<Rightarrow> u8 list \<Rightarrow> 'z fss_scheme \<Rightarrow>
    ((nat \<times> nat) option \<times> 'z fss_scheme) kres" where
  "dirlookup devsw dp name s =
     (if i_type (inode_at s dp) \<noteq> T_DIR then Panic ''dirlookup not DIR''
      else dirlookup_scan devsw dp name (dir_offs (i_size (inode_at s dp))) s)"

text \<open>The search of dirlink for a free entry: \<open>end_off\<close> is the offset it ends with if there is none.\<close>

primrec dirlink_scan :: "'z fss_scheme devsw \<Rightarrow> nat \<Rightarrow> nat \<Rightarrow> nat list \<Rightarrow> 'z fss_scheme \<Rightarrow> (nat \<times> 'z fss_scheme) kres" where
  "dirlink_scan devsw dp end_off [] s = OK (end_off, s)"
| "dirlink_scan devsw dp end_off (off # offs) s =
     kbind (read_dirent devsw dp off s) (\<lambda>(de, s).
     if de_inum de = 0 then OK (off, s) else dirlink_scan devsw dp end_off offs s)"

definition dirlink :: "'z fss_scheme devsw \<Rightarrow> nat \<Rightarrow> u8 list \<Rightarrow> nat \<Rightarrow> 'z fss_scheme \<Rightarrow> (int \<times> 'z fss_scheme) kres" where
  "dirlink devsw dp name inum s =
     kbind (dirlookup devsw dp name s) (\<lambda>(r, s).
     case r of
       Some (ip, _) \<Rightarrow> kbind (iput ip s) (\<lambda>s. OK (-1, s))
     | None \<Rightarrow>
         let offs = dir_offs (i_size (inode_at s dp))
         in kbind (dirlink_scan devsw dp (16 * length offs) offs s) (\<lambda>(off, s).
            let de = \<lparr>de_inum = word_of_nat inum, de_name = map (strncpy (\<lambda>_. 0) (carr_of name) (int DIRSIZ)) [0..<DIRSIZ]\<rparr>
            in kbind (writei devsw dp (dirent_bytes de) (word_of_nat off) 16 s) (\<lambda>(r, s).
               if r \<noteq> 16 then Panic ''dirlink'' else OK (0, s))))"

subsection \<open>Paths\<close>

abbreviation (input) "SLASH \<equiv> (47 :: u8)"

definition skipelem :: "u8 list \<Rightarrow> u8 list \<Rightarrow> (u8 list \<times> u8 list) option" where
  "skipelem path name =
     (let path = dropWhile (\<lambda>c. c = SLASH) path
      in if cur path = 0 then None
         else
           let s = takeWhile (\<lambda>c. c \<noteq> SLASH) path;
               path = dropWhile (\<lambda>c. c \<noteq> SLASH) path;
               len = length s;
               name = (if len \<ge> DIRSIZ then overwrite name 0 (take DIRSIZ s) else overwrite (overwrite name 0 s) len [0]);
               path = dropWhile (\<lambda>c. c = SLASH) path
           in Some (path, name))"

lemma skipelem_shorter: "skipelem path name = Some (path', name') \<Longrightarrow> length path' < length path"
proof -
  assume a: "skipelem path name = Some (path', name')"
  let ?p = "dropWhile (\<lambda>c. c = SLASH) path"
  have c: "cur ?p \<noteq> 0" and eq: "path' = dropWhile (\<lambda>c. c = SLASH) (dropWhile (\<lambda>c. c \<noteq> SLASH) ?p)"
    using a by (auto simp: skipelem_def Let_def split: if_splits)
  then have "?p \<noteq> []" by (metis cur_def list.simps(4))
  then obtain c r where p: "?p = c # r" "c \<noteq> SLASH"
    using hd_dropWhile [of "\<lambda>c. c = SLASH" path] by (cases ?p) auto
  have "length path' \<le> length r"
    unfolding eq p(1) using p(2) by (simp add: le_trans [OF length_dropWhile_le length_dropWhile_le])
  moreover have "length (c # r) \<le> length path" using length_dropWhile_le [of "\<lambda>c. c = SLASH" path] p by simp
  ultimately show ?thesis by simp
qed

text \<open>
  The loop of namex, from the inode \<open>ip\<close>: the result is the inode found, if any, and the buffer with
  the last element.
\<close>

function namex_loop :: "'z fss_scheme devsw \<Rightarrow> nat \<Rightarrow> u8 list \<Rightarrow> bool \<Rightarrow> u8 list \<Rightarrow> 'z fss_scheme \<Rightarrow>
    ((nat option \<times> u8 list) \<times> 'z fss_scheme) kres" where
  "namex_loop devsw ip path nameiparent name s =
     (case skipelem path name of
        None \<Rightarrow>
          if nameiparent then kbind (iput ip s) (\<lambda>s. OK ((None, name), s)) else OK ((Some ip, name), s)
      | Some (path, name) \<Rightarrow>
          kbind (ilock (Some ip) s) (\<lambda>s.
          if i_type (inode_at s ip) \<noteq> T_DIR then kbind (iunlockput ip s) (\<lambda>s. OK ((None, name), s))
          else if nameiparent \<and> cur path = 0 then kbind (iunlock (Some ip) s) (\<lambda>s. OK ((Some ip, name), s))
          else
            kbind (dirlookup devsw ip name s) (\<lambda>(r, s).
            case r of
              None \<Rightarrow> kbind (iunlockput ip s) (\<lambda>s. OK ((None, name), s))
            | Some (next, _) \<Rightarrow> kbind (iunlockput ip s) (\<lambda>s. namex_loop devsw next path nameiparent name s))))"
  by pat_completeness auto
termination
  by (relation "measure (\<lambda>(devsw, ip, path, nameiparent, name, s). length path)") (auto dest: skipelem_shorter)

declare namex_loop.simps [simp del]

definition namex :: "'z fss_scheme devsw \<Rightarrow> u8 list \<Rightarrow> bool \<Rightarrow> u8 list \<Rightarrow> 'z fss_scheme \<Rightarrow>
    ((nat option \<times> u8 list) \<times> 'z fss_scheme) kres" where
  "namex devsw path nameiparent name s =
     kbind (if cur path = SLASH then iget ROOTDEV ROOTINO s
            else
              (case curproc s of
                 None \<Rightarrow> Stuck ''proc''
               | Some p \<Rightarrow>
                   (case cwd (proc_at s p) of None \<Rightarrow> Stuck ''cwd'' | Some c \<Rightarrow> OK (idup c s)))) (\<lambda>(ip, s).
     namex_loop devsw ip path nameiparent name s)"

definition namei :: "'z fss_scheme devsw \<Rightarrow> u8 list \<Rightarrow> 'z fss_scheme \<Rightarrow> (nat option \<times> 'z fss_scheme) kres" where
  "namei devsw path s =
     kbind (namex devsw path False (replicate DIRSIZ 0) s) (\<lambda>((ip, _), s). OK (ip, s))"

definition nameiparent :: "'z fss_scheme devsw \<Rightarrow> u8 list \<Rightarrow> u8 list \<Rightarrow> 'z fss_scheme \<Rightarrow>
    ((nat option \<times> u8 list) \<times> 'z fss_scheme) kres" where
  "nameiparent devsw path name s = namex devsw path True name s"

text \<open>Reading a file of blocks changes no size, whatever state it starts from.\<close>

lemma log_write_icache: "log_write b s = OK s' \<Longrightarrow> icache s' = icache s"
  by (auto simp: log_write_def upd_buf_def Let_def split: if_splits option.splits)

lemma set_data_icache [simp]: "icache (set_data b d s) = icache s"
  by (simp add: set_data_def upd_buf_def)

lemma bio_icache:
  "bread dev b s = OK (i, s') \<Longrightarrow> icache s' = icache s" "brelse i s = OK s' \<Longrightarrow> icache s' = icache s"
  by (auto dest!: bread_frame brelse_frame bio_frame_fss)

lemma bzero_icache: "bzero dev b s = OK s' \<Longrightarrow> icache s' = icache s"
  by (auto simp: bzero_def kbind_OK_iff dest!: bio_icache log_write_icache)

lemma balloc_from_icache: "balloc_from dev b s = OK (a, s') \<Longrightarrow> icache s' = icache s"
proof (induction dev b s rule: balloc_from.induct)
  case (1 dev b s)
  let ?scan = "\<lambda>bp s1. balloc_scan (b_data (buf_at s1 bp)) (sb_size (fs_sb s) - b)"
  from "1.prems" have lt: "\<not> b \<ge> sb_size (fs_sb s)" by (subst (asm) balloc_from.simps) (auto split: if_splits)
  then obtain bp s1 where 1: "bread dev (BBLOCK b (fs_sb s)) s = OK (bp, s1)"
    using "1.prems" by (subst (asm) balloc_from.simps) (auto simp: kbind_OK_iff)
  show ?case
  proof (cases "?scan bp s1")
    case None
    then obtain s2 where 2: "brelse bp s1 = OK s2" "balloc_from dev (b + BPB) s2 = OK (a, s')"
      using "1.prems" lt 1 by (subst (asm) balloc_from.simps) (auto simp: kbind_OK_iff)
    then show ?thesis using "1.IH" [OF lt 1 refl refl None 2(1)] bio_icache 1 by metis
  next
    case (Some bi)
    then show ?thesis
      using "1.prems" lt 1 bio_icache(1) [OF 1]
      by (subst (asm) balloc_from.simps) (auto simp: kbind_OK_iff Let_def dest!: bio_icache(2) log_write_icache bzero_icache)
  qed
qed

lemma bmap_size:
  assumes "bmap i bn s = OK (a, s')"
  shows "map i_size (icache s') = map i_size (icache s)"
proof -
  have b: "balloc dev t = OK (x, t') \<Longrightarrow> icache t' = icache t" for dev t x t'
    unfolding balloc_def by (rule balloc_from_icache)
  have u: "map i_size ((icache t)[i := (inode_at t i)\<lparr>i_addrs := x\<rparr>]) = map i_size (icache t)" for t x
    by (cases "i < length (icache t)") (simp_all add: map_update list_update_same_conv list_update_beyond)
  show ?thesis
    using assms by (auto simp: bmap_def kbind_OK_iff Let_def upd_inode_def u split: if_splits dest!: bio_icache log_write_icache b)
qed

lemma readi_loop_size:
  "readi_loop i off n s = OK (bs, s') \<Longrightarrow> map i_size (icache s') = map i_size (icache s)"
proof (induction i off n s arbitrary: bs rule: readi_loop.induct)
  case (1 i off n s)
  show ?case
  proof (cases "n = 0")
    case True
    then show ?thesis using "1.prems" by (subst (asm) readi_loop.simps) simp
  next
    case False
    let ?m = "min n (BSIZE - off mod BSIZE)"
    from "1.prems" False obtain a s1 bp s2 s3 r where
      1: "bmap i (off div BSIZE) s = OK (a, s1)" "a \<noteq> 0" "bread (i_dev (inode_at s1 i)) a s1 = OK (bp, s2)"
        "brelse bp s2 = OK s3" "readi_loop i (off + ?m) (n - ?m) s3 = OK (r, s')"
      by (subst (asm) readi_loop.simps) (auto simp: kbind_OK_iff Let_def split: if_splits)
    show ?thesis
      using "1.IH" [OF False 1(1) refl 1(2,3) refl refl refl 1(4,5)] bmap_size [OF 1(1)] bio_icache(1) [OF 1(3)] bio_icache(2) [OF 1(4)]
      by simp
  qed
qed

lemma readi_size:
  assumes "readi devsw i off n s = OK (r, s')" and "i_type (inode_at s i) \<noteq> T_DEV"
  shows "map i_size (icache s') = map i_size (icache s)"
  using assms by (auto simp: readi_def Let_def kbind_OK_iff split: if_splits dest!: readi_loop_size)

subsection \<open>Names\<close>

text \<open>The name that a buffer of \<open>DIRSIZ\<close> bytes, or a C string used as one, stands for.\<close>

definition cname :: "u8 list \<Rightarrow> u8 list" where
  "cname xs = takeWhile (\<lambda>c. c \<noteq> 0) (take DIRSIZ xs)"

lemma carr_of_tl: "(\<lambda>i. carr_of xs (Suc i)) = carr_of (tl xs)"
  by (cases xs) (auto simp: carr_of_def)

lemma strncmp_carr_of:
  "strncmp (carr_of s) (carr_of t) n = 0 \<longleftrightarrow> takeWhile (\<lambda>c. c \<noteq> 0) (take n s) = takeWhile (\<lambda>c. c \<noteq> 0) (take n t)"
proof (induction n arbitrary: s t)
  case (Suc n)
  have h: "carr_of xs 0 = cur xs" for xs by (cases xs) (simp_all add: carr_of_def cur_def)
  have u: "uint a = uint b \<longleftrightarrow> a = b" for a b :: u8 by (simp only: word_uint_eq_iff)
  show ?case
    by (cases s; cases t) (auto simp: carr_of_tl Suc.IH h cur_def uint_0_iff u)
qed simp

lemma namecmp_eq_0: "namecmp s t = 0 \<longleftrightarrow> cname s = cname t"
  by (simp add: namecmp_def cname_def strncmp_carr_of)

subsection \<open>Path elements\<close>

text \<open>The elements of a path: what stands between slashes, empty parts left out.\<close>

fun split_slash :: "u8 list \<Rightarrow> u8 list list" where
  "split_slash [] = [[]]"
| "split_slash (c # cs) =
     (if c = SLASH then [] # split_slash cs
      else (case split_slash cs of e # es \<Rightarrow> (c # e) # es | [] \<Rightarrow> [[c]]))"

definition path_elems :: "u8 list \<Rightarrow> u8 list list" where
  "path_elems path = filter (\<lambda>e. e \<noteq> []) (split_slash path)"

lemma split_slash_takeWhile:
  "split_slash p = takeWhile (\<lambda>c. c \<noteq> SLASH) p #
     (case dropWhile (\<lambda>c. c \<noteq> SLASH) p of [] \<Rightarrow> [] | _ # r \<Rightarrow> split_slash r)"
  by (induction p) (auto split: list.splits)

lemma path_elems_slashes: "path_elems (dropWhile (\<lambda>c. c = SLASH) p) = path_elems p"
  by (induction p) (auto simp: path_elems_def)

lemma path_elems_first:
  assumes "p \<noteq> []" and "hd p \<noteq> SLASH"
  shows "path_elems p = takeWhile (\<lambda>c. c \<noteq> SLASH) p # path_elems (dropWhile (\<lambda>c. c \<noteq> SLASH) p)"
proof -
  have "takeWhile (\<lambda>c. c \<noteq> SLASH) p \<noteq> []" using assms by (cases p) auto
  moreover have "path_elems q = filter (\<lambda>e. e \<noteq> []) (case q of [] \<Rightarrow> [] | _ # r \<Rightarrow> split_slash r)"
    if "q = [] \<or> hd q = SLASH" for q
    using that by (cases q) (auto simp: path_elems_def)
  moreover have "dropWhile (\<lambda>c. c \<noteq> SLASH) p = [] \<or> hd (dropWhile (\<lambda>c. c \<noteq> SLASH) p) = SLASH"
    using hd_dropWhile [of "\<lambda>c. c \<noteq> SLASH" p] by fastforce
  ultimately show ?thesis
    by (subst path_elems_def, subst split_slash_takeWhile) simp
qed

lemma path_elems_eq_Nil: "path_elems p = [] \<longleftrightarrow> dropWhile (\<lambda>c. c = SLASH) p = []"
proof
  assume "path_elems p = []"
  then show "dropWhile (\<lambda>c. c = SLASH) p = []"
    using path_elems_first [of "dropWhile (\<lambda>c. c = SLASH) p"] hd_dropWhile [of "\<lambda>c. c = SLASH" p]
    by (auto simp: path_elems_slashes)
next
  assume "dropWhile (\<lambda>c. c = SLASH) p = []"
  then show "path_elems p = []" using path_elems_slashes [of p] by (simp add: path_elems_def del: dropWhile_eq_Nil_conv)
qed

lemma cur_eq_0: "0 \<notin> set p \<Longrightarrow> cur p = 0 \<longleftrightarrow> p = []"
  by (cases p) (auto simp: cur_def)

lemma cname_skipelem_buffer:
  assumes "0 \<notin> set e" and "length name = 14"
  shows "cname (if length e \<ge> DIRSIZ then overwrite name 0 (take DIRSIZ e) else overwrite (overwrite name 0 e) (length e) [0]) = take DIRSIZ e"
proof (cases "length e \<ge> DIRSIZ")
  case True
  then have "overwrite name 0 (take DIRSIZ e) = take DIRSIZ e" using assms(2) by (simp add: overwrite_def)
  then show ?thesis using True assms(1) by (auto simp: cname_def takeWhile_eq_all_conv dest: in_set_takeD)
next
  case False
  then have "overwrite (overwrite name 0 e) (length e) [0] = e @ 0 # drop (Suc (length e)) name"
    using assms(2) by (simp add: overwrite_def)
  moreover obtain k where "14 - length e = Suc k" using False by (metis Suc_diff_Suc not_less)
  ultimately show ?thesis using False assms(1) by (simp add: cname_def takeWhile_append)
qed

subsection \<open>Properties\<close>

text \<open>
  Property C30. skipelem walks a path element by element, for every path: it returns nothing exactly
  when no element is left; otherwise it stores the next element, cut to \<open>DIRSIZ\<close> bytes, as the name in
  the buffer, and returns a rest whose elements are the remaining ones and whose first byte is NUL
  exactly when there are none.
\<close>

theorem skipelem_walks_path:
  assumes "0 \<notin> set path" and "length name = DIRSIZ"
  shows "case path_elems path of
      [] \<Rightarrow> skipelem path name = None
    | e # es \<Rightarrow> \<exists>path' name'. skipelem path name = Some (path', name') \<and> cname name' = take DIRSIZ e \<and>
        length name' = DIRSIZ \<and> path_elems path' = es \<and> (cur path' = 0 \<longleftrightarrow> es = [])"
proof -
  let ?p = "dropWhile (\<lambda>c. c = SLASH) path"
  have z: "0 \<notin> set ?p" using assms(1) by (meson set_dropWhileD)
  show ?thesis
  proof (cases "?p = []")
    case True
    then show ?thesis using path_elems_eq_Nil [of path] by (simp add: skipelem_def cur_def del: dropWhile_eq_Nil_conv)
  next
    case False
    let ?e = "takeWhile (\<lambda>c. c \<noteq> SLASH) ?p" and ?q = "dropWhile (\<lambda>c. c \<noteq> SLASH) ?p"
    let ?r = "dropWhile (\<lambda>c. c = SLASH) ?q"
    define n where "n = (if length ?e \<ge> DIRSIZ then overwrite name 0 (take DIRSIZ ?e) else overwrite (overwrite name 0 ?e) (length ?e) [0])"
    have el: "path_elems path = ?e # path_elems ?r"
      using path_elems_first [OF False] hd_dropWhile [OF False] by (simp add: path_elems_slashes)
    have ze: "0 \<notin> set ?e" and zr: "0 \<notin> set ?r" using z by (meson set_takeWhileD set_dropWhileD)+
    have "cur ?p \<noteq> 0" using cur_eq_0 [OF z] False by simp
    then have "skipelem path name = Some (?r, n)" by (simp add: skipelem_def Let_def n_def)
    moreover have "cur ?r = 0 \<longleftrightarrow> ?r = []" by (rule cur_eq_0 [OF zr])
    moreover have "length n = DIRSIZ" using assms(2) by (simp add: n_def overwrite_def)
    moreover have "cname n = take DIRSIZ ?e" unfolding n_def by (rule cname_skipelem_buffer [OF ze assms(2)])
    moreover have "path_elems ?r = [] \<longleftrightarrow> ?r = []" using path_elems_eq_Nil [of ?q] by (simp only: path_elems_slashes)
    ultimately have "skipelem path name = Some (?r, n) \<and> cname n = take DIRSIZ ?e \<and> length n = DIRSIZ \<and>
        path_elems ?r = path_elems ?r \<and> (cur ?r = 0 \<longleftrightarrow> path_elems ?r = [])" by blast
    then show ?thesis unfolding el list.case by blast
  qed
qed

theorem skipelem_walks_path_witness:
  "\<exists>path' name'. skipelem [47, 97, 47, 47, 98] (replicate DIRSIZ 7) = Some (path', name') \<and> cname name' = [97] \<and> path_elems path' = [[98]]"
  using skipelem_walks_path [of "[47, 97, 47, 47, 98]" "replicate DIRSIZ 7"] by (auto simp: path_elems_def)

end
