(* ===== verification/Ring.thy ===== *)
theory Ring
  imports Xv6_Prelude
begin

text \<open>
  Ring buffers as the kernel keeps them: an array whose size divides the range of the 32-bit counters
  that index it, so that the counters may wrap around.  \<open>rbuf N d r n\<close> is the list of the \<open>n\<close> elements
  from counter value \<open>r\<close> on.  The pipes and the console input use it.
\<close>

definition rbuf :: "nat \<Rightarrow> 'a list \<Rightarrow> u32 \<Rightarrow> nat \<Rightarrow> 'a list" where
  "rbuf N d r n = map (\<lambda>k. d ! ((unat r + k) mod N)) [0..<n]"

lemma length_rbuf [simp]: "length (rbuf N d r n) = n"
  by (simp add: rbuf_def)

lemma rbuf_0 [simp]: "rbuf N d r 0 = []"
  by (simp add: rbuf_def)

lemma rbuf_index:
  assumes "N dvd 4294967296"
  shows "(unat (r + of_nat m) + k) mod N = (unat (r :: u32) + m + k) mod N"
proof -
  have "unat (r + of_nat m) mod N = (unat r + m) mod 4294967296 mod N"
    by (simp add: unat_word_ariths unsigned_of_nat take_bit_eq_mod mod_simps)
  also have "\<dots> = (unat r + m) mod N" by (rule mod_mod_cancel [OF assms])
  finally show ?thesis by (metis mod_add_left_eq)
qed

lemma rbuf_append:
  "N dvd 4294967296 \<Longrightarrow> rbuf N d r (m + n) = rbuf N d r m @ rbuf N d (r + of_nat m) n"
proof -
  assume N: "N dvd 4294967296"
  have "[0..<m + n] = [0..<m] @ map (\<lambda>k. m + k) [0..<n]" by (induction n) simp_all
  then show ?thesis by (simp add: rbuf_def rbuf_index [OF N] add.assoc)
qed

lemma rbuf_Suc:
  "N dvd 4294967296 \<Longrightarrow> rbuf N d r (Suc n) = d ! (unat r mod N) # rbuf N d (r + 1) n"
  using rbuf_append [of N d r 1 n] by (simp add: rbuf_def)

lemma mod_neq:
  assumes "k < m" and "m < N"
  shows "(a + k) mod N \<noteq> (a + m) mod (N :: nat)"
  using assms mod_eq_dvd_iff_nat [of "a + k" "a + m" N] nat_dvd_not_less [of "m - k" N] by auto

lemma rbuf_update_other:
  assumes "n \<le> m" and "m < N"
  shows "rbuf N (d[(unat r + m) mod N := c]) r n = rbuf N d r n"
  unfolding rbuf_def using assms mod_neq [of _ m N "unat r", symmetric] by (intro map_cong) auto

lemma rbuf_put:
  assumes "N dvd 4294967296" and "length d = N" and "n < N"
  shows "rbuf N (d[unat (r + of_nat n) mod N := c]) r (Suc n) = rbuf N d r n @ [c]"
proof -
  have i: "unat (r + of_nat n) mod N = (unat r + n) mod N" using rbuf_index [OF assms(1), of r n 0] by simp
  have "rbuf N e r (Suc n) = rbuf N e r n @ [e ! ((unat r + n) mod N)]" for e :: "'a list" by (simp add: rbuf_def)
  then show ?thesis unfolding i using assms rbuf_update_other [of n n N d r c] by simp
qed

lemma counter_step: "unat (w - r :: u32) < 4294967295 \<Longrightarrow> unat (w + 1 - r) = Suc (unat (w - r))"
proof -
  assume "unat (w - r) < 4294967295"
  then have "unat ((w - r) + 1) = Suc (unat (w - r))" by (simp add: unat_word_ariths)
  then show ?thesis by (simp add: algebra_simps)
qed

lemma counter_of_nat: "(r :: u32) + of_nat (unat (w - r)) = w"
  by simp

end
