(* ===== verification/Pipe.thy ===== *)
theory Pipe
  imports Dir Ring
begin

text \<open>
  Pipes, pipe.c.  A pipe lives in a page of its own; the model keeps the pipes in a store indexed by
  that address.  A call that has to wait hands back the state in which the process is asleep and, for
  a writer, how far it has come: after the wakeup the loop goes on from there.  The counters
  \<open>nread\<close> and \<open>nwrite\<close> are 32-bit and wrap around.
\<close>

subsection \<open>State\<close>

abbreviation (input) "PIPESIZE \<equiv> (512 :: nat)"

record pipe =
  p_data :: "u8 list"
  nread :: u32
  nwrite :: u32
  readopen :: bool
  writeopen :: bool

record pips = fss +
  pipes :: "u32 \<Rightarrow> pipe option"

definition upd_pipe :: "'z pips_scheme \<Rightarrow> u32 \<Rightarrow> (pipe \<Rightarrow> pipe) \<Rightarrow> 'z pips_scheme" where
  "upd_pipe s p f = s\<lparr>pipes := (pipes s)(p := map_option f (pipes s p))\<rparr>"

text \<open>How a call ends: it returns, or its process is asleep, to go on at an index.\<close>

datatype ('a, 's) run = Done 'a 's | Waits nat 's

definition ChNread :: "u32 \<Rightarrow> chan" where
  "ChNread p = ChPipeRead (unat p)"

definition ChNwrite :: "u32 \<Rightarrow> chan" where
  "ChNwrite p = ChPipeWrite (unat p)"

definition proc_killed :: "'z procs_scheme \<Rightarrow> bool kres" where
  "proc_killed s = (case curproc s of None \<Rightarrow> Stuck ''proc'' | Some i \<Rightarrow> OK (killed (proc_at s i)))"

subsection \<open>Closing, writing and reading\<close>

definition pipeclose :: "u32 \<Rightarrow> bool \<Rightarrow> 'z pips_scheme \<Rightarrow> 'z pips_scheme kres" where
  "pipeclose p writable s =
     (let s = (if writable then wakeup (upd_pipe s p (\<lambda>q. q\<lparr>writeopen := False\<rparr>)) (ChNread p)
               else wakeup (upd_pipe s p (\<lambda>q. q\<lparr>readopen := False\<rparr>)) (ChNwrite p))
      in case pipes s p of
           None \<Rightarrow> Stuck ''pipe''
         | Some q \<Rightarrow>
             if \<not> readopen q \<and> \<not> writeopen q then kfree (s\<lparr>pipes := (pipes s)(p := None)\<rparr>) p
             else OK s)"

definition pipe_put :: "u8 \<Rightarrow> pipe \<Rightarrow> pipe" where
  "pipe_put c q = q\<lparr>p_data := (p_data q)[unat (nwrite q) mod PIPESIZE := c], nwrite := nwrite q + 1\<rparr>"

definition pipe_full :: "pipe \<Rightarrow> bool" where
  "pipe_full q \<longleftrightarrow> nwrite q = nread q + 512"

function pipewrite_from :: "u32 \<Rightarrow> u8 list \<Rightarrow> int \<Rightarrow> nat \<Rightarrow> 'z pips_scheme \<Rightarrow> (int, 'z pips_scheme) run kres" where
  "pipewrite_from p addr n i s =
     (if int i \<ge> n then OK (Done n (wakeup s (ChNread p)))
      else
        (case pipes s p of
           None \<Rightarrow> Stuck ''pipe''
         | Some q \<Rightarrow>
             if pipe_full q then
               kbind (proc_killed s) (\<lambda>k.
               if \<not> readopen q \<or> k then OK (Done (-1) s)
               else kbind (sleep_begin (wakeup s (ChNread p)) (ChNwrite p) True) (\<lambda>s. OK (Waits i s)))
             else if i \<ge> length addr then Stuck ''addr''
             else pipewrite_from p addr n (i + 1) (upd_pipe s p (pipe_put (addr ! i)))))"
  by pat_completeness auto
termination
  by (relation "measure (\<lambda>(p, addr, n, i, s). nat (n - int i))") auto

declare pipewrite_from.simps [simp del]

definition pipewrite :: "u32 \<Rightarrow> u8 list \<Rightarrow> int \<Rightarrow> 'z pips_scheme \<Rightarrow> (int, 'z pips_scheme) run kres" where
  "pipewrite p addr n s = pipewrite_from p addr n 0 s"

definition pipe_get :: "pipe \<Rightarrow> u8 \<times> pipe" where
  "pipe_get q = (p_data q ! (unat (nread q) mod PIPESIZE), q\<lparr>nread := nread q + 1\<rparr>)"

text \<open>The copy loop of piperead: the bytes it delivers and the pipe after it.\<close>

primrec piperead_copy :: "nat \<Rightarrow> pipe \<Rightarrow> u8 list \<times> pipe" where
  "piperead_copy 0 q = ([], q)"
| "piperead_copy (Suc n) q =
     (if nread q = nwrite q then ([], q)
      else
        let (c, q) = pipe_get q;
            (cs, q) = piperead_copy n q
        in (c # cs, q))"

definition piperead :: "u32 \<Rightarrow> int \<Rightarrow> 'z pips_scheme \<Rightarrow> (int \<times> u8 list, 'z pips_scheme) run kres" where
  "piperead p n s =
     (case pipes s p of
        None \<Rightarrow> Stuck ''pipe''
      | Some q \<Rightarrow>
          if nread q = nwrite q \<and> writeopen q then
            kbind (proc_killed s) (\<lambda>k.
            if k then OK (Done (-1, []) s)
            else kbind (sleep_begin s (ChNread p) True) (\<lambda>s. OK (Waits 0 s)))
          else
            let (bytes, q) = piperead_copy (nat n) q
            in OK (Done (int (length bytes), bytes) (wakeup (upd_pipe s p (\<lambda>_. q)) (ChNwrite p))))"

subsection \<open>Bounded queues\<close>

text \<open>What the two loops rely on: a bounded first-in first-out queue.\<close>

locale bounded_queue =
  fixes ok :: "'q \<Rightarrow> bool" and contents :: "'q \<Rightarrow> 'a list" and full :: "'q \<Rightarrow> bool" and empty :: "'q \<Rightarrow> bool"
    and put :: "'a \<Rightarrow> 'q \<Rightarrow> 'q" and get :: "'q \<Rightarrow> 'a \<times> 'q" and cap :: nat
  assumes bound: "ok q \<Longrightarrow> length (contents q) \<le> cap"
    and full_iff: "ok q \<Longrightarrow> full q \<longleftrightarrow> length (contents q) = cap"
    and empty_iff: "ok q \<Longrightarrow> empty q \<longleftrightarrow> contents q = []"
    and put: "ok q \<Longrightarrow> \<not> full q \<Longrightarrow> ok (put c q) \<and> contents (put c q) = contents q @ [c]"
    and get: "ok q \<Longrightarrow> \<not> empty q \<Longrightarrow> ok (snd (get q)) \<and> contents q = fst (get q) # contents (snd (get q))"
begin

lemma put_all:
  "ok q \<Longrightarrow> length (contents q) + length cs \<le> cap \<Longrightarrow>
     ok (fold put cs q) \<and> contents (fold put cs q) = contents q @ cs"
proof (induction cs arbitrary: q)
  case (Cons c cs)
  have "ok (put c q)" "contents (put c q) = contents q @ [c]"
    using put [of q c] full_iff [of q] Cons.prems by auto
  then show ?case using Cons.IH [of "put c q"] Cons.prems by simp
qed simp

end

subsection \<open>The ring of bytes is a bounded queue\<close>

definition pipe_len :: "pipe \<Rightarrow> nat" where
  "pipe_len q = unat (nwrite q - nread q)"

definition pipe_q :: "pipe \<Rightarrow> u8 list" where
  "pipe_q q = rbuf PIPESIZE (p_data q) (nread q) (pipe_len q)"

definition pipe_ok :: "pipe \<Rightarrow> bool" where
  "pipe_ok q \<longleftrightarrow> length (p_data q) = PIPESIZE \<and> pipe_len q \<le> PIPESIZE"

lemma length_pipe_q [simp]: "length (pipe_q q) = pipe_len q"
  by (simp add: pipe_q_def)

lemma pipe_full_len: "pipe_full q \<longleftrightarrow> pipe_len q = PIPESIZE"
proof -
  have "pipe_full q \<longleftrightarrow> nwrite q - nread q = 512" by (auto simp: pipe_full_def algebra_simps)
  also have "\<dots> \<longleftrightarrow> unat (nwrite q - nread q) = 512" by (simp add: word_unat_eq_iff)
  finally show ?thesis by (simp add: pipe_len_def)
qed

lemma pipe_put_q:
  assumes "pipe_ok q" and "\<not> pipe_full q"
  shows "pipe_ok (pipe_put c q) \<and> pipe_q (pipe_put c q) = pipe_q q @ [c]"
proof -
  have l: "pipe_len q < PIPESIZE" using assms by (simp add: pipe_ok_def pipe_full_len)
  then have l': "pipe_len (pipe_put c q) = Suc (pipe_len q)"
    using counter_step [of "nwrite q" "nread q"] by (simp add: pipe_len_def pipe_put_def)
  then have "pipe_q (pipe_put c q) = pipe_q q @ [c]"
    using rbuf_put [of PIPESIZE "p_data q" "pipe_len q" "nread q" c] l assms(1)
    by (simp add: pipe_q_def pipe_ok_def) (simp add: pipe_put_def pipe_len_def)
  then show ?thesis using l l' assms(1) by (simp add: pipe_ok_def) (simp add: pipe_put_def)
qed

lemma pipe_get_q:
  assumes "pipe_ok q" and "nread q \<noteq> nwrite q"
  shows "pipe_ok (snd (pipe_get q)) \<and> pipe_q q = fst (pipe_get q) # pipe_q (snd (pipe_get q))"
proof -
  have "unat (nwrite q - nread q) > 0" using assms(2) by (simp add: unat_gt_0)
  then have "unat (nwrite q - nread q) = Suc (unat (nwrite q - nread q - 1))"
    by (simp add: unat_minus_one unat_gt_0)
  then have l: "pipe_len q = Suc (pipe_len (snd (pipe_get q)))"
    by (simp add: pipe_len_def pipe_get_def algebra_simps)
  then have "pipe_q q = fst (pipe_get q) # pipe_q (snd (pipe_get q))"
    using rbuf_Suc [of PIPESIZE "p_data q" "nread q"] by (simp add: pipe_q_def) (simp add: pipe_get_def)
  then show ?thesis using l assms(1) by (simp add: pipe_ok_def) (simp add: pipe_get_def)
qed

interpretation pq: bounded_queue pipe_ok pipe_q pipe_full "\<lambda>q. nread q = nwrite q" pipe_put pipe_get PIPESIZE
proof unfold_locales
  show "pipe_ok q \<Longrightarrow> pipe_full q \<longleftrightarrow> length (pipe_q q) = PIPESIZE" for q
    by (simp add: pipe_full_len)
  show "pipe_ok q \<Longrightarrow> (nread q = nwrite q) = (pipe_q q = [])" for q
    by (auto simp: pipe_len_def unat_eq_0 simp flip: length_0_conv)
qed (use pipe_put_q pipe_get_q in \<open>auto simp: pipe_ok_def\<close>)

subsection \<open>The two loops\<close>

lemma pipes_upd_pipe [simp]:
  "pipes (upd_pipe s p f) p = map_option f (pipes s p)" "ptable (upd_pipe s p f) = ptable s" "curproc (upd_pipe s p f) = curproc s"
  by (simp_all add: upd_pipe_def)

lemma pipes_wakeup [simp]: "pipes (wakeup s c) = pipes s" "curproc (wakeup s c) = curproc s"
  by (simp_all add: wakeup_def wakeup1_def)

lemma upd_pipe_upd_pipe [simp]: "upd_pipe (upd_pipe s p f) p g = upd_pipe s p (g \<circ> f)"
  by (simp add: upd_pipe_def option.map_comp)

lemma upd_pipe_id [simp]: "upd_pipe s p (\<lambda>q. q) = s" "upd_pipe s p id = s"
  by (simp_all add: upd_pipe_def option.map_ident option.map_id0)

lemma proc_killed_upd_pipe [simp]: "proc_killed (upd_pipe s p f) = proc_killed s"
  by (simp add: proc_killed_def split: option.split)

text \<open>
  What a run of the loop of pipewrite does: it stores as many of the bytes as there is room for, and
  then it is done, gives up, or sleeps.
\<close>

definition pipe_room :: "pipe \<Rightarrow> nat" where
  "pipe_room q = PIPESIZE - pipe_len q"

definition pipe_stored :: "u32 \<Rightarrow> u8 list \<Rightarrow> 'z pips_scheme \<Rightarrow> 'z pips_scheme" where
  "pipe_stored p cs s = upd_pipe s p (fold pipe_put cs)"

lemma pipewrite_from_run:
  assumes "pipes s p = Some q" and "pipe_ok q" and "i + length cs \<le> length addr" and "slice addr i (length cs) = cs"
    and "n = int (i + length cs)"
  shows "pipewrite_from p addr n i s =
    (if length cs \<le> pipe_room q then OK (Done n (wakeup (pipe_stored p cs s) (ChNread p)))
     else let s1 = pipe_stored p (take (pipe_room q) cs) s
          in kbind (proc_killed s) (\<lambda>k.
             if \<not> readopen q \<or> k then OK (Done (-1) s1)
             else kbind (sleep_begin (wakeup s1 (ChNread p)) (ChNwrite p) True) (\<lambda>s. OK (Waits (i + pipe_room q) s))))"
  using assms
proof (induction cs arbitrary: i s q)
  case Nil
  then show ?case by (subst pipewrite_from.simps) (simp add: pipe_stored_def)
next
  case (Cons c cs)
  have full: "pipe_full q \<longleftrightarrow> pipe_room q = 0"
    using pq.full_iff [OF Cons.prems(2)] pq.bound [OF Cons.prems(2)] by (auto simp: pipe_room_def)
  show ?case
  proof (cases "pipe_full q")
    case True
    then have r0: "pipe_room q = 0" using full by simp
    show ?thesis
      using Cons.prems True by (subst pipewrite_from.simps) (simp add: pipe_stored_def r0 cong: if_cong)
  next
    case False
    let ?q = "pipe_put c q" and ?s = "upd_pipe s p (pipe_put c)"
    have q': "pipe_ok ?q" "pipe_q ?q = pipe_q q @ [c]" using pq.put [OF Cons.prems(2) False] by auto
    then have "pipe_len ?q = Suc (pipe_len q)" by (metis length_pipe_q length_append_singleton)
    then have r: "pipe_room q = Suc (pipe_room ?q)" using False full by (simp add: pipe_room_def)
    have c: "addr ! i = c" "slice addr (Suc i) (length cs) = cs"
      using Cons.prems(3,4) by (simp_all add: slice_def Cons_nth_drop_Suc [symmetric, of i addr])
    have ro: "readopen ?q = readopen q" by (simp add: pipe_put_def)
    have "pipewrite_from p addr n i s = pipewrite_from p addr n (Suc i) ?s"
      using Cons.prems False c by (subst pipewrite_from.simps) simp
    moreover have "pipewrite_from p addr n (Suc i) ?s =
      (if length cs \<le> pipe_room ?q then OK (Done n (wakeup (pipe_stored p cs ?s) (ChNread p)))
       else let s1 = pipe_stored p (take (pipe_room ?q) cs) ?s
            in kbind (proc_killed ?s) (\<lambda>k.
               if \<not> readopen ?q \<or> k then OK (Done (-1) s1)
               else kbind (sleep_begin (wakeup s1 (ChNread p)) (ChNwrite p) True) (\<lambda>s. OK (Waits (Suc i + pipe_room ?q) s))))"
      using Cons.prems c q' by (intro Cons.IH) simp_all
    ultimately show ?thesis by (simp add: r pipe_stored_def ro comp_def cong: if_cong)
  qed
qed

lemma piperead_copy_q:
  "pipe_ok q \<Longrightarrow> piperead_copy n q = (bs, q') \<Longrightarrow>
     pipe_ok q' \<and> bs = take n (pipe_q q) \<and> pipe_q q' = drop n (pipe_q q) \<and> readopen q' = readopen q \<and> writeopen q' = writeopen q"
proof (induction n arbitrary: q bs q')
  case (Suc n)
  show ?case
  proof (cases "nread q = nwrite q")
    case True
    then show ?thesis using Suc.prems pq.empty_iff [OF Suc.prems(1)] by auto
  next
    case False
    obtain c q1 where g: "pipe_get q = (c, q1)" by fastforce
    obtain cs q2 where r: "piperead_copy n q1 = (cs, q2)" by fastforce
    have "pipe_ok q1" "pipe_q q = c # pipe_q q1" using pq.get [OF Suc.prems(1) False] g by simp_all
    moreover have "readopen q1 = readopen q" "writeopen q1 = writeopen q" using g by (auto simp: pipe_get_def)
    ultimately show ?thesis using Suc.IH [OF _ r] Suc.prems(2) False g r by auto
  qed
qed simp

subsection \<open>Runs of calls\<close>

text \<open>
  A history of the pipe: calls made by processes, in the order in which they hold the lock of the
  pipe.  A write call, new or resumed, starts at an index of its buffer.  The history collects the
  bytes stored and the bytes delivered.
\<close>

datatype pipe_op = PWrite nat "u8 list" nat | PRead nat int

definition run_state :: "('a, 's) run \<Rightarrow> 's" where
  "run_state r = (case r of Done _ s \<Rightarrow> s | Waits _ s \<Rightarrow> s)"

definition stored_count :: "u32 \<Rightarrow> 'z pips_scheme \<Rightarrow> 'z pips_scheme \<Rightarrow> nat" where
  "stored_count p s s' = (case (pipes s p, pipes s' p) of (Some q, Some q') \<Rightarrow> unat (nwrite q' - nwrite q) | _ \<Rightarrow> 0)"

primrec pipe_exec :: "u32 \<Rightarrow> pipe_op \<Rightarrow> 'z pips_scheme \<Rightarrow> (u8 list \<times> u8 list \<times> 'z pips_scheme) kres" where
  "pipe_exec p (PWrite c addr i) s =
     (let s = s\<lparr>curproc := Some c\<rparr>
      in kbind (pipewrite_from p addr (int (length addr)) i s) (\<lambda>r.
         OK (slice addr i (stored_count p s (run_state r)), [], run_state r)))"
| "pipe_exec p (PRead c n) s =
     kbind (piperead p n (s\<lparr>curproc := Some c\<rparr>)) (\<lambda>r.
     OK ([], case r of Done (_, bytes) _ \<Rightarrow> bytes | Waits _ _ \<Rightarrow> [], run_state r))"

primrec pipe_history :: "u32 \<Rightarrow> pipe_op list \<Rightarrow> 'z pips_scheme \<Rightarrow> (u8 list \<times> u8 list \<times> 'z pips_scheme) kres" where
  "pipe_history p [] s = OK ([], [], s)"
| "pipe_history p (x # xs) s =
     kbind (pipe_exec p x s) (\<lambda>(w, r, s).
     kbind (pipe_history p xs s) (\<lambda>(ws, rs, s). OK (w @ ws, r @ rs, s)))"

lemma fold_pipe_put_nwrite: "nwrite (fold pipe_put cs q) = nwrite q + of_nat (length cs)"
  by (induction cs arbitrary: q) (simp_all add: pipe_put_def algebra_simps)

lemma pipes_sleep_begin: "sleep_begin s c b = OK s' \<Longrightarrow> pipes s' = pipes s"
  by (auto simp: sleep_begin_def upd_proc_def split: option.splits if_splits)

lemma pipe_exec_write:
  assumes q: "pipes s p = Some q" "pipe_ok q" and i: "i \<le> length addr"
  shows "\<exists>w s' q'. pipe_exec p (PWrite c addr i) s = OK (w, [], s') \<and> pipes s' p = Some q' \<and> pipe_ok q' \<and>
    pipe_q q' = pipe_q q @ w"
proof -
  let ?s = "s\<lparr>curproc := Some c\<rparr>" and ?cs = "drop i addr"
  let ?k = "min (pipe_room q) (length ?cs)"
  have q': "pipes ?s p = Some q" using q by simp
  have run: "pipewrite_from p addr (int (length addr)) i ?s =
    (if length ?cs \<le> pipe_room q then OK (Done (int (length addr)) (wakeup (pipe_stored p ?cs ?s) (ChNread p)))
     else let s1 = pipe_stored p (take (pipe_room q) ?cs) ?s
          in kbind (proc_killed ?s) (\<lambda>k.
             if \<not> readopen q \<or> k then OK (Done (-1) s1)
             else kbind (sleep_begin (wakeup s1 (ChNread p)) (ChNwrite p) True) (\<lambda>s. OK (Waits (i + pipe_room q) s))))"
    using i by (intro pipewrite_from_run [OF q' q(2)]) (simp_all add: slice_def)
  obtain r where r: "pipewrite_from p addr (int (length addr)) i ?s = OK r" "pipes (run_state r) p = Some (fold pipe_put (take ?k ?cs) q)"
  proof (cases "length ?cs \<le> pipe_room q")
    case True
    then show ?thesis using that [of "Done (int (length addr)) (wakeup (pipe_stored p ?cs ?s) (ChNread p))"] run q
      by (simp add: run_state_def pipe_stored_def min_absorb2)
  next
    case False
    let ?s1 = "pipe_stored p (take (pipe_room q) ?cs) ?s"
    have s1: "pipes ?s1 p = Some (fold pipe_put (take ?k ?cs) q)" using q False by (simp add: pipe_stored_def min_absorb1)
    obtain s2 where s2: "sleep_begin (wakeup ?s1 (ChNread p)) (ChNwrite p) True = OK s2"
      by (simp add: sleep_begin_def pipe_stored_def)
    then have "pipes s2 p = Some (fold pipe_put (take ?k ?cs) q)" using pipes_sleep_begin [OF s2] s1 by simp
    then show ?thesis
      using that [of "Done (-1) ?s1"] that [of "Waits (i + pipe_room q) s2"] run False s1 s2
      by (cases "\<not> readopen q \<or> killed (proc_at s c)") (auto simp: proc_killed_def run_state_def Let_def)
  qed
  have len: "length (pipe_q q) + length (take ?k ?cs) \<le> PIPESIZE"
    using pq.bound [OF q(2)] by (auto simp: pipe_room_def)
  then have k: "?k < 4294967296" using pq.bound [OF q(2)] by (auto simp: pipe_room_def)
  have "nwrite (fold pipe_put (take ?k ?cs) q) - nwrite q = (of_nat ?k :: u32)"
    by (simp add: fold_pipe_put_nwrite min_def)
  then have "stored_count p ?s (run_state r) = ?k"
    using r(2) q k by (simp add: stored_count_def unat_of_nat)
  then have "pipe_exec p (PWrite c addr i) s = OK (slice addr i ?k, [], run_state r)"
    using r(1) by (simp add: Let_def)
  moreover have "slice addr i ?k = take ?k ?cs" by (simp add: slice_def)
  ultimately show ?thesis using r(2) pq.put_all [OF q(2) len] by auto
qed

lemma pipe_exec_read:
  assumes q: "pipes s p = Some q" "pipe_ok q"
  shows "\<exists>r s' q'. pipe_exec p (PRead c n) s = OK ([], r, s') \<and> pipes s' p = Some q' \<and> pipe_ok q' \<and> pipe_q q = r @ pipe_q q'"
proof (cases "nread q = nwrite q \<and> writeopen q")
  case True
  let ?s = "s\<lparr>curproc := Some c\<rparr>"
  obtain s2 where s2: "sleep_begin ?s (ChNread p) True = OK s2" by (simp add: sleep_begin_def)
  then have "pipes s2 p = Some q" using pipes_sleep_begin [OF s2] q by simp
  then show ?thesis
    using True q s2 by (cases "killed (proc_at s c)") (simp_all add: piperead_def proc_killed_def run_state_def)
next
  case False
  obtain bs q' where r: "piperead_copy (nat n) q = (bs, q')" by fastforce
  then show ?thesis
    using False q piperead_copy_q [OF q(2) r] by (auto simp: piperead_def run_state_def)
qed

definition pipe_op_ok :: "pipe_op \<Rightarrow> bool" where
  "pipe_op_ok x = (case x of PWrite _ addr i \<Rightarrow> i \<le> length addr | PRead _ _ \<Rightarrow> True)"

lemma pipe_history_q:
  assumes "pipes s p = Some q" and "pipe_ok q" and "list_all pipe_op_ok ops"
  shows "\<exists>w r s' q'. pipe_history p ops s = OK (w, r, s') \<and> pipes s' p = Some q' \<and> pipe_ok q' \<and>
    pipe_q q @ w = r @ pipe_q q'"
  using assms
proof (induction ops arbitrary: s q)
  case (Cons x ops)
  obtain w r s1 q1 where 1: "pipe_exec p x s = OK (w, r, s1)" "pipes s1 p = Some q1" "pipe_ok q1" "pipe_q q @ w = r @ pipe_q q1"
  proof (cases x)
    case (PWrite c addr i)
    then show ?thesis using pipe_exec_write [OF Cons.prems(1,2), of i addr c] Cons.prems(3) that by (fastforce simp: pipe_op_ok_def)
  next
    case (PRead c n)
    then show ?thesis using pipe_exec_read [OF Cons.prems(1,2), of c n] that by fastforce
  qed
  obtain ws rs s2 q2 where 2: "pipe_history p ops s1 = OK (ws, rs, s2)" "pipes s2 p = Some q2" "pipe_ok q2" "pipe_q q1 @ ws = rs @ pipe_q q2"
    using Cons.IH [OF 1(2,3)] Cons.prems(3) by auto
  have "pipe_q q @ w @ ws = (r @ rs) @ pipe_q q2" using 1(4) 2(4) by (metis append.assoc)
  then show ?case using 1(1) 2(1-3) by auto
qed auto

subsection \<open>Who sleeps, and why\<close>

definition asleep_on :: "'z procs_scheme \<Rightarrow> chan \<Rightarrow> bool" where
  "asleep_on s c \<longleftrightarrow> (\<exists>x\<in>set (ptable s). pstate x = SLEEPING \<and> pchan x = Some c)"

text \<open>Readers sleep only on an empty pipe that can still be written, writers only on a full one that can still be read.\<close>

definition pipe_waits_ok :: "u32 \<Rightarrow> 'z pips_scheme \<Rightarrow> bool" where
  "pipe_waits_ok p s =
     (case pipes s p of
        None \<Rightarrow> \<not> asleep_on s (ChNread p) \<and> \<not> asleep_on s (ChNwrite p)
      | Some q \<Rightarrow> (asleep_on s (ChNread p) \<longrightarrow> pipe_q q = [] \<and> writeopen q) \<and>
                   (asleep_on s (ChNwrite p) \<longrightarrow> pipe_full q \<and> readopen q))"

lemma chan_neq [simp]: "ChNread p \<noteq> ChNwrite p'" "ChNwrite p \<noteq> ChNread p'"
  by (simp_all add: ChNread_def ChNwrite_def)

lemma asleep_on_wakeup: "asleep_on (wakeup s c) c' \<longleftrightarrow> c' \<noteq> c \<and> asleep_on s c'"
  by (auto simp: asleep_on_def wakeup_def wakeup1_def split: if_splits)

lemma asleep_on_upd [simp]:
  "asleep_on (upd_pipe s p f) c = asleep_on s c" "asleep_on (pipe_stored p cs s) c = asleep_on s c"
  "asleep_on (s\<lparr>pipes := m\<rparr>) c = asleep_on s c"
  by (simp_all add: asleep_on_def pipe_stored_def)

lemma asleep_on_sleep_begin: "sleep_begin s c b = OK s' \<Longrightarrow> asleep_on s' c' \<Longrightarrow> c' = c \<or> asleep_on s c'"
  by (auto simp: sleep_begin_def asleep_on_def upd_proc_def split: option.splits if_splits dest!: set_update_subset_insert [THEN subsetD])

lemma fold_pipe_put_open: "readopen (fold pipe_put cs q) = readopen q" "writeopen (fold pipe_put cs q) = writeopen q"
  by (induction cs arbitrary: q) (simp_all add: pipe_put_def)

lemma pipewrite_waits_ok:
  assumes q: "pipes s p = Some q" "pipe_ok q" and w: "pipe_waits_ok p s" and i: "i \<le> length addr"
    and r: "pipewrite_from p addr (int (length addr)) i s = OK r"
    and k: "(\<forall>t. r \<noteq> Done (-1) t) \<or> \<not> asleep_on s (ChNread p)"
  shows "pipe_waits_ok p (run_state r)"
proof -
  let ?cs = "drop i addr"
  have run: "pipewrite_from p addr (int (length addr)) i s =
    (if length ?cs \<le> pipe_room q then OK (Done (int (length addr)) (wakeup (pipe_stored p ?cs s) (ChNread p)))
     else let s1 = pipe_stored p (take (pipe_room q) ?cs) s
          in kbind (proc_killed s) (\<lambda>k.
             if \<not> readopen q \<or> k then OK (Done (-1) s1)
             else kbind (sleep_begin (wakeup s1 (ChNread p)) (ChNwrite p) True) (\<lambda>s. OK (Waits (i + pipe_room q) s))))"
    using i by (intro pipewrite_from_run [OF q]) (simp_all add: slice_def)
  have full: "pipe_full q \<longleftrightarrow> pipe_room q = 0"
    using pq.full_iff [OF q(2)] pq.bound [OF q(2)] by (auto simp: pipe_room_def)
  show ?thesis
  proof (cases "length ?cs \<le> pipe_room q")
    case True
    then have "run_state r = wakeup (pipe_stored p ?cs s) (ChNread p)" using run r by (auto simp: run_state_def)
    moreover have "asleep_on s (ChNwrite p) \<Longrightarrow> ?cs = [] \<and> pipe_full q \<and> readopen q"
      using w q full True by (auto simp: pipe_waits_ok_def)
    ultimately show ?thesis using q
      by (auto simp: pipe_waits_ok_def asleep_on_wakeup pipe_stored_def)
  next
    case False
    let ?s1 = "pipe_stored p (take (pipe_room q) ?cs) s" and ?q1 = "fold pipe_put (take (pipe_room q) ?cs) q"
    have len: "length (pipe_q q) + length (take (pipe_room q) ?cs) = PIPESIZE"
      using pq.bound [OF q(2)] False by (auto simp: pipe_room_def)
    then have f1: "pipe_full ?q1" using pq.put_all [OF q(2)] pq.full_iff [of ?q1] by (metis le_refl length_append)
    have q1: "pipes ?s1 p = Some ?q1" using q by (simp add: pipe_stored_def)
    consider s2 where "readopen q" "sleep_begin (wakeup ?s1 (ChNread p)) (ChNwrite p) True = OK s2" "run_state r = s2"
      | "r = Done (-1) ?s1"
      using r False unfolding run by (auto simp: kbind_OK_iff run_state_def Let_def split: if_splits)
    then show ?thesis
    proof cases
      case (1 s2)
      moreover have "pipes s2 p = Some ?q1" using pipes_sleep_begin [OF 1(2)] q1 by simp
      moreover have "\<not> asleep_on s2 (ChNread p)"
        using asleep_on_sleep_begin [OF 1(2), of "ChNread p"] by (auto simp: asleep_on_wakeup)
      ultimately show ?thesis using f1 by (simp add: pipe_waits_ok_def fold_pipe_put_open)
    next
      case 2
      then have "\<not> asleep_on s (ChNread p)" using k by blast
      moreover have "asleep_on s (ChNwrite p) \<Longrightarrow> readopen q" using w q by (simp add: pipe_waits_ok_def)
      ultimately show ?thesis using 2 f1 q1 by (simp add: pipe_waits_ok_def fold_pipe_put_open run_state_def)
    qed
  qed
qed

lemma piperead_waits_ok:
  assumes q: "pipes s p = Some q" "pipe_ok q" and w: "pipe_waits_ok p s" and r: "piperead p n s = OK r"
  shows "pipe_waits_ok p (run_state r)"
proof (cases "nread q = nwrite q \<and> writeopen q")
  case True
  then have e: "pipe_q q = []" using pq.empty_iff [OF q(2)] by simp
  then have nf: "\<not> pipe_full q" using pq.full_iff [OF q(2)] by simp
  obtain k where k: "proc_killed s = OK k" using r True q by (auto simp: piperead_def kbind_OK_iff)
  show ?thesis
  proof (cases k)
    case True
    then have "run_state r = s" using r \<open>nread q = nwrite q \<and> writeopen q\<close> q k by (auto simp: piperead_def run_state_def)
    then show ?thesis using w by simp
  next
    case False
    then obtain s2 where s2: "sleep_begin s (ChNread p) True = OK s2" "run_state r = s2"
      using r True q k by (auto simp: piperead_def kbind_OK_iff run_state_def)
    then have "pipes s2 p = Some q" using pipes_sleep_begin [OF s2(1)] q by simp
    moreover have "\<not> asleep_on s2 (ChNwrite p)"
      using asleep_on_sleep_begin [OF s2(1), of "ChNwrite p"] w q nf by (auto simp: pipe_waits_ok_def)
    ultimately show ?thesis using s2(2) e True by (simp add: pipe_waits_ok_def)
  qed
next
  case False
  obtain bs q' where c: "piperead_copy (nat n) q = (bs, q')" by fastforce
  then have "run_state r = wakeup (upd_pipe s p (\<lambda>_. q')) (ChNwrite p)"
    using r False q by (auto simp: piperead_def run_state_def)
  moreover have "\<not> asleep_on s (ChNread p)"
    using w q False pq.empty_iff [OF q(2)] by (auto simp: pipe_waits_ok_def)
  ultimately show ?thesis using q by (simp add: pipe_waits_ok_def asleep_on_wakeup)
qed

lemma kfree_keeps_procs: "kfree s a = OK s' \<Longrightarrow> ptable s' = ptable s \<and> pipes s' = pipes s"
  by (auto simp: kfree_def Let_def split: if_splits)

lemma pipeclose_waits_ok:
  assumes q: "pipes s p = Some q" "pipe_ok q" and w: "pipe_waits_ok p s" and r: "pipeclose p writable s = OK s'"
  shows "pipe_waits_ok p s'"
proof -
  let ?f = "\<lambda>q. if writable then q\<lparr>writeopen := False\<rparr> else q\<lparr>readopen := False\<rparr>"
  let ?s = "wakeup (upd_pipe s p ?f) (if writable then ChNread p else ChNwrite p)"
  have 1: "pipes ?s p = Some (?f q)" using q by simp
  have 2: "pipe_full (?f q) = pipe_full q" "pipe_q (?f q) = pipe_q q"
    by (simp_all add: pipe_full_def pipe_q_def pipe_len_def)
  have 3: "(asleep_on ?s (ChNread p) \<longrightarrow> pipe_q q = [] \<and> writeopen (?f q)) \<and> (asleep_on ?s (ChNwrite p) \<longrightarrow> pipe_full q \<and> readopen (?f q))"
    using w q by (auto simp: pipe_waits_ok_def asleep_on_wakeup)
  have eq: "pipeclose p writable s = (if \<not> readopen (?f q) \<and> \<not> writeopen (?f q) then kfree (?s\<lparr>pipes := (pipes ?s)(p := None)\<rparr>) p else OK ?s)"
    using q by (simp add: pipeclose_def Let_def)
  show ?thesis
  proof (cases "\<not> readopen (?f q) \<and> \<not> writeopen (?f q)")
    case True
    then have "ptable s' = ptable ?s" "pipes s' p = None" using r eq kfree_keeps_procs [of _ p s'] by auto
    then show ?thesis using 3 True by (auto simp: pipe_waits_ok_def asleep_on_def)
  next
    case False
    have eq': "s' = ?s" using r unfolding eq if_not_P [OF False] by simp
    show ?thesis unfolding eq' pipe_waits_ok_def 1 option.case 2 using 3 by simp
  qed
qed

subsection \<open>Properties\<close>

text \<open>
  Property C9. A pipe is a first-in first-out byte stream: in every history of write and read calls,
  new or resumed after a sleep, by any processes and at any values of the wrapping counters, no call
  fails, the ring stays within its bound, and the bytes the pipe held at first followed by all bytes
  stored are exactly the bytes delivered followed by the bytes still in the ring.
\<close>

theorem pipe_fifo:
  assumes "pipes s p = Some q" and "pipe_ok q" and "list_all pipe_op_ok ops"
  shows "\<exists>w r s' q'. pipe_history p ops s = OK (w, r, s') \<and> pipes s' p = Some q' \<and> pipe_ok q' \<and>
    pipe_q q @ w = r @ pipe_q q'"
  by (rule pipe_history_q [OF assms])

text \<open>A pipe whose counters are about to wrap around, beside the small file.\<close>

definition wrap_pipe :: pipe where
  "wrap_pipe = \<lparr>p_data = replicate PIPESIZE 0, nread = 0xFFFFFFFF, nwrite = 0xFFFFFFFF, readopen = True, writeopen = True\<rparr>"

definition boot_pipe :: pips where
  "boot_pipe = (fss.extend boot_sfile \<lparr>pipes = [0x80200000 \<mapsto> wrap_pipe]\<rparr>)\<lparr>ptable := ptable boot_procs\<rparr>"

lemma boot_pipe_pipes: "pipes boot_pipe 0x80200000 = Some wrap_pipe" "pipe_ok wrap_pipe" "pipe_q wrap_pipe = []"
  by (simp_all add: boot_pipe_def fss.defs wrap_pipe_def pipe_ok_def pipe_q_def pipe_len_def)

theorem pipe_fifo_witness:
  "\<exists>w r s' q'. pipe_history 0x80200000 [PWrite 0 [7, 8, 9] 0, PRead 1 2] boot_pipe = OK (w, r, s') \<and>
     pipes s' 0x80200000 = Some q' \<and> w = r @ pipe_q q'"
  using pipe_fifo [OF boot_pipe_pipes(1,2), of "[PWrite 0 [7, 8, 9] 0, PRead 1 2]"] boot_pipe_pipes(3)
  by (auto simp add: pipe_op_ok_def simp del: pipe_history.simps)

text \<open>
  Property C11. No wakeup of a pipe is lost, but for the case of the early return of pipewrite.  If
  readers sleep only while the pipe is empty and writable, and writers only while it is full and
  readable, then this still holds after a read, after closing an end, and after a write, new or
  resumed, that completes or goes to sleep.  It also holds after a write that gives up with -1, if
  no reader was asleep.  When the last end is closed and the page is freed, nobody sleeps on the pipe.
\<close>

theorem pipe_no_lost_wakeup:
  assumes "pipes s p = Some q" and "pipe_ok q" and "pipe_waits_ok p s"
  shows "(\<forall>r addr i. i \<le> length addr \<and> pipewrite_from p addr (int (length addr)) i s = OK r \<and>
            ((\<forall>t. r \<noteq> Done (-1) t) \<or> \<not> asleep_on s (ChNread p)) \<longrightarrow> pipe_waits_ok p (run_state r)) \<and>
         (\<forall>r n. piperead p n s = OK r \<longrightarrow> pipe_waits_ok p (run_state r)) \<and>
         (\<forall>s' writable. pipeclose p writable s = OK s' \<longrightarrow> pipe_waits_ok p s')"
  using pipewrite_waits_ok [OF assms] piperead_waits_ok [OF assms] pipeclose_waits_ok [OF assms] by blast

lemma boot_pipe_ptable: "length (ptable boot_pipe) = 64" "\<not> asleep_on boot_pipe c"
  by (simp_all add: boot_pipe_def boot_procs_def mstate.defs asleep_on_def)

text \<open>A writer, and a reader that sleeps on the empty pipe.\<close>

definition sleeping_reader :: "bool \<Rightarrow> pips" where
  "sleeping_reader k = boot_pipe\<lparr>curproc := Some 0, ptable := (ptable boot_pipe)
     [0 := (proc_at boot_pipe 0)\<lparr>pstate := RUNNING, killed := k\<rparr>,
      1 := (proc_at boot_pipe 1)\<lparr>pstate := SLEEPING, pchan := Some (ChNread 0x80200000)\<rparr>]\<rparr>"

lemma sleeping_reader_state:
  "pipes (sleeping_reader k) 0x80200000 = Some wrap_pipe" "proc_killed (sleeping_reader k) = OK k"
  "asleep_on (sleeping_reader k) (ChNread 0x80200000)" "\<not> asleep_on (sleeping_reader k) (ChNwrite 0x80200000)"
proof -
  note l = boot_pipe_ptable(1)
  show "pipes (sleeping_reader k) 0x80200000 = Some wrap_pipe" using boot_pipe_pipes by (simp add: sleeping_reader_def)
  show "proc_killed (sleeping_reader k) = OK k" using l by (simp add: sleeping_reader_def proc_killed_def)
  show "asleep_on (sleeping_reader k) (ChNread 0x80200000)"
    unfolding asleep_on_def
  proof (rule bexI)
    show "proc_at (sleeping_reader k) 1 \<in> set (ptable (sleeping_reader k))" by (rule nth_mem) (simp add: sleeping_reader_def l)
  qed (simp add: sleeping_reader_def l)
  have "\<not> asleep_on boot_pipe (ChNwrite 0x80200000)" by (rule boot_pipe_ptable)
  then show "\<not> asleep_on (sleeping_reader k) (ChNwrite 0x80200000)"
    using chan_neq by (auto simp: asleep_on_def sleeping_reader_def dest!: set_update_subset_insert [THEN subsetD])
qed

theorem pipe_no_lost_wakeup_witness:
  "\<exists>s'. asleep_on (sleeping_reader False) (ChNread 0x80200000) \<and>
     pipewrite_from 0x80200000 [7, 8, 9] 3 0 (sleeping_reader False) = OK (Done 3 s') \<and>
     pipe_waits_ok 0x80200000 s' \<and> \<not> asleep_on s' (ChNread 0x80200000)"
proof -
  note s = sleeping_reader_state [of False] and b = boot_pipe_pipes
  let ?s' = "wakeup (pipe_stored 0x80200000 [7, 8, 9] (sleeping_reader False)) (ChNread 0x80200000)"
  have w: "pipe_waits_ok 0x80200000 (sleeping_reader False)"
    using s b(3) by (simp add: pipe_waits_ok_def wrap_pipe_def)
  have "pipe_room wrap_pipe = 512" by (simp add: pipe_room_def pipe_len_def wrap_pipe_def)
  then have r: "pipewrite_from 0x80200000 [7, 8, 9] 3 0 (sleeping_reader False) = OK (Done 3 ?s')"
    using pipewrite_from_run [OF s(1) b(2), of 0 "[7, 8, 9]" "[7, 8, 9]"] by (simp add: slice_def)
  then have "pipe_waits_ok 0x80200000 ?s'"
    using conjunct1 [OF pipe_no_lost_wakeup [OF s(1) b(2) w], rule_format, of 0 "[7, 8, 9]" "Done 3 ?s'"]
    by (simp add: run_state_def)
  then show ?thesis using r s(3) by (auto simp: asleep_on_wakeup)
qed

text \<open>
  Property C31. A killed writer loses a wakeup: when a process that has been killed writes more bytes
  than there is room for, pipewrite stores as many as fit and returns -1 without waking the readers,
  so a reader that sleeps on the empty pipe goes on sleeping though the pipe is full.
\<close>

theorem pipewrite_killed_loses_wakeup:
  assumes "pipes s p = Some q" and "pipe_ok q" and "pipe_q q = []" and "proc_killed s = OK True"
    and "asleep_on s (ChNread p)" and "length addr > PIPESIZE"
  shows "\<exists>s' q'. pipewrite p addr (int (length addr)) s = OK (Done (-1) s') \<and> pipes s' p = Some q' \<and>
    pipe_q q' = take PIPESIZE addr \<and> asleep_on s' (ChNread p)"
proof -
  have r: "pipe_room q = PIPESIZE" using arg_cong [OF assms(3), of length] by (simp add: pipe_room_def)
  have "pipewrite p addr (int (length addr)) s = OK (Done (-1) (pipe_stored p (take PIPESIZE addr) s))"
    unfolding pipewrite_def using pipewrite_from_run [OF assms(1,2), of 0 addr addr] assms(4,6) r by (simp add: slice_def)
  moreover have "pipe_q (fold pipe_put (take PIPESIZE addr) q) = take PIPESIZE addr"
    using pq.put_all [OF assms(2), of "take PIPESIZE addr"] assms(3) arg_cong [OF assms(3), of length] by simp
  ultimately show ?thesis using assms(1,5) by (auto simp: pipe_stored_def)
qed

theorem pipewrite_killed_loses_wakeup_witness:
  "\<exists>s'. pipewrite 0x80200000 (replicate 600 7) 600 (sleeping_reader True) = OK (Done (-1) s') \<and> asleep_on s' (ChNread 0x80200000)"
proof -
  note s = sleeping_reader_state [of True]
  show ?thesis
    using pipewrite_killed_loses_wakeup [OF s(1) boot_pipe_pipes(2,3) s(2,3), of "replicate 600 7"] by auto
qed

end
