(* ===== verification/File.thy ===== *)
theory File
  imports Pipe
begin

text \<open>
  The table of open files, file.c, and the creation of pipes from pipe.c.  An open file refers to a
  pipe by its address or to an inode by its index in the cache.  A call that would sleep in a pipe
  ends in the outcome \<open>Sleep\<close>; the states in which it sleeps are described with the pipe itself.
\<close>

subsection \<open>State\<close>

datatype ftype = FD_NONE | FD_PIPE | FD_INODE

record file_t =
  f_type :: ftype
  f_ref :: int
  f_readable :: bool
  f_writable :: bool
  f_pipe :: u32
  f_ip :: nat
  f_off :: u32

record fils = pips +
  ftable :: "file_t list"

abbreviation file_at :: "'z fils_scheme \<Rightarrow> nat \<Rightarrow> file_t" where
  "file_at s f \<equiv> ftable s ! f"

definition upd_file :: "'z fils_scheme \<Rightarrow> nat \<Rightarrow> (file_t \<Rightarrow> file_t) \<Rightarrow> 'z fils_scheme" where
  "upd_file s f g = s\<lparr>ftable := (ftable s)[f := g (ftable s ! f)]\<rparr>"

definition run_kres :: "chan \<Rightarrow> ('a, 's) run \<Rightarrow> ('a \<times> 's) kres" where
  "run_kres c r = (case r of Done a s \<Rightarrow> OK (a, s) | Waits _ _ \<Rightarrow> Sleep c)"

subsection \<open>Allocating, sharing and closing\<close>

definition filealloc :: "'z fils_scheme \<Rightarrow> nat option \<times> 'z fils_scheme" where
  "filealloc s =
     (case find_idx (\<lambda>f. f_ref f = 0) (ftable s) of
        Some f \<Rightarrow> (Some f, upd_file s f (\<lambda>f. f\<lparr>f_ref := 1\<rparr>))
      | None \<Rightarrow> (None, s))"

definition filedup :: "nat \<Rightarrow> 'z fils_scheme \<Rightarrow> 'z fils_scheme kres" where
  "filedup f s =
     (if f_ref (file_at s f) < 1 then Panic ''filedup''
      else OK (upd_file s f (\<lambda>f. f\<lparr>f_ref := f_ref f + 1\<rparr>)))"

definition fileclose :: "nat \<Rightarrow> 'z fils_scheme \<Rightarrow> 'z fils_scheme kres" where
  "fileclose f s =
     (if f_ref (file_at s f) < 1 then Panic ''fileclose''
      else
        let s = upd_file s f (\<lambda>f. f\<lparr>f_ref := f_ref f - 1\<rparr>)
        in if f_ref (file_at s f) > 0 then OK s
           else
             let ff = file_at s f;
                 s = upd_file s f (\<lambda>f. f\<lparr>f_ref := 0, f_type := FD_NONE\<rparr>)
             in (case f_type ff of
                   FD_PIPE \<Rightarrow> pipeclose (f_pipe ff) (f_writable ff) s
                 | FD_INODE \<Rightarrow> kbind (begin_op s) (\<lambda>s. kbind (iput (f_ip ff) s) end_op)
                 | FD_NONE \<Rightarrow> OK s))"

subsection \<open>Status, reading and writing\<close>

definition filestat :: "nat \<Rightarrow> 'z fils_scheme \<Rightarrow> ((int \<times> stat option) \<times> 'z fils_scheme) kres" where
  "filestat f s =
     (let ff = file_at s f
      in if f_type ff = FD_INODE then
           kbind (ilock (Some (f_ip ff)) s) (\<lambda>s.
           let st = stati (f_ip ff) s
           in kbind (iunlock (Some (f_ip ff)) s) (\<lambda>s. OK ((0, Some st), s)))
         else OK ((-1, None), s))"

definition fileread :: "'z fils_scheme devsw \<Rightarrow> nat \<Rightarrow> int \<Rightarrow> 'z fils_scheme \<Rightarrow> ((int \<times> u8 list) \<times> 'z fils_scheme) kres" where
  "fileread devsw f n s =
     (let ff = file_at s f
      in if \<not> f_readable ff then OK ((-1, []), s)
         else
           (case f_type ff of
              FD_PIPE \<Rightarrow> kbind (piperead (f_pipe ff) n s) (run_kres (ChNread (f_pipe ff)))
            | FD_INODE \<Rightarrow>
                kbind (ilock (Some (f_ip ff)) s) (\<lambda>s.
                kbind (readi devsw (f_ip ff) (f_off (file_at s f)) (word_of_int n) s) (\<lambda>((r, bytes), s).
                let s = (if r > 0 then upd_file s f (\<lambda>f. f\<lparr>f_off := f_off f + word_of_int r\<rparr>) else s)
                in kbind (iunlock (Some (f_ip ff)) s) (\<lambda>s. OK ((r, bytes), s))))
            | FD_NONE \<Rightarrow> Panic ''fileread''))"

text \<open>One round of the loop of filewrite: a transaction that writes \<open>n1\<close> bytes.\<close>

definition filewrite_chunk :: "'z fils_scheme devsw \<Rightarrow> nat \<Rightarrow> u8 list \<Rightarrow> int \<Rightarrow> 'z fils_scheme \<Rightarrow> (int \<times> 'z fils_scheme) kres" where
  "filewrite_chunk devsw f addr n1 s =
     (let ip = f_ip (file_at s f)
      in kbind (begin_op s) (\<lambda>s.
         kbind (ilock (Some ip) s) (\<lambda>s.
         kbind (writei devsw ip addr (f_off (file_at s f)) (word_of_int n1) s) (\<lambda>(r, s).
         let s = (if r > 0 then upd_file s f (\<lambda>f. f\<lparr>f_off := f_off f + word_of_int r\<rparr>) else s)
         in kbind (iunlock (Some ip) s) (\<lambda>s.
            kbind (end_op s) (\<lambda>s. OK (r, s)))))))"

definition filewrite_max :: int where
  "filewrite_max = int ((LOGSIZE - 1 - 1 - 2) div 2 * 512)"

function filewrite_loop :: "'z fils_scheme devsw \<Rightarrow> nat \<Rightarrow> u8 list \<Rightarrow> int \<Rightarrow> int \<Rightarrow> 'z fils_scheme \<Rightarrow> (int \<times> 'z fils_scheme) kres" where
  "filewrite_loop devsw f addr n i s =
     (if i < n then
        let n1 = min (n - i) filewrite_max
        in kbind (filewrite_chunk devsw f (drop (nat i) addr) n1 s) (\<lambda>(r, s).
           if r < 0 then OK (i, s)
           else if r \<noteq> n1 then Panic ''short filewrite''
           else filewrite_loop devsw f addr n (i + r) s)
      else OK (i, s))"
  by pat_completeness auto
termination
  by (relation "measure (\<lambda>(devsw, f, addr, n, i, s). nat (n - i))") (auto simp: filewrite_max_def)

declare filewrite_loop.simps [simp del]

definition filewrite :: "'z fils_scheme devsw \<Rightarrow> nat \<Rightarrow> u8 list \<Rightarrow> int \<Rightarrow> 'z fils_scheme \<Rightarrow> (int \<times> 'z fils_scheme) kres" where
  "filewrite devsw f addr n s =
     (let ff = file_at s f
      in if \<not> f_writable ff then OK (-1, s)
         else
           (case f_type ff of
              FD_PIPE \<Rightarrow> kbind (pipewrite (f_pipe ff) addr n s) (run_kres (ChNwrite (f_pipe ff)))
            | FD_INODE \<Rightarrow>
                kbind (filewrite_loop devsw f addr n 0 s) (\<lambda>(i, s). OK (if i = n then n else -1, s))
            | FD_NONE \<Rightarrow> Panic ''filewrite''))"

subsection \<open>Creating a pipe\<close>

definition pipe_bad :: "nat option \<Rightarrow> nat option \<Rightarrow> 'z fils_scheme \<Rightarrow> (int \<times> 'z fils_scheme) kres" where
  "pipe_bad f0 f1 s =
     kbind (case f0 of Some f \<Rightarrow> fileclose f s | None \<Rightarrow> OK s) (\<lambda>s.
     kbind (case f1 of Some f \<Rightarrow> fileclose f s | None \<Rightarrow> OK s) (\<lambda>s. OK (-1, s)))"

text \<open>
  The page that kalloc returns becomes the pipe; its data bytes, which follow the 52 bytes of the
  lock, are what the page holds.  At \<open>bad\<close> the pointer \<open>p\<close> is null on every path.
\<close>

definition pipealloc :: "'z fils_scheme \<Rightarrow> ((int \<times> nat option \<times> nat option) \<times> 'z fils_scheme) kres" where
  "pipealloc s =
     (let (f0, s) = filealloc s
      in case f0 of
           None \<Rightarrow> kbind (pipe_bad None None s) (\<lambda>(r, s). OK ((r, None, None), s))
         | Some a \<Rightarrow>
             let (f1, s) = filealloc s
             in (case f1 of
                   None \<Rightarrow> kbind (pipe_bad f0 None s) (\<lambda>(r, s). OK ((r, f0, None), s))
                 | Some b \<Rightarrow>
                     let (p, s) = kalloc s
                     in if p = 0 then kbind (pipe_bad f0 f1 s) (\<lambda>(r, s). OK ((r, f0, f1), s))
                        else
                          let data = map (\<lambda>k. mem s (p + 52 + word_of_nat k)) [0..<PIPESIZE];
                              s = s\<lparr>pipes := (pipes s)(p \<mapsto>
                                \<lparr>p_data = data, nread = 0, nwrite = 0, readopen = True, writeopen = True\<rparr>)\<rparr>;
                              s = upd_file s a (\<lambda>f. f\<lparr>f_type := FD_PIPE, f_readable := True, f_writable := False, f_pipe := p\<rparr>);
                              s = upd_file s b (\<lambda>f. f\<lparr>f_type := FD_PIPE, f_readable := False, f_writable := True, f_pipe := p\<rparr>)
                          in OK ((0, f0, f1), s)))"

end
