(* ===== verification/Vm.thy ===== *)
theory Vm
  imports Proc
begin

text \<open>
  Page tables, vm.c.  A page directory and its page tables are pages of the machine's memory, read
  and written word by word at kernel addresses, as the code does through pointers; a null pointer is
  the address 0.  loaduvm, which reads a file, is with exec.
\<close>

subsection \<open>Addresses and entries\<close>

abbreviation (input) "EXTMEM \<equiv> (0x100000 :: u32)"
abbreviation (input) "DEVSPACE \<equiv> (0xFE000000 :: u32)"
abbreviation (input) "KERNLINK \<equiv> (0x80100000 :: u32)"
abbreviation (input) "PTE_P \<equiv> (1 :: u32)"
abbreviation (input) "PTE_W \<equiv> (2 :: u32)"
abbreviation (input) "PTE_U \<equiv> (4 :: u32)"

definition PDX :: "u32 \<Rightarrow> u32" where "PDX va = drop_bit 22 va AND 0x3FF"
definition PTX :: "u32 \<Rightarrow> u32" where "PTX va = drop_bit 12 va AND 0x3FF"
definition PGADDR :: "u32 \<Rightarrow> u32 \<Rightarrow> u32 \<Rightarrow> u32" where "PGADDR d t off = push_bit 22 d OR push_bit 12 t OR off"
definition PTE_ADDR :: "u32 \<Rightarrow> u32" where "PTE_ADDR pte = pte AND NOT 0xFFF"
definition PTE_FLAGS :: "u32 \<Rightarrow> u32" where "PTE_FLAGS pte = pte AND 0xFFF"

primrec store_bytes :: "mem \<Rightarrow> u32 \<Rightarrow> u8 list \<Rightarrow> mem" where
  "store_bytes m a [] = m"
| "store_bytes m a (b # bs) = store_bytes (m(a := b)) (a + 1) bs"

definition load_bytes :: "mem \<Rightarrow> u32 \<Rightarrow> nat \<Rightarrow> u8 list" where
  "load_bytes m a n = map (\<lambda>k. m (a + word_of_nat k)) [0..<n]"

subsection \<open>Walking and mapping\<close>

definition walkpgdir :: "u32 \<Rightarrow> u32 \<Rightarrow> bool \<Rightarrow> 'z mstate_scheme \<Rightarrow> u32 \<times> 'z mstate_scheme" where
  "walkpgdir pgd va alloc s =
     (let pde = pgd + 4 * PDX va
      in if load32 (mem s) pde AND PTE_P \<noteq> 0
         then (P2V (PTE_ADDR (load32 (mem s) pde)) + 4 * PTX va, s)
         else if \<not> alloc then (0, s)
         else
           let (pgtab, s) = kalloc s
           in if pgtab = 0 then (0, s)
              else
                let s = s\<lparr>mem := memset (mem s) pgtab 0 PGSIZE\<rparr>;
                    s = s\<lparr>mem := store32 (mem s) pde (V2P pgtab OR PTE_P OR PTE_W OR PTE_U)\<rparr>
                in (pgtab + 4 * PTX va, s))"

text \<open>
  The body of the loop of mappages for one page, and the loop; \<open>n\<close> is the number of rounds before
  \<open>a\<close> has reached \<open>last\<close>.
\<close>

definition map_page :: "u32 \<Rightarrow> u32 \<Rightarrow> u32 \<Rightarrow> u32 \<Rightarrow> 'z mstate_scheme \<Rightarrow> (int \<times> 'z mstate_scheme) kres" where
  "map_page pgd a pa perm s =
     (let (pte, s) = walkpgdir pgd a True s
      in if pte = 0 then OK (-1, s)
         else if load32 (mem s) pte AND PTE_P \<noteq> 0 then Panic ''remap''
         else OK (0, s\<lparr>mem := store32 (mem s) pte (pa OR perm OR PTE_P)\<rparr>))"

primrec mappages_loop :: "nat \<Rightarrow> u32 \<Rightarrow> u32 \<Rightarrow> u32 \<Rightarrow> u32 \<Rightarrow> 'z mstate_scheme \<Rightarrow> (int \<times> 'z mstate_scheme) kres" where
  "mappages_loop 0 pgd a pa perm s = map_page pgd a pa perm s"
| "mappages_loop (Suc n) pgd a pa perm s =
     kbind (map_page pgd a pa perm s) (\<lambda>(r, s).
     if r < 0 then OK (-1, s) else mappages_loop n pgd (a + PGSIZE) (pa + PGSIZE) perm s)"

definition mappages :: "u32 \<Rightarrow> u32 \<Rightarrow> u32 \<Rightarrow> u32 \<Rightarrow> u32 \<Rightarrow> 'z mstate_scheme \<Rightarrow> (int \<times> 'z mstate_scheme) kres" where
  "mappages pgd va sz pa perm s =
     (let a = PGROUNDDOWN va;
          lst = PGROUNDDOWN (va + sz - 1)
      in mappages_loop (unat ((lst - a) div PGSIZE)) pgd a pa perm s)"

record kmap_entry =
  k_virt :: u32
  k_start :: u32
  k_end :: u32
  k_perm :: u32

definition kmap :: "'z mstate_scheme \<Rightarrow> kmap_entry list" where
  "kmap s =
    [\<lparr>k_virt = KERNBASE, k_start = 0, k_end = EXTMEM, k_perm = PTE_W\<rparr>,
     \<lparr>k_virt = KERNLINK, k_start = V2P KERNLINK, k_end = V2P (kdata s), k_perm = 0\<rparr>,
     \<lparr>k_virt = kdata s, k_start = V2P (kdata s), k_end = PHYSTOP, k_perm = PTE_W\<rparr>,
     \<lparr>k_virt = DEVSPACE, k_start = DEVSPACE, k_end = 0, k_perm = PTE_W\<rparr>]"

primrec map_kernel :: "u32 \<Rightarrow> kmap_entry list \<Rightarrow> 'z mstate_scheme \<Rightarrow> (int \<times> 'z mstate_scheme) kres" where
  "map_kernel pgd [] s = OK (0, s)"
| "map_kernel pgd (k # ks) s =
     kbind (mappages pgd (k_virt k) (k_end k - k_start k) (k_start k) (k_perm k) s) (\<lambda>(r, s).
     if r < 0 then OK (-1, s) else map_kernel pgd ks s)"

definition setupkvm :: "'z mstate_scheme \<Rightarrow> (u32 \<times> 'z mstate_scheme) kres" where
  "setupkvm s =
     (let (pgd, s) = kalloc s
      in if pgd = 0 then OK (0, s)
         else
           let s = s\<lparr>mem := memset (mem s) pgd 0 PGSIZE\<rparr>
           in if P2V PHYSTOP > DEVSPACE then Panic ''PHYSTOP too high''
              else kbind (map_kernel pgd (kmap s) s) (\<lambda>(r, s). OK (if r < 0 then 0 else pgd, s)))"

definition kvmalloc :: "'z procs_scheme \<Rightarrow> 'z procs_scheme kres" where
  "kvmalloc s = kbind (setupkvm s) (\<lambda>(pgd, s). OK (switchkvm (s\<lparr>kpgdir := pgd\<rparr>)))"

subsection \<open>User memory\<close>

definition inituvm :: "u32 \<Rightarrow> u8 list \<Rightarrow> 'z mstate_scheme \<Rightarrow> 'z mstate_scheme kres" where
  "inituvm pgd init s =
     (if length init \<ge> 4096 then Panic ''inituvm: more than a page''
      else
        let (m, s) = kalloc s
        in if m = 0 then Stuck ''null''
           else
             let s = s\<lparr>mem := memset (mem s) m 0 PGSIZE\<rparr>
             in kbind (mappages pgd 0 PGSIZE (V2P m) (PTE_W OR PTE_U) s) (\<lambda>(_, s).
                OK (s\<lparr>mem := store_bytes (mem s) m init\<rparr>)))"

text \<open>
  deallocuvm: the loop skips to the next page directory entry where there is no page table.  A round
  that does not move the address up would go on for ever.
\<close>

function deallocuvm_loop :: "u32 \<Rightarrow> u32 \<Rightarrow> u32 \<Rightarrow> 'z mstate_scheme \<Rightarrow> 'z mstate_scheme kres" where
  "deallocuvm_loop pgd a oldsz s =
     (if a < oldsz then
        let (pte, s) = walkpgdir pgd a False s;
            a' = (if pte = 0 then PGADDR (PDX a + 1) 0 0 else a + PGSIZE)
        in kbind (if pte \<noteq> 0 \<and> load32 (mem s) pte AND PTE_P \<noteq> 0 then
                    let pa = PTE_ADDR (load32 (mem s) pte)
                    in if pa = 0 then Panic ''kfree''
                       else kbind (kfree s (P2V pa)) (\<lambda>s. OK (s\<lparr>mem := store32 (mem s) pte 0\<rparr>))
                  else OK s) (\<lambda>s.
           if a' \<le> a then Stuck ''deallocuvm'' else deallocuvm_loop pgd a' oldsz s)
      else OK s)"
  by pat_completeness auto
termination
  by (relation "measure (\<lambda>(pgd, a, oldsz, s). unat oldsz - unat a)") (auto simp: word_less_nat_alt word_le_nat_alt)

declare deallocuvm_loop.simps [simp del]

definition deallocuvm :: "u32 \<Rightarrow> u32 \<Rightarrow> u32 \<Rightarrow> 'z mstate_scheme \<Rightarrow> (u32 \<times> 'z mstate_scheme) kres" where
  "deallocuvm pgd oldsz newsz s =
     (if newsz \<ge> oldsz then OK (oldsz, s)
      else kbind (deallocuvm_loop pgd (PGROUNDUP newsz) oldsz s) (\<lambda>s. OK (newsz, s)))"

function allocuvm_loop :: "u32 \<Rightarrow> u32 \<Rightarrow> u32 \<Rightarrow> u32 \<Rightarrow> 'z mstate_scheme \<Rightarrow> (u32 \<times> 'z mstate_scheme) kres" where
  "allocuvm_loop pgd a oldsz newsz s =
     (if a < newsz then
        let (m, s) = kalloc s
        in if m = 0 then kbind (deallocuvm pgd newsz oldsz s) (\<lambda>(_, s). OK (0, s))
           else
             let s = s\<lparr>mem := memset (mem s) m 0 PGSIZE\<rparr>
             in kbind (mappages pgd a PGSIZE (V2P m) (PTE_W OR PTE_U) s) (\<lambda>(r, s).
                if r < 0 then
                  kbind (deallocuvm pgd newsz oldsz s) (\<lambda>(_, s).
                  kbind (kfree s m) (\<lambda>s. OK (0, s)))
                else if a + PGSIZE \<le> a then Stuck ''allocuvm''
                else allocuvm_loop pgd (a + PGSIZE) oldsz newsz s)
      else OK (newsz, s))"
  by pat_completeness auto
termination
  by (relation "measure (\<lambda>(pgd, a, oldsz, newsz, s). unat newsz - unat a)") (auto simp: word_less_nat_alt word_le_nat_alt)

declare allocuvm_loop.simps [simp del]

definition allocuvm :: "u32 \<Rightarrow> u32 \<Rightarrow> u32 \<Rightarrow> 'z mstate_scheme \<Rightarrow> (u32 \<times> 'z mstate_scheme) kres" where
  "allocuvm pgd oldsz newsz s =
     (if newsz \<ge> KERNBASE then OK (0, s)
      else if newsz < oldsz then OK (oldsz, s)
      else allocuvm_loop pgd (PGROUNDUP oldsz) oldsz newsz s)"

text \<open>One round of the loop of freevm over the page directory.\<close>

definition freevm_entry :: "u32 \<Rightarrow> nat \<Rightarrow> 'z mstate_scheme \<Rightarrow> 'z mstate_scheme kres" where
  "freevm_entry pgd i s =
     (let pde = load32 (mem s) (pgd + 4 * word_of_nat i)
      in if pde AND PTE_P \<noteq> 0 then kfree s (P2V (PTE_ADDR pde)) else OK s)"

definition freevm :: "u32 \<Rightarrow> 'z mstate_scheme \<Rightarrow> 'z mstate_scheme kres" where
  "freevm pgd s =
     (if pgd = 0 then Panic ''freevm: no pgdir''
      else
        kbind (deallocuvm pgd KERNBASE 0 s) (\<lambda>(_, s).
        kbind (kfor (freevm_entry pgd) [0..<1024] s) (\<lambda>s.
        kfree s pgd)))"

definition clearpteu :: "u32 \<Rightarrow> u32 \<Rightarrow> 'z mstate_scheme \<Rightarrow> 'z mstate_scheme kres" where
  "clearpteu pgd uva s =
     (let (pte, s) = walkpgdir pgd uva False s
      in if pte = 0 then Panic ''clearpteu''
         else OK (s\<lparr>mem := store32 (mem s) pte (load32 (mem s) pte AND NOT PTE_U)\<rparr>))"

function copyuvm_loop :: "u32 \<Rightarrow> u32 \<Rightarrow> u32 \<Rightarrow> u32 \<Rightarrow> 'z mstate_scheme \<Rightarrow> (u32 \<times> 'z mstate_scheme) kres" where
  "copyuvm_loop pgd d i sz s =
     (if i < sz then
        let (pte, s) = walkpgdir pgd i False s
        in if pte = 0 then Panic ''copyuvm: pte should exist''
           else if load32 (mem s) pte AND PTE_P = 0 then Panic ''copyuvm: page not present''
           else
             let pa = PTE_ADDR (load32 (mem s) pte);
                 flags = PTE_FLAGS (load32 (mem s) pte);
                 (m, s) = kalloc s
             in if m = 0 then kbind (freevm d s) (\<lambda>s. OK (0, s))
                else
                  let s = s\<lparr>mem := memmove (mem s) m (P2V pa) PGSIZE\<rparr>
                  in kbind (mappages d i PGSIZE (V2P m) flags s) (\<lambda>(r, s).
                     if r < 0 then kbind (freevm d s) (\<lambda>s. OK (0, s))
                     else if i + PGSIZE \<le> i then Stuck ''copyuvm''
                     else copyuvm_loop pgd d (i + PGSIZE) sz s)
      else OK (d, s))"
  by pat_completeness auto
termination
  by (relation "measure (\<lambda>(pgd, d, i, sz, s). unat sz - unat i)") (auto simp: word_less_nat_alt word_le_nat_alt)

declare copyuvm_loop.simps [simp del]

definition copyuvm :: "u32 \<Rightarrow> u32 \<Rightarrow> 'z mstate_scheme \<Rightarrow> (u32 \<times> 'z mstate_scheme) kres" where
  "copyuvm pgd sz s =
     kbind (setupkvm s) (\<lambda>(d, s).
     if d = 0 then OK (0, s) else copyuvm_loop pgd d 0 sz s)"

definition uva2ka :: "u32 \<Rightarrow> u32 \<Rightarrow> 'z mstate_scheme \<Rightarrow> u32 kres" where
  "uva2ka pgd uva s =
     (let (pte, s) = walkpgdir pgd uva False s
      in if pte = 0 then Stuck ''null''
         else
           let e = load32 (mem s) pte
           in if e AND PTE_P = 0 then OK 0
              else if e AND PTE_U = 0 then OK 0
              else OK (P2V (PTE_ADDR e)))"

text \<open>copyout takes the bytes it copies instead of their address.\<close>

lemma PGROUNDDOWN_shift: "PGROUNDDOWN va = push_bit 12 (drop_bit 12 va)"
  by (rule bit_eqI)
     (auto simp: PGROUNDDOWN_def mask_page bit_and_iff bit_not_iff bit_mask_iff bit_push_bit_iff bit_drop_bit_eq)

lemma page_rest_pos: "0 < 4096 - unat (va - PGROUNDDOWN va)"
proof -
  have "PGROUNDDOWN va + take_bit 12 va = va"
    using bits_ident [of 12 va] by (simp add: PGROUNDDOWN_shift)
  then have "va - PGROUNDDOWN va = take_bit 12 va" by (metis add_diff_cancel_left')
  moreover have "unat (take_bit 12 va) < 4096" by (simp add: take_bit_eq_mod unat_mod)
  ultimately show ?thesis by simp
qed

function copyout :: "u32 \<Rightarrow> u32 \<Rightarrow> u8 list \<Rightarrow> 'z mstate_scheme \<Rightarrow> (int \<times> 'z mstate_scheme) kres" where
  "copyout pgd va p s =
     (if length p > 0 then
        let va0 = PGROUNDDOWN va
        in kbind (uva2ka pgd va0 s) (\<lambda>pa0.
           if pa0 = 0 then OK (-1, s)
           else
             let n = min (length p) (4096 - unat (va - va0));
                 s = s\<lparr>mem := store_bytes (mem s) (pa0 + (va - va0)) (take n p)\<rparr>
             in copyout pgd (va0 + PGSIZE) (drop n p) s)
      else OK (0, s))"
  by pat_completeness auto
termination
  using page_rest_pos by (relation "measure (\<lambda>(pgd, va, p, s). length p)") auto

declare copyout.simps [simp del]

end
