(* ===== verification/Proc_Life.thy ===== *)
theory Proc_Life
  imports File Vm
begin

text \<open>
  The life of a process, the part of proc.c that creates, grows, ends and reaps processes.  The trap
  frame of a process is the 76 bytes at the address \<open>tf\<close>; its fields are stored at their offsets.
\<close>

abbreviation (input) "TF_EAX \<equiv> (28 :: u32)"
abbreviation (input) "TF_ES \<equiv> (40 :: u32)"
abbreviation (input) "TF_DS \<equiv> (44 :: u32)"
abbreviation (input) "TF_TRAPNO \<equiv> (48 :: u32)"
abbreviation (input) "TF_EIP \<equiv> (56 :: u32)"
abbreviation (input) "TF_CS \<equiv> (60 :: u32)"
abbreviation (input) "TF_EFLAGS \<equiv> (64 :: u32)"
abbreviation (input) "TF_ESP \<equiv> (68 :: u32)"
abbreviation (input) "TF_SS \<equiv> (72 :: u32)"

definition store16 :: "mem \<Rightarrow> u32 \<Rightarrow> u16 \<Rightarrow> mem" where
  "store16 m a w = m(a := le16 w ! 0, a + 1 := le16 w ! 1)"

definition init_trapframe :: "mem \<Rightarrow> u32 \<Rightarrow> mem" where
  "init_trapframe m t =
     (let m = memset m t 0 76;
          m = store16 m (t + TF_CS) 35;
          m = store16 m (t + TF_DS) 43;
          m = store16 m (t + TF_ES) 43;
          m = store16 m (t + TF_SS) 43;
          m = store32 m (t + TF_EFLAGS) 0x200;
          m = store32 m (t + TF_ESP) PGSIZE
      in store32 m (t + TF_EIP) 0)"

text \<open>The first process; \<open>initcode\<close> is the binary that the linker embeds.\<close>

definition userinit :: "'z fils_scheme devsw \<Rightarrow> u8 list \<Rightarrow> 'z fils_scheme \<Rightarrow> 'z fils_scheme kres" where
  "userinit devsw initcode s =
     (let (p, s) = allocproc s
      in case p of
           None \<Rightarrow> Stuck ''null''
         | Some i \<Rightarrow>
             let s = s\<lparr>initproc := Some i\<rparr>
             in kbind (setupkvm s) (\<lambda>(pgd, s).
                let s = upd_proc s i (\<lambda>p. p\<lparr>pgdir := pgd\<rparr>)
                in if pgd = 0 then Panic ''userinit: out of memory?''
                   else
                     kbind (inituvm pgd initcode s) (\<lambda>s.
                     let s = upd_proc s i (\<lambda>p. p\<lparr>psz := PGSIZE\<rparr>);
                         s = s\<lparr>mem := init_trapframe (mem s) (tf (proc_at s i))\<rparr>;
                         s = upd_proc s i (\<lambda>p. p\<lparr>pname := safestrcpy (pname p)
                               (carr_of [105, 110, 105, 116, 99, 111, 100, 101]) 16\<rparr>)
                     in kbind (namei devsw [SLASH] s) (\<lambda>(ip, s).
                        OK (upd_proc s i (\<lambda>p. p\<lparr>cwd := ip, pstate := RUNNABLE\<rparr>))))))"

definition growproc :: "int \<Rightarrow> 'z fils_scheme \<Rightarrow> (int \<times> 'z fils_scheme) kres" where
  "growproc n s =
     (case curproc s of
        None \<Rightarrow> Stuck ''proc''
      | Some i \<Rightarrow>
          let sz = psz (proc_at s i);
              pgd = pgdir (proc_at s i);
              grown = (\<lambda>(sz, s). kbind (switchuvm (upd_proc s i (\<lambda>p. p\<lparr>psz := sz\<rparr>)) (Some i)) (\<lambda>s. OK (0, s)))
          in if n > 0 then
               kbind (allocuvm pgd sz (sz + word_of_int n) s) (\<lambda>(sz, s).
               if sz = 0 then OK (-1, s) else grown (sz, s))
             else if n < 0 then
               kbind (deallocuvm pgd sz (sz + word_of_int n) s) (\<lambda>(sz, s).
               if sz = 0 then OK (-1, s) else grown (sz, s))
             else grown (sz, s))"

text \<open>One round of the loop of fork over the open files.\<close>

definition fork_file :: "nat \<Rightarrow> nat \<Rightarrow> nat \<Rightarrow> 'z fils_scheme \<Rightarrow> 'z fils_scheme kres" where
  "fork_file i np fd s =
     (case ofile (proc_at s i) ! fd of
        None \<Rightarrow> OK s
      | Some f \<Rightarrow>
          kbind (filedup f s) (\<lambda>s. OK (upd_proc s np (\<lambda>p. p\<lparr>ofile := (ofile p)[fd := Some f]\<rparr>))))"

definition fork :: "'z fils_scheme \<Rightarrow> (int \<times> 'z fils_scheme) kres" where
  "fork s =
     (case curproc s of
        None \<Rightarrow> Stuck ''proc''
      | Some i \<Rightarrow>
          let (p, s) = allocproc s
          in case p of
               None \<Rightarrow> OK (-1, s)
             | Some np \<Rightarrow>
                 kbind (copyuvm (pgdir (proc_at s i)) (psz (proc_at s i)) s) (\<lambda>(pgd, s).
                 let s = upd_proc s np (\<lambda>p. p\<lparr>pgdir := pgd\<rparr>)
                 in if pgd = 0 then
                      kbind (kfree s (kstack (proc_at s np))) (\<lambda>s.
                      OK (-1, upd_proc s np (\<lambda>p. p\<lparr>kstack := 0, pstate := UNUSED\<rparr>)))
                    else
                      let s = upd_proc s np (\<lambda>p. p\<lparr>psz := psz (proc_at s i), parent := Some i\<rparr>);
                          s = s\<lparr>mem := memmove (mem s) (tf (proc_at s np)) (tf (proc_at s i)) 76\<rparr>;
                          s = s\<lparr>mem := store32 (mem s) (tf (proc_at s np) + TF_EAX) 0\<rparr>
                      in kbind (kfor (fork_file i np) [0..<NOFILE] s) (\<lambda>s.
                         case cwd (proc_at s i) of
                           None \<Rightarrow> Stuck ''cwd''
                         | Some c \<Rightarrow>
                             let (d, s) = idup c s;
                                 s = upd_proc s np (\<lambda>p. p\<lparr>cwd := Some d\<rparr>);
                                 s = upd_proc s np (\<lambda>p. p\<lparr>pname := safestrcpy (pname p) (pname (proc_at s i)) 16\<rparr>);
                                 n = pid (proc_at s np);
                                 s = upd_proc s np (\<lambda>p. p\<lparr>pstate := RUNNABLE\<rparr>)
                             in OK (n, s))))"

definition exit_file :: "nat \<Rightarrow> nat \<Rightarrow> 'z fils_scheme \<Rightarrow> 'z fils_scheme kres" where
  "exit_file i fd s =
     (case ofile (proc_at s i) ! fd of
        None \<Rightarrow> OK s
      | Some f \<Rightarrow>
          kbind (fileclose f s) (\<lambda>s. OK (upd_proc s i (\<lambda>p. p\<lparr>ofile := (ofile p)[fd := None]\<rparr>))))"

text \<open>
  The part of exit under the lock of the process table: wake the parent, hand the children to init,
  become a zombie.  A null parent or initproc is a channel that nobody sleeps on.
\<close>

definition wake_proc :: "nat option \<Rightarrow> 'z procs_scheme \<Rightarrow> 'z procs_scheme" where
  "wake_proc p s = (case p of None \<Rightarrow> s | Some j \<Rightarrow> wakeup1 s (ChProc j))"

definition reparent :: "nat \<Rightarrow> nat \<Rightarrow> 'z procs_scheme \<Rightarrow> 'z procs_scheme" where
  "reparent i j s =
     (if parent (proc_at s j) = Some i then
        let s = upd_proc s j (\<lambda>p. p\<lparr>parent := initproc s\<rparr>)
        in if pstate (proc_at s j) = ZOMBIE then wake_proc (initproc s) s else s
      else s)"

definition exit_tail :: "nat \<Rightarrow> 'z procs_scheme \<Rightarrow> 'z procs_scheme" where
  "exit_tail i s =
     (let s = wake_proc (parent (proc_at s i)) s;
          s = fold (reparent i) [0..<NPROC] s
      in upd_proc s i (\<lambda>p. p\<lparr>pstate := ZOMBIE\<rparr>))"

definition exit_proc :: "'z fils_scheme \<Rightarrow> 'z fils_scheme kres" where
  "exit_proc s =
     (case curproc s of
        None \<Rightarrow> Stuck ''proc''
      | Some i \<Rightarrow>
          if initproc s = Some i then Panic ''init exiting''
          else
            kbind (kfor (exit_file i) [0..<NOFILE] s) (\<lambda>s.
            kbind (begin_op s) (\<lambda>s.
            (case cwd (proc_at s i) of
               None \<Rightarrow> Stuck ''cwd''
             | Some c \<Rightarrow>
                 kbind (iput c s) (\<lambda>s.
                 kbind (end_op s) (\<lambda>s.
                 OK (exit_tail i (upd_proc s i (\<lambda>p. p\<lparr>cwd := None\<rparr>)))))))))"

definition wait_reap :: "nat \<Rightarrow> 'z fils_scheme \<Rightarrow> (int \<times> 'z fils_scheme) kres" where
  "wait_reap j s =
     (let n = pid (proc_at s j)
      in kbind (kfree s (kstack (proc_at s j))) (\<lambda>s.
         let s = upd_proc s j (\<lambda>p. p\<lparr>kstack := 0\<rparr>)
         in kbind (freevm (pgdir (proc_at s j)) s) (\<lambda>s.
            OK (n, upd_proc s j (\<lambda>p. p\<lparr>pid := 0, parent := None, pname := (pname p)(0 := 0), killed := False,
                  pstate := UNUSED\<rparr>)))))"

definition wait :: "'z fils_scheme \<Rightarrow> (int, 'z fils_scheme) run kres" where
  "wait s =
     (case curproc s of
        None \<Rightarrow> Stuck ''proc''
      | Some i \<Rightarrow>
          (case find_idx (\<lambda>p. parent p = Some i \<and> pstate p = ZOMBIE) (ptable s) of
             Some j \<Rightarrow> kbind (wait_reap j s) (\<lambda>(n, s). OK (Done n s))
           | None \<Rightarrow>
               if (\<forall>p\<in>set (ptable s). parent p \<noteq> Some i) \<or> killed (proc_at s i) then OK (Done (-1) s)
               else kbind (sleep_begin s (ChProc i) True) (\<lambda>s. OK (Waits 0 s))))"

end
