(* ===== verification/Exec.thy ===== *)
theory Exec
  imports Proc_Life
begin

text \<open>
  exec.c and the loader of vm.c that it uses.  The argument strings, which the code reads through
  pointers into the old address space, are lists of bytes; \<open>proc\<close> must be a running process.
\<close>

record elfhdr =
  e_magic :: u32
  e_entry :: u32
  e_phoff :: u32
  e_phnum :: u16

record proghdr =
  ph_type :: u32
  ph_off :: u32
  ph_vaddr :: u32
  ph_filesz :: u32
  ph_memsz :: u32

definition elfhdr_of :: "u8 list \<Rightarrow> elfhdr" where
  "elfhdr_of b = \<lparr>e_magic = get32 b 0, e_entry = get32 b 24, e_phoff = get32 b 28, e_phnum = get16 b 44\<rparr>"

definition proghdr_of :: "u8 list \<Rightarrow> proghdr" where
  "proghdr_of b = \<lparr>ph_type = get32 b 0, ph_off = get32 b 4, ph_vaddr = get32 b 8, ph_filesz = get32 b 16, ph_memsz = get32 b 20\<rparr>"

subsection \<open>Loading a segment\<close>

function loaduvm_loop :: "'z fss_scheme devsw \<Rightarrow> u32 \<Rightarrow> u32 \<Rightarrow> nat \<Rightarrow> u32 \<Rightarrow> u32 \<Rightarrow> u32 \<Rightarrow> 'z fss_scheme \<Rightarrow>
    (int \<times> 'z fss_scheme) kres" where
  "loaduvm_loop devsw pgd addr ip offset i sz s =
     (if i < sz then
        let (pte, s) = walkpgdir pgd (addr + i) False s
        in if pte = 0 then Panic ''loaduvm: address should exist''
           else
             let pa = PTE_ADDR (load32 (mem s) pte);
                 n = (if sz - i < PGSIZE then sz - i else PGSIZE)
             in kbind (readi devsw ip (offset + i) n s) (\<lambda>((r, bytes), s).
                let s = s\<lparr>mem := store_bytes (mem s) (P2V pa) bytes\<rparr>
                in if word_of_int r \<noteq> n then OK (-1, s)
                   else if i + PGSIZE \<le> i then Stuck ''loaduvm''
                   else loaduvm_loop devsw pgd addr ip offset (i + PGSIZE) sz s)
      else OK (0, s))"
  by pat_completeness auto
termination
  by (relation "measure (\<lambda>(devsw, pgd, addr, ip, offset, i, sz, s). unat sz - unat i)") (auto simp: word_less_nat_alt word_le_nat_alt)

declare loaduvm_loop.simps [simp del]

definition loaduvm :: "'z fss_scheme devsw \<Rightarrow> u32 \<Rightarrow> u32 \<Rightarrow> nat \<Rightarrow> u32 \<Rightarrow> u32 \<Rightarrow> 'z fss_scheme \<Rightarrow> (int \<times> 'z fss_scheme) kres" where
  "loaduvm devsw pgd addr ip offset sz s =
     (if addr mod PGSIZE \<noteq> 0 then Panic ''loaduvm: addr must be page aligned''
      else loaduvm_loop devsw pgd addr ip offset 0 sz s)"

text \<open>
  The loop of exec over the program headers: the new size, or None where the code goes to \<open>bad\<close>.
\<close>

primrec exec_load :: "nat \<Rightarrow> 'z fss_scheme devsw \<Rightarrow> u32 \<Rightarrow> nat \<Rightarrow> u32 \<Rightarrow> u32 \<Rightarrow> 'z fss_scheme \<Rightarrow> (u32 option \<times> 'z fss_scheme) kres" where
  "exec_load 0 devsw pgd ip off sz s = OK (Some sz, s)"
| "exec_load (Suc n) devsw pgd ip off sz s =
     kbind (readi devsw ip off 32 s) (\<lambda>((r, bytes), s).
     if r \<noteq> 32 then OK (None, s)
     else
       let ph = proghdr_of bytes
       in if ph_type ph \<noteq> 1 then exec_load n devsw pgd ip (off + 32) sz s
          else if ph_memsz ph < ph_filesz ph then OK (None, s)
          else if ph_vaddr ph + ph_memsz ph < ph_vaddr ph then OK (None, s)
          else
            kbind (allocuvm pgd sz (ph_vaddr ph + ph_memsz ph) s) (\<lambda>(sz, s).
            if sz = 0 then OK (None, s)
            else if ph_vaddr ph mod PGSIZE \<noteq> 0 then OK (None, s)
            else
              kbind (loaduvm devsw pgd (ph_vaddr ph) ip (ph_off ph) (ph_filesz ph) s) (\<lambda>(r, s).
              if r < 0 then OK (None, s)
              else exec_load n devsw pgd ip (off + 32) sz s)))"

subsection \<open>The stack of the new program\<close>

text \<open>
  Pushing the argument strings from argument number \<open>argc\<close> on: the stack pointer and the addresses
  of the strings, or None where the code goes to \<open>bad\<close>.
\<close>

primrec exec_args :: "u8 list list \<Rightarrow> nat \<Rightarrow> u32 \<Rightarrow> u32 \<Rightarrow> 'z mstate_scheme \<Rightarrow> ((u32 \<times> u32 list) option \<times> 'z mstate_scheme) kres" where
  "exec_args [] argc pgd sp s = OK (Some (sp, []), s)"
| "exec_args (a # as) argc pgd sp s =
     (if argc \<ge> MAXARG then OK (None, s)
      else
        let sp = (sp - word_of_nat (length a + 1)) AND NOT 3
        in kbind (copyout pgd sp (a @ [0]) s) (\<lambda>(r, s).
           if r < 0 then OK (None, s)
           else
             kbind (exec_args as (argc + 1) pgd sp s) (\<lambda>(x, s).
             OK (map_option (\<lambda>(spf, us). (spf, sp # us)) x, s))))"

definition exec_ustack :: "u32 \<Rightarrow> u32 list \<Rightarrow> u32 list" where
  "exec_ustack sp us =
     [0xFFFFFFFF, word_of_nat (length us), sp - word_of_nat ((length us + 1) * 4)] @ us @ [0]"

fun last_elem :: "u8 list \<Rightarrow> u8 list \<Rightarrow> u8 list" where
  "last_elem [] lst = lst"
| "last_elem (c # cs) lst = last_elem cs (if c = SLASH then cs else lst)"

subsection \<open>exec\<close>

definition exec_bad :: "u32 \<Rightarrow> nat option \<Rightarrow> 'z fils_scheme \<Rightarrow> (int \<times> 'z fils_scheme) kres" where
  "exec_bad pgd ip s =
     kbind (if pgd \<noteq> 0 then freevm pgd s else OK s) (\<lambda>s.
     case ip of
       None \<Rightarrow> OK (-1, s)
     | Some i \<Rightarrow> kbind (iunlockput i s) (\<lambda>s. kbind (end_op s) (\<lambda>s. OK (-1, s))))"

text \<open>From the allocation of the stack on, with the transaction over.\<close>

definition exec_commit :: "nat \<Rightarrow> u8 list \<Rightarrow> u32 \<Rightarrow> u32 \<Rightarrow> u32 \<Rightarrow> u32 \<Rightarrow> 'z fils_scheme \<Rightarrow> (int \<times> 'z fils_scheme) kres" where
  "exec_commit p path pgd sz sp entry s =
     (let s = upd_proc s p (\<lambda>q. q\<lparr>pname := safestrcpy (pname q) (carr_of (last_elem path path)) 16\<rparr>);
          oldpgdir = pgdir (proc_at s p);
          s = upd_proc s p (\<lambda>q. q\<lparr>pgdir := pgd, psz := sz\<rparr>);
          s = s\<lparr>mem := store32 (mem s) (tf (proc_at s p) + TF_EIP) entry\<rparr>;
          s = s\<lparr>mem := store32 (mem s) (tf (proc_at s p) + TF_ESP) sp\<rparr>
      in kbind (switchuvm s (Some p)) (\<lambda>s.
         kbind (freevm oldpgdir s) (\<lambda>s. OK (0, s))))"

definition exec_stack :: "nat \<Rightarrow> u8 list \<Rightarrow> u8 list list \<Rightarrow> u32 \<Rightarrow> u32 \<Rightarrow> u32 \<Rightarrow> 'z fils_scheme \<Rightarrow> (int \<times> 'z fils_scheme) kres" where
  "exec_stack p path argv pgd sz entry s =
     (let sz = PGROUNDUP sz
      in kbind (allocuvm pgd sz (sz + 2 * PGSIZE) s) (\<lambda>(sz, s).
         if sz = 0 then exec_bad pgd None s
         else
           kbind (clearpteu pgd (sz - 2 * PGSIZE) s) (\<lambda>s.
           kbind (exec_args argv 0 pgd sz s) (\<lambda>(x, s).
           case x of
             None \<Rightarrow> exec_bad pgd None s
           | Some (sp, us) \<Rightarrow>
               let ustack = exec_ustack sp us;
                   sp = sp - word_of_nat ((3 + length us + 1) * 4)
               in kbind (copyout pgd sp (bytes_of_words ustack) s) (\<lambda>(r, s).
                  if r < 0 then exec_bad pgd None s
                  else exec_commit p path pgd sz sp entry s)))))"

definition exec :: "'z fils_scheme devsw \<Rightarrow> u8 list \<Rightarrow> u8 list list \<Rightarrow> 'z fils_scheme \<Rightarrow> (int \<times> 'z fils_scheme) kres" where
  "exec devsw path argv s =
     (case curproc s of
        None \<Rightarrow> Stuck ''proc''
      | Some p \<Rightarrow>
          kbind (begin_op s) (\<lambda>s.
          kbind (namei devsw path s) (\<lambda>(ip, s).
          case ip of
            None \<Rightarrow> kbind (end_op s) (\<lambda>s. OK (-1, s))
          | Some i \<Rightarrow>
              kbind (ilock ip s) (\<lambda>s.
              kbind (readi devsw i 0 52 s) (\<lambda>((r, bytes), s).
              if r \<noteq> 52 then exec_bad 0 ip s
              else
                let elf = elfhdr_of bytes
                in if e_magic elf \<noteq> 0x464C457F then exec_bad 0 ip s
                   else
                     kbind (setupkvm s) (\<lambda>(pgd, s).
                     if pgd = 0 then exec_bad 0 ip s
                     else
                       kbind (exec_load (unat (e_phnum elf)) devsw pgd i (e_phoff elf) 0 s) (\<lambda>(sz, s).
                       case sz of
                         None \<Rightarrow> exec_bad pgd ip s
                       | Some sz \<Rightarrow>
                           kbind (iunlockput i s) (\<lambda>s.
                           kbind (end_op s) (\<lambda>s.
                           exec_stack p path argv pgd sz (e_entry elf) s)))))))))"

end
