(* ===== verification/Outcomes.thy ===== *)
theory Outcomes
  imports Vm
begin

text \<open>
  A small calculus over outcomes: \<open>safe r Q\<close> says that if \<open>r\<close> returns, \<open>Q\<close> holds of the result, and
  that \<open>r\<close> is none of the panics about reference counts and the log that the library tracks.  Its
  rules are in the collection \<open>frame\<close>, each for a call in the last position and for a call whose
  result is bound.
\<close>

subsection \<open>The calculus\<close>

named_theorems frame

definition safe :: "'a kres \<Rightarrow> ('a \<Rightarrow> bool) \<Rightarrow> bool" where
  "safe r Q = (case r of OK x \<Rightarrow> Q x | Panic m \<Rightarrow> m \<notin> {''filedup'', ''fileclose'', ''log.committing''} | _ \<Rightarrow> True)"

lemma safe_OK [frame]: "Q x \<Longrightarrow> safe (OK x) Q"
  by (simp add: safe_def)

lemma safe_Panic [frame]: "m \<notin> {''filedup'', ''fileclose'', ''log.committing''} \<Longrightarrow> safe (Panic m) Q"
  by (simp add: safe_def)

lemma safe_Sleep [frame]: "safe (Sleep c) Q"
  by (simp add: safe_def)

lemma safe_Stuck [frame]: "safe (Stuck m) Q"
  by (simp add: safe_def)

lemma safe_if [frame]: "(c \<Longrightarrow> safe a Q) \<Longrightarrow> (\<not> c \<Longrightarrow> safe b Q) \<Longrightarrow> safe (if c then a else b) Q"
  by simp

lemma safe_option [frame]:
  "safe a Q \<Longrightarrow> (\<And>x. p = Some x \<Longrightarrow> safe (f x) Q) \<Longrightarrow> safe (case p of None \<Rightarrow> a | Some x \<Rightarrow> f x) Q"
  by (cases p) auto

lemma safe_pair [frame]: "safe (f a b) Q \<Longrightarrow> safe (case (a, b) of (x, y) \<Rightarrow> f x y) Q"
  by simp

lemma safe_split: "(\<And>a b. safe (f a b) Q) \<Longrightarrow> safe (case p of (x, y) \<Rightarrow> f x y) Q"
  by (cases p) auto

lemma safe_pair_app: "(\<And>a b. safe (f a b y) Q) \<Longrightarrow> safe ((case p of (a, b) \<Rightarrow> f a b) y) Q"
  by (cases p) auto

lemma safe_bind: "safe r P \<Longrightarrow> (\<And>x. r = OK x \<Longrightarrow> P x \<Longrightarrow> safe (f x) Q) \<Longrightarrow> safe (kbind r f) Q"
  by (cases r) (auto simp: safe_def)

lemma safe_bind_state: "safe r P \<Longrightarrow> (\<And>s. P s \<Longrightarrow> safe (f s) Q) \<Longrightarrow> safe (kbind r f) Q"
  by (rule safe_bind)

lemma safe_bind_pair:
  "safe r (\<lambda>(x, s). P s) \<Longrightarrow> (\<And>x s. P s \<Longrightarrow> safe (f (x, s)) Q) \<Longrightarrow> safe (kbind r f) Q"
  by (cases r) (auto simp: safe_def)

lemma safe_bind_value: "safe r (\<lambda>_. True) \<Longrightarrow> (\<And>x. safe (f x) Q) \<Longrightarrow> safe (kbind r f) Q"
  by (rule safe_bind) auto

lemma safe_mono: "safe r P \<Longrightarrow> (\<And>x. P x \<Longrightarrow> Q x) \<Longrightarrow> safe r Q"
  by (cases r) (auto simp: safe_def)

lemma safe_kfor: "(\<And>i s. I s \<Longrightarrow> safe (f i s) I) \<Longrightarrow> I s \<Longrightarrow> safe (kfor f is s) I"
  by (induction "is" arbitrary: s) (auto intro: safe_OK safe_bind_state)

lemma safe_conv: "safe r Q \<longleftrightarrow>
  (\<forall>x. r = OK x \<longrightarrow> Q x) \<and> (\<forall>m. r = Panic m \<longrightarrow> m \<notin> {''filedup'', ''fileclose'', ''log.committing''})"
  by (cases r) (auto simp: safe_def)

lemma safe_uva2ka: "safe (uva2ka pgd uva s) (\<lambda>_. True)"
  unfolding uva2ka_def Let_def by (simp add: safe_def split: prod.splits)

subsection \<open>Memory\<close>

text \<open>
  A property of states that does not depend on the memory and the free list: every routine of kalloc.c
  and vm.c keeps it.
\<close>

locale memory_frame =
  fixes I :: "'z mstate_scheme \<Rightarrow> bool"
  assumes I_mem: "I s \<Longrightarrow> I (s\<lparr>mem := m\<rparr>)"
    and I_freelist: "I s \<Longrightarrow> I (s\<lparr>freelist := a\<rparr>)"
begin

lemmas [frame] = I_mem I_freelist

lemma kept_if [frame]: "I a \<Longrightarrow> I b \<Longrightarrow> I (if c then a else b)"
  by simp

lemma kept_pair [frame]: "I s \<Longrightarrow> (case (r, s) of (x, s) \<Rightarrow> I s)"
  by simp

lemma kept_kalloc_pair [frame]:
  assumes "I s" and "\<And>a s1. I s1 \<Longrightarrow> safe (f a s1) Q"
  shows "safe (case kalloc s of (a, s1) \<Rightarrow> f a s1) Q"
  using assms by (auto simp: kalloc_def Let_def I_mem I_freelist)

lemma kept_kfree [frame]: "I s \<Longrightarrow> safe (kfree s v) I"
  unfolding kfree_def Let_def by (rule frame | assumption | (simp; fail))+

lemmas [frame] = kept_kfree [THEN safe_bind_state]

lemma kept_walkpgdir_pair [frame]:
  assumes "I s" and "\<And>a s1. I s1 \<Longrightarrow> safe (f a s1) Q"
  shows "safe (case walkpgdir pgd va al s of (a, s1) \<Rightarrow> f a s1) Q"
  using assms by (auto simp: walkpgdir_def kalloc_def Let_def I_mem I_freelist)

lemma kept_map_page [frame]: "I s \<Longrightarrow> safe (map_page pgd a pa perm s) (\<lambda>(r, s). I s)"
  unfolding map_page_def Let_def by (rule frame | assumption | (simp; fail))+

lemmas [frame] = kept_map_page [THEN safe_bind_pair]

lemma kept_mappages_loop [frame]: "I s \<Longrightarrow> safe (mappages_loop n pgd a pa perm s) (\<lambda>(r, s). I s)"
proof (induction n arbitrary: a pa s)
  case (Suc n)
  then show ?case by (simp only: mappages_loop.simps) (rule frame Suc.IH | assumption | (simp; fail))+
qed (simp add: kept_map_page)

lemma kept_mappages [frame]: "I s \<Longrightarrow> safe (mappages pgd va sz pa perm s) (\<lambda>(r, s). I s)"
  unfolding mappages_def Let_def by (rule frame | assumption)+

lemmas [frame] = kept_mappages [THEN safe_bind_pair]

lemma kept_map_kernel [frame]: "I s \<Longrightarrow> safe (map_kernel pgd ks s) (\<lambda>(r, s). I s)"
proof (induction ks arbitrary: s)
  case (Cons k ks)
  then show ?case by (simp only: map_kernel.simps) (rule frame Cons.IH | assumption | (simp; fail))+
qed (simp add: safe_def)

lemmas [frame] = kept_map_kernel [THEN safe_bind_pair]

lemma kept_setupkvm [frame]: "I s \<Longrightarrow> safe (setupkvm s) (\<lambda>(r, s). I s)"
  unfolding setupkvm_def Let_def by (rule frame | assumption | (simp; fail))+

lemmas [frame] = kept_setupkvm [THEN safe_bind_pair]

lemma kept_deallocuvm_loop [frame]: "I s \<Longrightarrow> safe (deallocuvm_loop pgd a oldsz s) I"
proof (induction "unat oldsz - unat a" arbitrary: a s rule: less_induct)
  case less
  have IH: "safe (deallocuvm_loop pgd a' oldsz s1) I" if "a < oldsz" "\<not> a' \<le> a" "I s1" for a' s1
    using that by (intro less.hyps) (auto simp: word_less_nat_alt word_le_nat_alt)
  show ?case
    using less.prems by (subst deallocuvm_loop.simps, unfold Let_def) (rule frame IH safe_bind_state [where P = I] | assumption | (simp; fail))+
qed

lemmas [frame] = kept_deallocuvm_loop [THEN safe_bind_state]

lemma kept_deallocuvm [frame]: "I s \<Longrightarrow> safe (deallocuvm pgd oldsz newsz s) (\<lambda>(r, s). I s)"
  unfolding deallocuvm_def Let_def by (rule frame | assumption | (simp; fail))+

lemmas [frame] = kept_deallocuvm [THEN safe_bind_pair]

lemma kept_allocuvm_loop [frame]: "I s \<Longrightarrow> safe (allocuvm_loop pgd a oldsz newsz s) (\<lambda>(r, s). I s)"
proof (induction "unat newsz - unat a" arbitrary: a s rule: less_induct)
  case less
  have IH: "safe (allocuvm_loop pgd (a + PGSIZE) oldsz newsz s1) (\<lambda>(r, s). I s)"
    if "a < newsz" "\<not> a + PGSIZE \<le> a" "I s1" for s1
    using that by (intro less.hyps) (auto simp: word_less_nat_alt word_le_nat_alt)
  show ?case
    using less.prems by (subst allocuvm_loop.simps, unfold Let_def) (rule frame IH | assumption | (simp; fail))+
qed

lemma kept_allocuvm [frame]: "I s \<Longrightarrow> safe (allocuvm pgd oldsz newsz s) (\<lambda>(r, s). I s)"
  unfolding allocuvm_def by (rule frame | assumption | (simp; fail))+

lemmas [frame] = kept_allocuvm [THEN safe_bind_pair]

lemma kept_freevm_entry [frame]: "I s \<Longrightarrow> safe (freevm_entry pgd i s) I"
  unfolding freevm_entry_def Let_def by (rule frame | assumption | (simp; fail))+

lemmas kept_kfor [frame] = safe_kfor [where I = I] safe_kfor [where I = I, THEN safe_bind_state]

lemma kept_freevm [frame]: "I s \<Longrightarrow> safe (freevm pgd s) I"
  unfolding freevm_def by (rule frame | assumption | (simp; fail))+

lemmas [frame] = kept_freevm [THEN safe_bind_state]

lemma kept_clearpteu [frame]: "I s \<Longrightarrow> safe (clearpteu pgd uva s) I"
  unfolding clearpteu_def Let_def by (rule frame | assumption | (simp; fail))+

lemmas [frame] = kept_clearpteu [THEN safe_bind_state]

lemma kept_copyuvm_loop [frame]: "I s \<Longrightarrow> safe (copyuvm_loop pgd d i sz s) (\<lambda>(r, s). I s)"
proof (induction "unat sz - unat i" arbitrary: i s rule: less_induct)
  case less
  have IH: "safe (copyuvm_loop pgd d (i + PGSIZE) sz s1) (\<lambda>(r, s). I s)"
    if "i < sz" "\<not> i + PGSIZE \<le> i" "I s1" for s1
    using that by (intro less.hyps) (auto simp: word_less_nat_alt word_le_nat_alt)
  show ?case
    using less.prems by (subst copyuvm_loop.simps, unfold Let_def) (rule frame IH | assumption | (simp; fail))+
qed

lemma kept_copyuvm [frame]: "I s \<Longrightarrow> safe (copyuvm pgd sz s) (\<lambda>(r, s). I s)"
  unfolding copyuvm_def by (rule frame | assumption | (simp; fail))+

lemmas [frame] = kept_copyuvm [THEN safe_bind_pair]

lemma kept_copyout [frame]: "I s \<Longrightarrow> safe (copyout pgd va p s) (\<lambda>(r, s). I s)"
proof (induction "length p" arbitrary: va p s rule: less_induct)
  case less
  have IH: "safe (copyout pgd va' (drop (min (length p) (4096 - unat (va - PGROUNDDOWN va))) p) s1) (\<lambda>(r, s). I s)"
    if "0 < length p" "I s1" for va' s1
    using that page_rest_pos [of va] by (intro less.hyps) auto
  show ?case
    using less.prems by (subst copyout.simps, unfold Let_def) (rule frame IH safe_uva2ka [THEN safe_bind_value] | assumption | (simp; fail))+
qed

lemmas [frame] = kept_copyout [THEN safe_bind_pair]

end

end
