(* ===== verification/Frames.thy ===== *)
theory Frames
  imports Exec Outcomes
begin

text \<open>
  What the routines below the system calls leave alone.  The relation \<open>keeps\<close> compares a state with an
  earlier one: the open files, the number of outstanding log operations, the current process and
  the table of processes, up to sleeping and waking.  Every routine of the buffer cache, the log,
  the file system and virtual memory keeps these.
\<close>

subsection \<open>The relation\<close>

definition calm :: "proc \<Rightarrow> proc" where
  "calm p = p\<lparr>pstate := (if pstate p = SLEEPING then RUNNABLE else pstate p), pchan := None\<rparr>"

definition keeps :: "'z fils_scheme \<Rightarrow> 'z fils_scheme \<Rightarrow> bool" where
  "keeps s0 s \<longleftrightarrow> ftable s = ftable s0 \<and> outstanding s = outstanding s0 \<and> committing s = committing s0 \<and>
     curproc s = curproc s0 \<and> initproc s = initproc s0 \<and> map calm (ptable s) = map calm (ptable s0)"

lemma keeps_refl [simp]: "keeps s s"
  by (simp add: keeps_def)

lemma keeps_trans: "keeps s0 s1 \<Longrightarrow> keeps s1 s2 \<Longrightarrow> keeps s0 s2"
  by (simp add: keeps_def)

lemma keeps_upd [frame]:
  "keeps s0 s \<Longrightarrow> keeps s0 (s\<lparr>mem := m\<rparr>)" "keeps s0 s \<Longrightarrow> keeps s0 (s\<lparr>freelist := a\<rparr>)"
  "keeps s0 s \<Longrightarrow> keeps s0 (s\<lparr>disk := d, dtrace := t\<rparr>)" "keeps s0 s \<Longrightarrow> keeps s0 (upd_buf s b f)"
  "keeps s0 s \<Longrightarrow> keeps s0 (s\<lparr>lh_n := n\<rparr>)" "keeps s0 s \<Longrightarrow> keeps s0 (s\<lparr>lh_block := bs\<rparr>)"
  "keeps s0 s \<Longrightarrow> keeps s0 (s\<lparr>fs_sb := sb\<rparr>)" "keeps s0 s \<Longrightarrow> keeps s0 (upd_inode s i g)"
  "keeps s0 s \<Longrightarrow> keeps s0 (s\<lparr>pipes := p\<rparr>)"
  by (simp_all add: keeps_def upd_buf_def upd_inode_def)

lemma keeps_if [frame]: "keeps s0 a \<Longrightarrow> keeps s0 b \<Longrightarrow> keeps s0 (if c then a else b)"
  by simp

lemma keeps_pair [frame]: "keeps s0 s \<Longrightarrow> (case (r, s) of (x, s) \<Rightarrow> keeps s0 s)"
  by simp

lemma keeps_wakeup1 [frame]: "keeps s0 s \<Longrightarrow> keeps s0 (wakeup1 s c)"
proof -
  have "calm \<circ> (\<lambda>p. if pstate p = SLEEPING \<and> pchan p = Some c then p\<lparr>pstate := RUNNABLE\<rparr> else p) = calm"
    by (auto simp: calm_def)
  then show "keeps s0 s \<Longrightarrow> keeps s0 (wakeup1 s c)" by (simp add: keeps_def wakeup1_def)
qed

lemma keeps_wakeup [frame]: "keeps s0 s \<Longrightarrow> keeps s0 (wakeup s c)"
  by (simp add: wakeup_def keeps_wakeup1)

lemma keeps_set_data [frame]: "keeps s0 s \<Longrightarrow> keeps s0 (set_data b d s)"
  by (simp add: set_data_def keeps_upd)

subsection \<open>Memory\<close>

interpretation keeps_vm: memory_frame "keeps s0" for s0
  by unfold_locales (auto intro: keeps_upd)

subsection \<open>Buffers and the log\<close>

lemma safe_acquiresleep: "safe (acquiresleep ch lk s) (\<lambda>_. True)"
  unfolding acquiresleep_def by (rule frame | (simp; fail))+

lemmas [frame] = safe_acquiresleep [THEN safe_bind_value]

lemma keeps_releasesleep_pair [frame]:
  assumes "keeps s0 s" and "\<And>a s1. keeps s0 s1 \<Longrightarrow> safe (f a s1) Q"
  shows "safe (case releasesleep ch lk s of (a, s1) \<Rightarrow> f a s1) Q"
  using assms by (simp add: releasesleep_def keeps_wakeup)

lemma keeps_iderw [frame]: "keeps s0 s \<Longrightarrow> safe (iderw b s) (keeps s0)"
  unfolding iderw_def Let_def disk_put_def by (rule frame | assumption | (simp; fail))+

lemmas [frame] = keeps_iderw [THEN safe_bind_state]

lemma safe_scan: "safe (scan_next n P bs b) (\<lambda>_. True)" "safe (scan_prev n P bs b) (\<lambda>_. True)"
  by (induction n arbitrary: b) (auto simp: safe_def)

lemma keeps_lock_buf [frame]: "keeps s0 s \<Longrightarrow> safe (lock_buf b s) (\<lambda>(r, s). keeps s0 s)"
  unfolding lock_buf_def by (rule frame | assumption | (simp; fail))+

lemma keeps_bget [frame]: "keeps s0 s \<Longrightarrow> safe (bget dev b s) (\<lambda>(r, s). keeps s0 s)"
  unfolding bget_def by (rule frame safe_scan [THEN safe_bind_value] | assumption | (simp; fail))+

lemmas [frame] = keeps_bget [THEN safe_bind_pair]

lemma keeps_bread [frame]: "keeps s0 s \<Longrightarrow> safe (bread dev b s) (\<lambda>(r, s). keeps s0 s)"
  unfolding bread_def by (rule frame | assumption | (simp; fail))+

lemmas [frame] = keeps_bread [THEN safe_bind_pair]

lemma keeps_bwrite [frame]: "keeps s0 s \<Longrightarrow> safe (bwrite b s) (keeps s0)"
  unfolding bwrite_def by (rule frame | assumption | (simp; fail))+

lemmas [frame] = keeps_bwrite [THEN safe_bind_state]

lemma keeps_brelse [frame]: "keeps s0 s \<Longrightarrow> safe (brelse b s) (keeps s0)"
  unfolding brelse_def Let_def push_buf_def unlink_buf_def by (rule frame | assumption | (simp; fail))+

lemmas [frame] = keeps_brelse [THEN safe_bind_state]

lemma keeps_log_write [frame]: "keeps s0 s \<Longrightarrow> safe (log_write b s) (keeps s0)"
  unfolding log_write_def Let_def by (rule frame | assumption | (simp; fail))+

lemmas [frame] = keeps_log_write [THEN safe_bind_state]

lemma keeps_write_head [frame]: "keeps s0 s \<Longrightarrow> safe (write_head s) (keeps s0)"
  unfolding write_head_def Let_def by (rule frame | assumption | (simp; fail))+

lemmas [frame] = keeps_write_head [THEN safe_bind_state]

lemma keeps_commit [frame]: "keeps s0 s \<Longrightarrow> safe (commit s) (keeps s0)"
  unfolding commit_def write_log_def install_trans_def log_block_def install_block_def
  by (rule frame | assumption | (simp; fail))+

lemma safe_begin_op: "safe (begin_op s) (\<lambda>s'. s' = s\<lparr>outstanding := outstanding s + 1\<rparr> \<and> \<not> committing s)"
  unfolding begin_op_def by (simp add: safe_def)

lemma safe_end_op:
  assumes "\<not> committing s"
  shows "safe (end_op s) (keeps (s\<lparr>outstanding := outstanding s - 1\<rparr>))"
proof -
  let ?t = "s\<lparr>outstanding := outstanding s - 1, committing := True\<rparr>"
  have "keeps (s\<lparr>outstanding := outstanding s - 1\<rparr>) (u\<lparr>committing := False\<rparr>)" if "keeps ?t u" for u
    using that assms by (simp add: keeps_def)
  then show ?thesis
    using assms keeps_commit [OF keeps_refl, of ?t]
    unfolding end_op_def Let_def
    by (auto intro!: frame safe_bind_state [where P = "keeps ?t"])
qed

text \<open>A transaction: the state in which one more operation is outstanding, and back.\<close>

definition opened :: "'z logs_scheme \<Rightarrow> 'z logs_scheme" where
  "opened s = s\<lparr>outstanding := outstanding s + 1\<rparr>"

lemma keeps_begin_op_bind [frame]:
  assumes "keeps s0 s" and "\<And>s1. \<not> committing s0 \<Longrightarrow> keeps (opened s0) s1 \<Longrightarrow> safe (f s1) Q"
  shows "safe (kbind (begin_op s) f) Q"
  using assms by (intro safe_bind_state [OF safe_begin_op]) (auto simp: opened_def keeps_def)

lemma keeps_end_op [frame]:
  assumes "keeps (opened s0) s" and "\<not> committing s0"
  shows "safe (end_op s) (keeps s0)"
  using assms by (intro safe_mono [OF safe_end_op]) (auto simp: opened_def keeps_def)

lemmas [frame] = keeps_end_op [THEN safe_bind_state]

subsection \<open>The file system\<close>

lemma keeps_bzero [frame]: "keeps s0 s \<Longrightarrow> safe (bzero dev b s) (keeps s0)"
  unfolding bzero_def by (rule frame | assumption | (simp; fail))+

lemmas [frame] = keeps_bzero [THEN safe_bind_state]

lemma keeps_readsb [frame]: "keeps s0 s \<Longrightarrow> safe (readsb dev s) (\<lambda>(r, s). keeps s0 s)"
  unfolding readsb_def Let_def by (rule frame | assumption | (simp; fail))+

lemmas [frame] = keeps_readsb [THEN safe_bind_pair]

text \<open>The two searches of the file system go through the disk as the superblock says, which does not change.\<close>

lemma bread_sb: "bread dev b s = OK (x, s1) \<Longrightarrow> fs_sb s1 = fs_sb s"
  by (auto dest!: bread_frame bio_frame_fss)

lemma brelse_sb: "brelse b s = OK s1 \<Longrightarrow> fs_sb s1 = fs_sb s"
  by (auto dest!: brelse_frame bio_frame_fss)

lemma keeps_balloc_from: "keeps s0 s \<Longrightarrow> safe (balloc_from dev b s) (\<lambda>(r, s). keeps s0 s)"
proof (induction "sb_size (fs_sb s) - b" arbitrary: b s rule: less_induct)
  case less
  have IH: "safe (balloc_from dev (b + BPB) s2) (\<lambda>(r, s). keeps s0 s)"
    if "\<not> sb_size (fs_sb s) \<le> b" "bread dev n s = OK (x, s1)" "brelse x s1 = OK s2" "keeps s0 s2" for n x s1 s2
    using that by (intro less.hyps) (auto simp: bread_sb brelse_sb)
  have 2: "safe (kbind (brelse x s1) (\<lambda>s1. balloc_from dev (b + BPB) s1)) (\<lambda>(r, s). keeps s0 s)"
    if "\<not> sb_size (fs_sb s) \<le> b" "bread dev n s = OK (x, s1)" "keeps s0 s1" for n x s1
    using that by (intro safe_bind [OF keeps_brelse]) (auto intro: IH)
  have 1: "safe (kbind (bread dev n s) (\<lambda>(x, s1). g x s1)) (\<lambda>(r, s). keeps s0 s)"
    if "\<And>x s1. bread dev n s = OK (x, s1) \<Longrightarrow> keeps s0 s1 \<Longrightarrow> safe (g x s1) (\<lambda>(r, s). keeps s0 s)" for n g
    using that by (intro safe_bind [OF keeps_bread [OF less.prems]]) auto
  show ?case
    by (subst balloc_from.simps, unfold Let_def) (rule 1 2 frame | assumption | (simp; fail))+
qed

lemma keeps_balloc [frame]: "keeps s0 s \<Longrightarrow> safe (balloc dev s) (\<lambda>(r, s). keeps s0 s)"
  unfolding balloc_def by (rule keeps_balloc_from)

lemmas [frame] = keeps_balloc [THEN safe_bind_pair]

lemma keeps_bfree [frame]: "keeps s0 s \<Longrightarrow> safe (bfree dev b s) (keeps s0)"
  unfolding bfree_def Let_def by (rule frame | assumption | (simp; fail))+

lemmas [frame] = keeps_bfree [THEN safe_bind_state]

lemma keeps_iget [frame]: "keeps s0 s \<Longrightarrow> safe (iget dev inum s) (\<lambda>(r, s). keeps s0 s)"
  unfolding iget_def by (rule frame | assumption | (simp; fail))+

lemmas [frame] = keeps_iget [THEN safe_bind_pair]

lemma keeps_ialloc_from: "keeps s0 s \<Longrightarrow> safe (ialloc_from dev type inum s) (\<lambda>(r, s). keeps s0 s)"
proof (induction "sb_ninodes (fs_sb s) - inum" arbitrary: inum s rule: less_induct)
  case less
  have IH: "safe (ialloc_from dev type (inum + 1) s2) (\<lambda>(r, s). keeps s0 s)"
    if "\<not> sb_ninodes (fs_sb s) \<le> inum" "bread dev n s = OK (x, s1)" "brelse x s1 = OK s2" "keeps s0 s2" for n x s1 s2
    using that by (intro less.hyps) (auto simp: bread_sb brelse_sb)
  have 2: "safe (kbind (brelse x s1) (\<lambda>s1. ialloc_from dev type (inum + 1) s1)) (\<lambda>(r, s). keeps s0 s)"
    if "\<not> sb_ninodes (fs_sb s) \<le> inum" "bread dev n s = OK (x, s1)" "keeps s0 s1" for n x s1
    using that by (intro safe_bind [OF keeps_brelse]) (assumption | rule IH)+
  have 1: "safe (kbind (bread dev n s) (\<lambda>(x, s1). g x s1)) (\<lambda>(r, s). keeps s0 s)"
    if "\<And>x s1. bread dev n s = OK (x, s1) \<Longrightarrow> keeps s0 s1 \<Longrightarrow> safe (g x s1) (\<lambda>(r, s). keeps s0 s)" for n g
    using that by (intro safe_bind [OF keeps_bread [OF less.prems]]) auto
  show ?case
    by (subst ialloc_from.simps, unfold Let_def) (rule 1 2 frame | assumption | (simp; fail))+
qed

lemma keeps_ialloc [frame]: "keeps s0 s \<Longrightarrow> safe (ialloc dev type s) (\<lambda>(r, s). keeps s0 s)"
  unfolding ialloc_def by (rule keeps_ialloc_from)

lemmas [frame] = keeps_ialloc [THEN safe_bind_pair]

lemma keeps_iupdate [frame]: "keeps s0 s \<Longrightarrow> safe (iupdate i s) (keeps s0)"
  unfolding iupdate_def Let_def by (rule frame | assumption | (simp; fail))+

lemmas [frame] = keeps_iupdate [THEN safe_bind_state]

lemma keeps_ilock [frame]: "keeps s0 s \<Longrightarrow> safe (ilock p s) (keeps s0)"
  unfolding ilock_def Let_def by (rule frame | assumption | (simp; fail))+

lemmas [frame] = keeps_ilock [THEN safe_bind_state]

lemma keeps_iunlock [frame]: "keeps s0 s \<Longrightarrow> safe (iunlock p s) (keeps s0)"
  unfolding iunlock_def Let_def by (rule frame | assumption | (simp; fail))+

lemmas [frame] = keeps_iunlock [THEN safe_bind_state]

lemma keeps_bmap [frame]: "keeps s0 s \<Longrightarrow> safe (bmap i bn s) (\<lambda>(r, s). keeps s0 s)"
  unfolding bmap_def Let_def
  by (rule frame safe_bind_pair [where P = "keeps s0"] | assumption | (simp; fail))+

lemmas [frame] = keeps_bmap [THEN safe_bind_pair]

lemma keeps_itrunc [frame]: "keeps s0 s \<Longrightarrow> safe (itrunc i s) (keeps s0)"
  unfolding itrunc_def itrunc_direct_def itrunc_indirect_def Let_def
  by (rule frame safe_bind_state [where P = "keeps s0"] | assumption | (simp; fail))+

lemma keeps_iput [frame]: "keeps s0 s \<Longrightarrow> safe (iput i s) (keeps s0)"
  unfolding iput_def Let_def
  by (rule frame safe_bind_state [where P = "keeps s0"] | assumption | (simp; fail))+

lemmas [frame] = keeps_iput [THEN safe_bind_state]

lemma keeps_iunlockput [frame]: "keeps s0 s \<Longrightarrow> safe (iunlockput i s) (keeps s0)"
  unfolding iunlockput_def by (rule frame | assumption)+

lemmas [frame] = keeps_iunlockput [THEN safe_bind_state]

lemma keeps_idup [frame]: "keeps s0 s \<Longrightarrow> (case idup c s of (x, s) \<Rightarrow> keeps s0 s)"
  by (simp add: idup_def keeps_upd)

lemma keeps_readi_loop: "keeps s0 s \<Longrightarrow> safe (readi_loop i off n s) (\<lambda>(r, s). keeps s0 s)"
proof (induction n arbitrary: off s rule: less_induct)
  case (less n)
  have IH: "safe (kbind (readi_loop i off' (n - min n (BSIZE - off mod BSIZE)) s1) (\<lambda>(rest, s). OK (b @ rest, s))) (\<lambda>(r, s). keeps s0 s)"
    if "n \<noteq> 0" "keeps s0 s1" for off' s1 b
    using that by (intro safe_bind_pair [where P = "keeps s0", OF less.IH]) (auto intro: frame)
  show ?case
    using less.prems by (subst readi_loop.simps, unfold Let_def) (rule IH frame | assumption | (simp; fail))+
qed

lemmas [frame] = keeps_readi_loop [THEN safe_bind_pair]

lemma keeps_writei_loop: "keeps s0 s \<Longrightarrow> safe (writei_loop i off src s) (\<lambda>(r, s). keeps s0 s)"
proof (induction "length src" arbitrary: off src s rule: less_induct)
  case less
  have IH: "safe (kbind (writei_loop i off' (drop (min (length src) (BSIZE - off mod BSIZE)) src) s1) (\<lambda>(k, s). OK (m + k, s))) (\<lambda>(r, s). keeps s0 s)"
    if "src \<noteq> []" "keeps s0 s1" for off' s1 m
    using that by (intro safe_bind_pair [where P = "keeps s0", OF less.hyps]) (auto intro: frame)
  show ?case
    using less.prems by (subst writei_loop.simps, unfold Let_def) (rule IH frame | assumption | (simp; fail))+
qed

lemmas [frame] = keeps_writei_loop [THEN safe_bind_pair]

subsection \<open>Reading and writing files\<close>

text \<open>What the file system relies on of the drivers in the device switch.\<close>

locale quiet_devices =
  fixes devsw :: "'z fils_scheme devsw"
  assumes dev_read: "fst (devsw major) = Some rd \<Longrightarrow> keeps s0 s \<Longrightarrow> safe (rd i n s) (\<lambda>(r, s). keeps s0 s)"
    and dev_write: "snd (devsw major) = Some wr \<Longrightarrow> keeps s0 s \<Longrightarrow> safe (wr i src n s) (\<lambda>(r, s). keeps s0 s)"
begin

lemma keeps_readi [frame]: "keeps s0 s \<Longrightarrow> safe (readi devsw i off n s) (\<lambda>(r, s). keeps s0 s)"
  unfolding readi_def Let_def by (rule frame dev_read | assumption | (simp; fail))+

lemmas keeps_readi_bind [frame] = keeps_readi [THEN safe_bind_pair]

lemma keeps_writei [frame]: "keeps s0 s \<Longrightarrow> safe (writei devsw i src off n s) (\<lambda>(r, s). keeps s0 s)"
proof -
  have body: "safe (kbind r g) (\<lambda>(r, s). keeps s0 s)"
    if "safe r (\<lambda>(n, off, s). keeps s0 s)" "\<And>n off s. keeps s0 s \<Longrightarrow> safe (g (n, off, s)) (\<lambda>(r, s). keeps s0 s)"
    for r :: "(u32 \<times> u32 \<times> 'z fils_scheme) kres" and g :: "u32 \<times> u32 \<times> 'z fils_scheme \<Rightarrow> (int \<times> 'z fils_scheme) kres"
    using that by (intro safe_bind [where P = "\<lambda>(n, off, s). keeps s0 s"]) auto
  show "keeps s0 s \<Longrightarrow> safe (writei devsw i src off n s) (\<lambda>(r, s). keeps s0 s)"
    unfolding writei_def Let_def by (rule body frame dev_write | assumption | (simp add: frame; fail))+
qed

lemmas keeps_writei_bind [frame] = keeps_writei [THEN safe_bind_pair]

lemma keeps_read_dirent [frame]: "keeps s0 s \<Longrightarrow> safe (read_dirent devsw dp off s) (\<lambda>(r, s). keeps s0 s)"
  unfolding read_dirent_def by (rule frame safe_pair_app | assumption | (simp; fail))+

lemmas keeps_read_dirent_bind [frame] = keeps_read_dirent [THEN safe_bind_pair]

lemma keeps_dirlookup_scan: "keeps s0 s \<Longrightarrow> safe (dirlookup_scan devsw dp name offs s) (\<lambda>(r, s). keeps s0 s)"
proof (induction offs arbitrary: s)
  case (Cons off offs)
  then show ?case by (simp only: dirlookup_scan.simps) (rule frame Cons.IH | assumption | (simp; fail))+
qed (simp add: safe_def)

lemma keeps_dirlookup [frame]: "keeps s0 s \<Longrightarrow> safe (dirlookup devsw dp name s) (\<lambda>(r, s). keeps s0 s)"
  unfolding dirlookup_def by (rule frame keeps_dirlookup_scan | assumption | (simp; fail))+

lemmas keeps_dirlookup_bind [frame] = keeps_dirlookup [THEN safe_bind_pair]

lemma keeps_dirlink_scan [frame]: "keeps s0 s \<Longrightarrow> safe (dirlink_scan devsw dp e offs s) (\<lambda>(r, s). keeps s0 s)"
proof (induction offs arbitrary: s)
  case (Cons off offs)
  then show ?case by (simp only: dirlink_scan.simps) (rule frame Cons.IH | assumption | (simp; fail))+
qed (simp add: safe_def)

lemmas keeps_dirlink_scan_bind [frame] = keeps_dirlink_scan [THEN safe_bind_pair]

lemma keeps_dirlink [frame]: "keeps s0 s \<Longrightarrow> safe (dirlink devsw dp name inum s) (\<lambda>(r, s). keeps s0 s)"
  unfolding dirlink_def Let_def by (rule frame | assumption | rule safe_split | (simp; fail))+

lemmas keeps_dirlink_bind [frame] = keeps_dirlink [THEN safe_bind_pair]

lemma keeps_namex_loop: "keeps s0 s \<Longrightarrow> safe (namex_loop devsw ip path np name s) (\<lambda>(r, s). keeps s0 s)"
proof (induction "length path" arbitrary: ip path name s rule: less_induct)
  case less
  have IH: "safe (namex_loop devsw ip' path' np name' s1) (\<lambda>(r, s). keeps s0 s)"
    if "skipelem path name = Some (path', name')" "keeps s0 s1" for ip' path' name' s1
    using that by (intro less.hyps) (auto dest: skipelem_shorter)
  have opt: "safe (case skipelem path name of None \<Rightarrow> a | Some (p, n) \<Rightarrow> f p n) Q"
    if "safe a Q" "\<And>p n. skipelem path name = Some (p, n) \<Longrightarrow> safe (f p n) Q"
    for a Q and f :: "u8 list \<Rightarrow> u8 list \<Rightarrow> ((nat option \<times> u8 list) \<times> 'z fils_scheme) kres"
    using that by (cases "skipelem path name") auto
  show ?case
    using less.prems by (subst namex_loop.simps) (rule opt frame IH | assumption | rule safe_split | (simp; fail))+
qed

lemma keeps_namex [frame]: "keeps s0 s \<Longrightarrow> safe (namex devsw path np name s) (\<lambda>(r, s). keeps s0 s)"
  unfolding namex_def
  by (rule frame keeps_namex_loop safe_bind_pair [where P = "keeps s0"] | assumption | (simp; fail))+

lemmas keeps_namex_bind [frame] = keeps_namex [THEN safe_bind_pair]

lemma keeps_namei [frame]: "keeps s0 s \<Longrightarrow> safe (namei devsw path s) (\<lambda>(r, s). keeps s0 s)"
  unfolding namei_def by (rule frame safe_pair_app | assumption | (simp; fail))+

lemmas keeps_namei_bind [frame] = keeps_namei [THEN safe_bind_pair]

lemma keeps_nameiparent [frame]: "keeps s0 s \<Longrightarrow> safe (nameiparent devsw path name s) (\<lambda>(r, s). keeps s0 s)"
  unfolding nameiparent_def by (rule keeps_namex)

lemmas keeps_nameiparent_bind [frame] = keeps_nameiparent [THEN safe_bind_pair]

subsection \<open>Loading a program\<close>

lemma keeps_loaduvm_loop: "keeps s0 s \<Longrightarrow> safe (loaduvm_loop devsw pgd addr ip off i sz s) (\<lambda>(r, s). keeps s0 s)"
proof (induction "unat sz - unat i" arbitrary: i s rule: less_induct)
  case less
  have IH: "safe (loaduvm_loop devsw pgd addr ip off (i + PGSIZE) sz s1) (\<lambda>(r, s). keeps s0 s)"
    if "i < sz" "\<not> i + PGSIZE \<le> i" "keeps s0 s1" for s1
    using that by (intro less.hyps) (auto simp: word_less_nat_alt word_le_nat_alt)
  show ?case
    using less.prems by (subst loaduvm_loop.simps, unfold Let_def) (rule frame IH safe_pair_app | assumption | (simp; fail))+
qed

lemma keeps_loaduvm [frame]: "keeps s0 s \<Longrightarrow> safe (loaduvm devsw pgd addr ip off sz s) (\<lambda>(r, s). keeps s0 s)"
  unfolding loaduvm_def by (rule frame keeps_loaduvm_loop | assumption | (simp; fail))+

lemmas keeps_loaduvm_bind [frame] = keeps_loaduvm [THEN safe_bind_pair]

lemma keeps_exec_load [frame]: "keeps s0 s \<Longrightarrow> safe (exec_load n devsw pgd ip off sz s) (\<lambda>(r, s). keeps s0 s)"
proof (induction n arbitrary: off sz s)
  case (Suc n)
  then show ?case
    by (simp only: exec_load.simps, unfold Let_def) (rule frame Suc.IH safe_pair_app | assumption | (simp; fail))+
qed (simp add: safe_def)

lemmas keeps_exec_load_bind [frame] = keeps_exec_load [THEN safe_bind_pair]

end

lemma keeps_exec_args [frame]: "keeps s0 s \<Longrightarrow> safe (exec_args as argc pgd sp s) (\<lambda>(r, s). keeps s0 s)"
proof (induction as arbitrary: argc sp s)
  case (Cons a as)
  then show ?case
    by (simp only: exec_args.simps, unfold Let_def)
       (rule frame Cons.IH Cons.IH [THEN safe_bind_pair] | assumption | (simp; fail))+
qed (simp add: safe_def)

lemmas [frame] = keeps_exec_args [THEN safe_bind_pair]

subsection \<open>exec\<close>

lemma keeps_upd_proc:
  assumes "keeps s0 s" and "\<And>q q0. calm q = calm q0 \<Longrightarrow> calm (f q) = calm (f0 q0)"
  shows "keeps (upd_proc s0 i f0) (upd_proc s i f)"
proof -
  have l: "length (ptable s) = length (ptable s0)" using assms(1) by (metis keeps_def length_map)
  have "map calm ((ptable s)[i := f (ptable s ! i)]) = map calm ((ptable s0)[i := f0 (ptable s0 ! i)])"
  proof (cases "i < length (ptable s)")
    case True
    then have "calm (ptable s ! i) = calm (ptable s0 ! i)"
      using assms(1) l unfolding keeps_def by (metis nth_map)
    then have "calm (f (ptable s ! i)) = calm (f0 (ptable s0 ! i))" by (rule assms(2))
    then show ?thesis using assms(1) by (simp add: map_update keeps_def)
  next
    case False
    then show ?thesis using assms(1) l by (simp add: list_update_beyond keeps_def)
  qed
  then show ?thesis using assms(1) by (simp add: keeps_def upd_proc_def)
qed

text \<open>
  How exec ends: with an error it has changed nothing of what \<open>keeps\<close> compares; otherwise the
  process has a new name, page table and size.
\<close>

definition exec_post :: "nat \<Rightarrow> 'z fils_scheme \<Rightarrow> int \<times> 'z fils_scheme \<Rightarrow> bool" where
  "exec_post p s0 = (\<lambda>(r, s). if r < 0 then keeps s0 s
     else \<exists>nm pgd sz. keeps (upd_proc s0 p (\<lambda>q. q\<lparr>pname := nm, pgdir := pgd, psz := sz\<rparr>)) s)"

lemma exec_post_fail [frame]: "keeps s0 s \<Longrightarrow> exec_post p s0 (- 1, s)"
  by (simp add: exec_post_def)

lemma exec_post_bad: "keeps s0 s \<Longrightarrow> safe (exec_bad pgd None s) (exec_post p s0)"
  unfolding exec_bad_def
  by (rule frame safe_bind_state [where P = "keeps s0"] | assumption | (simp add: frame; fail))+

lemma exec_post_bad_op:
  "keeps (opened s0) s \<Longrightarrow> \<not> committing s0 \<Longrightarrow> ip = Some i \<Longrightarrow> safe (exec_bad pgd ip s) (exec_post p s0)"
  unfolding exec_bad_def 
  apply (simp only: option.case)
  by (rule frame safe_bind_state [where P = "keeps (opened s0)"] | assumption | (simp add: frame; fail))+

lemma keeps_switchuvm: "keeps s0 s \<Longrightarrow> safe (switchuvm s p) (keeps s0)"
  unfolding switchuvm_def by (rule frame | (simp add: keeps_def; fail))+

lemmas [frame] = keeps_switchuvm [THEN safe_bind_state]

lemma exec_post_commit:
  assumes "keeps s0 s"
  shows "safe (exec_commit p path pgd sz sp entry s) (exec_post p s0)"
proof -
  let ?nm = "safestrcpy (pname (proc_at s p)) (carr_of (last_elem path path)) 16"
  let ?s1 = "upd_proc s p (\<lambda>q. q\<lparr>pname := ?nm\<rparr>)"
  let ?s2 = "upd_proc ?s1 p (\<lambda>q. q\<lparr>pgdir := pgd, psz := sz\<rparr>)"
  have eq: "?s2 = upd_proc s p (\<lambda>q. q\<lparr>pname := ?nm, pgdir := pgd, psz := sz\<rparr>)"
    by (cases "p < length (ptable s)") (simp_all add: upd_proc_def list_update_beyond)
  have "keeps (upd_proc s0 p (\<lambda>q. q\<lparr>pname := ?nm, pgdir := pgd, psz := sz\<rparr>)) ?s2"
    unfolding eq by (rule keeps_upd_proc [OF assms], case_tac q, case_tac q0) (simp add: calm_def cong: if_cong)
  moreover have "upd_proc s p (\<lambda>q. q\<lparr>pname := safestrcpy (pname q) (carr_of (last_elem path path)) 16\<rparr>) = ?s1"
    by (simp add: upd_proc_def)
  ultimately show ?thesis
    unfolding exec_commit_def Let_def
    by (auto simp: exec_post_def intro!: frame simp del: upd_proc_simps)
qed

lemma exec_post_stack: "keeps s0 s \<Longrightarrow> safe (exec_stack p path argv pgd sz entry s) (exec_post p s0)"
  unfolding exec_stack_def Let_def
  by (rule frame exec_post_bad exec_post_commit | assumption | rule safe_split | (simp; fail))+

context quiet_devices
begin

lemma exec_safe:
  assumes "curproc s = Some p"
  shows "safe (exec devsw path argv s) (exec_post p s)"
proof -
  have op: "safe (kbind (begin_op s) g) (exec_post p s)"
    if "\<And>s1. \<not> committing s \<Longrightarrow> keeps (opened s) s1 \<Longrightarrow> safe (g s1) (exec_post p s)" for g
    using that by (rule keeps_begin_op_bind [OF keeps_refl])
  show ?thesis
    unfolding exec_def assms option.case Let_def
    by (rule op frame exec_post_bad_op exec_post_stack safe_pair_app | assumption | (simp add: frame; fail))+
qed

end

end
