(* ===== verification/Console.thy ===== *)
theory Console
  imports File
begin

text \<open>
  The console, console.c, with the serial port it writes to (uart.c) and the call trace it prints
  (getcallerpcs of spinlock.c).  The screen memory is a list of 16-bit cells, the cursor register of
  the display a number, and the bytes sent to the serial port are collected.  The input line buffer
  has three wrapping indices: up to \<open>in_r\<close> the bytes have been read, up to \<open>in_w\<close> they are complete
  lines, up to \<open>in_e\<close> they are still being edited.
\<close>

subsection \<open>State\<close>

abbreviation (input) "INPUT_BUF \<equiv> (128 :: nat)"
abbreviation (input) "BACKSPACE \<equiv> (0x100 :: int)"

record conss = fils +
  cons_locking :: bool
  crt :: "u16 list"
  crt_pos :: int
  uart :: bool
  uart_out :: "u8 list"
  in_buf :: "u8 list"
  in_r :: u32
  in_w :: u32
  in_e :: u32

subsection \<open>Output\<close>

text \<open>The wait of uartputc for the transmitter is bounded and has no effect on what is sent.\<close>

definition uartputc :: "int \<Rightarrow> 'z conss_scheme \<Rightarrow> 'z conss_scheme" where
  "uartputc c s = (if uart s then s\<lparr>uart_out := uart_out s @ [word_of_int c]\<rparr> else s)"

definition cgaputc :: "int \<Rightarrow> 'z conss_scheme \<Rightarrow> 'z conss_scheme kres" where
  "cgaputc c s =
     (let pos = crt_pos s;
          (pos, s) = (if c = 10 then (pos + (80 - pos mod 80), s)
                      else if c = BACKSPACE then (if pos > 0 then pos - 1 else pos, s)
                      else (pos + 1, s\<lparr>crt := (crt s)[nat pos := word_of_int c AND 0xFF OR 0x0700]\<rparr>))
      in if pos < 0 \<or> pos > 25 * 80 then Panic ''pos under/overflow''
         else
           let (pos, s) =
             (if pos div 80 \<ge> 24 then
                let cells = overwrite (crt s) 0 (slice (crt s) 80 (23 * 80));
                    pos = pos - 80
                in (pos, s\<lparr>crt := overwrite cells (nat pos) (replicate (24 * 80 - nat pos) 0)\<rparr>)
              else (pos, s))
           in OK (s\<lparr>crt_pos := pos, crt := (crt s)[nat pos := 32 OR 0x0700]\<rparr>))"

definition consputc :: "int \<Rightarrow> 'z conss_scheme \<Rightarrow> 'z conss_scheme kres" where
  "consputc c s =
     cgaputc c (if c = BACKSPACE then uartputc 8 (uartputc 32 (uartputc 8 s)) else uartputc c s)"

definition digits :: "u8 list" where
  "digits = [48, 49, 50, 51, 52, 53, 54, 55, 56, 57, 97, 98, 99, 100, 101, 102]"

text \<open>The digits of \<open>x\<close>, least significant first, as the buffer receives them.\<close>

function printint_buf :: "nat \<Rightarrow> nat \<Rightarrow> u8 list" where
  "printint_buf x base =
     (digits ! (x mod base) # (if x div base \<noteq> 0 \<and> base > 1 then printint_buf (x div base) base else []))"
  by pat_completeness auto
termination
  by (relation "measure fst") (auto intro!: div_less_dividend intro: gr0I)

declare printint_buf.simps [simp del]

definition printint :: "u32 \<Rightarrow> nat \<Rightarrow> bool \<Rightarrow> 'z conss_scheme \<Rightarrow> 'z conss_scheme kres" where
  "printint xx base sign s =
     (let neg = (sign \<and> sint xx < 0);
          x = (if neg then - xx else xx);
          buf = printint_buf (unat x) base @ (if neg then [45] else [])
      in kfor (\<lambda>c. consputc (uint c)) (rev buf) s)"

text \<open>The arguments of cprintf: words, and strings that may be null.\<close>

datatype carg = CInt u32 | CStr "u8 list option"

fun cprintf_loop :: "u8 list \<Rightarrow> carg list \<Rightarrow> 'z conss_scheme \<Rightarrow> 'z conss_scheme kres" where
  "cprintf_loop [] args s = OK s"
| "cprintf_loop (c # fmt) args s =
     (if c \<noteq> 37 then kbind (consputc (uint c) s) (cprintf_loop fmt args)
      else
        (case fmt of
           [] \<Rightarrow> OK s
         | f # fmt \<Rightarrow>
             if f = 100 then
               (case args of CInt w # args \<Rightarrow> kbind (printint w 10 True s) (cprintf_loop fmt args) | _ \<Rightarrow> Stuck ''arg'')
             else if f = 120 \<or> f = 112 then
               (case args of CInt w # args \<Rightarrow> kbind (printint w 16 False s) (cprintf_loop fmt args) | _ \<Rightarrow> Stuck ''arg'')
             else if f = 115 then
               (case args of
                  CStr str # args \<Rightarrow>
                    kbind (kfor (\<lambda>c. consputc (uint c))
                             (case str of Some cs \<Rightarrow> cs | None \<Rightarrow> [40, 110, 117, 108, 108, 41]) s)
                      (cprintf_loop fmt args)
                | _ \<Rightarrow> Stuck ''arg'')
             else if f = 37 then kbind (consputc 37 s) (cprintf_loop fmt args)
             else kbind (consputc 37 s) (\<lambda>s. kbind (consputc (uint f) s) (cprintf_loop fmt args))))"

definition cprintf :: "u8 list option \<Rightarrow> carg list \<Rightarrow> 'z conss_scheme \<Rightarrow> 'z conss_scheme kres" where
  "cprintf fmt args s = (case fmt of None \<Rightarrow> Panic ''null fmt'' | Some f \<Rightarrow> cprintf_loop f args s)"

text \<open>String literals of the code as bytes.\<close>

definition cstr :: "string \<Rightarrow> u8 list" where
  "cstr xs = map (\<lambda>c. of_char c) xs"

subsection \<open>The process listing\<close>

primrec getcallerpcs_loop :: "nat \<Rightarrow> mem \<Rightarrow> u32 \<Rightarrow> u32 list" where
  "getcallerpcs_loop 0 m ebp = []"
| "getcallerpcs_loop (Suc n) m ebp =
     (if ebp = 0 \<or> ebp < KERNBASE \<or> ebp = 0xFFFFFFFF then replicate (Suc n) 0
      else load32 m (ebp + 4) # getcallerpcs_loop n m (load32 m ebp))"

definition getcallerpcs :: "mem \<Rightarrow> u32 \<Rightarrow> u32 list" where
  "getcallerpcs m v = getcallerpcs_loop 10 m (v - 8)"

definition state_name :: "procstate \<Rightarrow> string" where
  "state_name st = (case st of UNUSED \<Rightarrow> ''unused'' | EMBRYO \<Rightarrow> ''embryo'' | SLEEPING \<Rightarrow> ''sleep ''
     | RUNNABLE \<Rightarrow> ''runble'' | RUNNING \<Rightarrow> ''run   '' | ZOMBIE \<Rightarrow> ''zombie'')"

definition carr_str :: "carr \<Rightarrow> nat \<Rightarrow> u8 list" where
  "carr_str a n = takeWhile (\<lambda>c. c \<noteq> 0) (map a [0..<n])"

definition procdump_one :: "nat \<Rightarrow> 'z conss_scheme \<Rightarrow> 'z conss_scheme kres" where
  "procdump_one i s =
     (let p = proc_at s i
      in if pstate p = UNUSED then OK s
         else
           kbind (cprintf (Some (cstr ''%d %s %s'')) [CInt (word_of_int (pid p)), CStr (Some (cstr (state_name (pstate p)))),
                    CStr (Some (carr_str (pname p) 16))] s) (\<lambda>s.
           kbind (if pstate p = SLEEPING then
                    let pc = getcallerpcs (mem s) (load32 (mem s) (pcontext p + 12) + 8)
                    in kfor (\<lambda>w. cprintf (Some (cstr '' %p'')) [CInt w]) (takeWhile (\<lambda>w. w \<noteq> 0) pc) s
                  else OK s)
             (cprintf (Some [10]) [])))"

definition procdump :: "'z conss_scheme \<Rightarrow> 'z conss_scheme kres" where
  "procdump s = kfor procdump_one [0..<NPROC] s"

subsection \<open>Input\<close>

function kill_line :: "'z conss_scheme \<Rightarrow> 'z conss_scheme kres" where
  "kill_line s =
     (if in_e s \<noteq> in_w s \<and> in_buf s ! (unat (in_e s - 1) mod INPUT_BUF) \<noteq> 10
      then kbind (consputc BACKSPACE (s\<lparr>in_e := in_e s - 1\<rparr>)) kill_line
      else OK s)"
  by pat_completeness auto

lemma cgaputc_input:
  "cgaputc c s = OK s' \<Longrightarrow> in_e s' = in_e s \<and> in_w s' = in_w s \<and> in_r s' = in_r s \<and> in_buf s' = in_buf s \<and> ptable s' = ptable s \<and> curproc s' = curproc s"
  by (auto simp: cgaputc_def Let_def split: if_splits)

lemma consputc_input:
  "consputc c s = OK s' \<Longrightarrow> in_e s' = in_e s \<and> in_w s' = in_w s \<and> in_r s' = in_r s \<and> in_buf s' = in_buf s \<and> ptable s' = ptable s \<and> curproc s' = curproc s"
  by (auto simp: consputc_def uartputc_def dest!: cgaputc_input)

termination kill_line
proof (relation "measure (\<lambda>s. unat (in_e s - in_w s))")
  fix s s' :: "'z conss_scheme"
  assume 1: "in_e s \<noteq> in_w s \<and> in_buf s ! (unat (in_e s - 1) mod INPUT_BUF) \<noteq> 10"
    and 2: "consputc BACKSPACE (s\<lparr>in_e := in_e s - 1\<rparr>) = OK s'"
  have "in_e s' - in_w s' = in_e s - in_w s - 1" using consputc_input [OF 2] by simp
  moreover have "in_e s - in_w s \<noteq> 0" using 1 by simp
  ultimately show "(s', s) \<in> measure (\<lambda>s. unat (in_e s - in_w s))" by (simp add: unat_minus_one unat_gt_0)
qed simp

declare kill_line.simps [simp del]

text \<open>What consoleintr does with one character; the flag asks for a process listing.\<close>

definition consoleintr_char :: "int \<Rightarrow> bool \<Rightarrow> 'z conss_scheme \<Rightarrow> (bool \<times> 'z conss_scheme) kres" where
  "consoleintr_char c doprocdump s =
     (if c = 16 then OK (True, s)
      else if c = 21 then kbind (kill_line s) (\<lambda>s. OK (doprocdump, s))
      else if c = 8 \<or> c = 127 then
        (if in_e s \<noteq> in_w s
         then kbind (consputc BACKSPACE (s\<lparr>in_e := in_e s - 1\<rparr>)) (\<lambda>s. OK (doprocdump, s))
         else OK (doprocdump, s))
      else if c \<noteq> 0 \<and> in_e s - in_r s < 128 then
        let c = (if c = 13 then 10 else c);
            s = s\<lparr>in_buf := (in_buf s)[unat (in_e s) mod INPUT_BUF := word_of_int c], in_e := in_e s + 1\<rparr>
        in kbind (consputc c s) (\<lambda>s.
           OK (doprocdump, if c = 10 \<or> c = 4 \<or> in_e s = in_r s + 128
                           then wakeup (s\<lparr>in_w := in_e s\<rparr>) ChInput else s))
      else OK (doprocdump, s))"

primrec consoleintr_loop :: "int list \<Rightarrow> bool \<Rightarrow> 'z conss_scheme \<Rightarrow> (bool \<times> 'z conss_scheme) kres" where
  "consoleintr_loop [] d s = OK (d, s)"
| "consoleintr_loop (c # cs) d s =
     (if c < 0 then OK (d, s)
      else kbind (consoleintr_char c d s) (\<lambda>(d, s). consoleintr_loop cs d s))"

text \<open>The argument lists the values that the device's getc returns.\<close>

definition consoleintr :: "int list \<Rightarrow> 'z conss_scheme \<Rightarrow> 'z conss_scheme kres" where
  "consoleintr cs s =
     kbind (consoleintr_loop cs False s) (\<lambda>(d, s). if d then procdump s else OK s)"

text \<open>
  The loop of consoleread, with \<open>n\<close> bytes left to read and \<open>got\<close> delivered: it returns the bytes of
  the remaining rounds, or None if the process has been killed.
\<close>

primrec consoleread_loop :: "nat \<Rightarrow> nat \<Rightarrow> 'z conss_scheme \<Rightarrow> (u8 list option, 'z conss_scheme) run kres" where
  "consoleread_loop 0 got s = OK (Done (Some []) s)"
| "consoleread_loop (Suc n) got s =
     (if in_r s = in_w s then
        kbind (proc_killed s) (\<lambda>k.
        if k then OK (Done None s)
        else kbind (sleep_begin s ChInput True) (\<lambda>s. OK (Waits got s)))
      else
        let c = in_buf s ! (unat (in_r s) mod INPUT_BUF);
            s = s\<lparr>in_r := in_r s + 1\<rparr>
        in if c = 4 then OK (Done (Some []) (if got > 0 then s\<lparr>in_r := in_r s - 1\<rparr> else s))
           else if c = 10 then OK (Done (Some [c]) s)
           else
             kbind (consoleread_loop n (got + 1) s) (\<lambda>r.
             OK (case r of Done (Some cs) s \<Rightarrow> Done (Some (c # cs)) s | r \<Rightarrow> r)))"

definition consoleread :: "nat \<Rightarrow> u32 \<Rightarrow> 'z conss_scheme \<Rightarrow> ((int \<times> u8 list) \<times> 'z conss_scheme) kres" where
  "consoleread ip n s =
     kbind (iunlock (Some ip) s) (\<lambda>s.
     kbind (consoleread_loop (nat (sint n)) 0 s) (\<lambda>r.
     case r of
       Waits _ _ \<Rightarrow> Sleep ChInput
     | Done r s \<Rightarrow>
         kbind (ilock (Some ip) s) (\<lambda>s.
         OK (case r of None \<Rightarrow> (-1, []) | Some bytes \<Rightarrow> (int (length bytes), bytes), s))))"

definition consolewrite :: "nat \<Rightarrow> u8 list \<Rightarrow> u32 \<Rightarrow> 'z conss_scheme \<Rightarrow> (int \<times> 'z conss_scheme) kres" where
  "consolewrite ip bytes n s =
     (if int (length bytes) < sint n then Stuck ''buf''
      else
        kbind (iunlock (Some ip) s) (\<lambda>s.
        kbind (kfor (\<lambda>c. consputc (uint c)) (take (nat (sint n)) bytes) s) (\<lambda>s.
        kbind (ilock (Some ip) s) (\<lambda>s.
        OK (sint n, s)))))"

text \<open>The device switch after consoleinit: the console is major device 1.\<close>

definition console_devsw :: "'z conss_scheme devsw" where
  "console_devsw major = (if major = 1 then (Some consoleread, Some consolewrite) else (None, None))"

definition consoleinit :: "'z conss_scheme \<Rightarrow> 'z conss_scheme" where
  "consoleinit s = s\<lparr>cons_locking := True\<rparr>"

subsection \<open>The cursor stays on the screen\<close>

definition crt_ok :: "'z conss_scheme \<Rightarrow> bool" where
  "crt_ok s \<longleftrightarrow> length (crt s) \<ge> 25 * 80 \<and> 0 \<le> crt_pos s \<and> crt_pos s < 24 * 80"

lemma cgaputc_ok:
  assumes ok: "crt_ok s"
  shows "\<exists>s'. cgaputc c s = OK s' \<and> crt_ok s'"
proof -
  have len: "length (crt s) \<ge> 2000" and p: "0 \<le> crt_pos s" "crt_pos s < 1920" using ok by (simp_all add: crt_ok_def)
  have "crt_pos s div 80 < 24" using p by auto
  moreover have "crt_pos s + (80 - crt_pos s mod 80) = (crt_pos s div 80 + 1) * 80"
    by (simp add: minus_mod_eq_div_mult)
  ultimately have nl: "crt_pos s + (80 - crt_pos s mod 80) \<le> 1920" by simp
  obtain pos s1 where 1: "(if c = 10 then (crt_pos s + (80 - crt_pos s mod 80), s)
      else if c = BACKSPACE then (if crt_pos s > 0 then crt_pos s - 1 else crt_pos s, s)
      else (crt_pos s + 1, s\<lparr>crt := (crt s)[nat (crt_pos s) := word_of_int c AND 0xFF OR 0x0700]\<rparr>)) = (pos, s1)"
    by fastforce
  have 2: "0 \<le> pos" "pos \<le> 1920" "length (crt s1) \<ge> 2000"
    using 1 nl p len by (auto split: if_splits)
  show ?thesis
  proof (cases "pos div 80 \<ge> 24")
    case True
    then have pos: "pos = 1920" using 2 by auto
    then show ?thesis using 2(3) unfolding cgaputc_def Let_def 1
      by (simp add: crt_ok_def length_overwrite slice_def)
  next
    case False
    then have "pos < 1920" by auto
    then show ?thesis using 2 False unfolding cgaputc_def Let_def 1 by (simp add: crt_ok_def)
  qed
qed

lemma consputc_ok: "crt_ok s \<Longrightarrow> \<exists>s'. consputc c s = OK s' \<and> crt_ok s'"
proof -
  assume "crt_ok s"
  then have "crt_ok (if c = BACKSPACE then uartputc 8 (uartputc 32 (uartputc 8 s)) else uartputc c s)"
    by (simp add: crt_ok_def uartputc_def)
  then show ?thesis unfolding consputc_def using cgaputc_ok by blast
qed

subsection \<open>The line discipline\<close>

text \<open>
  The specification: the complete lines not yet read, and the line being edited.  At most 128 bytes
  are kept.  Control-U drops the edited line, backspace its last byte; a newline, control-D or a full
  buffer completes the line.
\<close>

definition line_char :: "int \<Rightarrow> u8 list \<times> u8 list \<Rightarrow> u8 list \<times> u8 list" where
  "line_char c v =
     (let (ready, edit) = v
      in if c = 16 then (ready, edit)
         else if c = 21 then (ready, [])
         else if c = 8 \<or> c = 127 then (ready, butlast edit)
         else if c \<noteq> 0 \<and> length ready + length edit < INPUT_BUF then
           let c = (if c = 13 then 10 else c);
               edit = edit @ [word_of_int c]
           in if c = 10 \<or> c = 4 \<or> length ready + length edit = INPUT_BUF then (ready @ edit, []) else (ready, edit)
         else (ready, edit))"

definition in_view :: "'z conss_scheme \<Rightarrow> u8 list \<times> u8 list" where
  "in_view s = (rbuf INPUT_BUF (in_buf s) (in_r s) (unat (in_w s - in_r s)),
                rbuf INPUT_BUF (in_buf s) (in_w s) (unat (in_e s - in_w s)))"

definition in_ok :: "'z conss_scheme \<Rightarrow> bool" where
  "in_ok s \<longleftrightarrow> length (in_buf s) = INPUT_BUF \<and> unat (in_w s - in_r s) + unat (in_e s - in_w s) \<le> INPUT_BUF \<and>
     10 \<notin> set (snd (in_view s))"

lemma in_view_cong:
  "in_buf s' = in_buf s \<Longrightarrow> in_r s' = in_r s \<Longrightarrow> in_w s' = in_w s \<Longrightarrow> in_e s' = in_e s \<Longrightarrow> in_view s' = in_view s"
  "in_buf s' = in_buf s \<Longrightarrow> in_r s' = in_r s \<Longrightarrow> in_w s' = in_w s \<Longrightarrow> in_e s' = in_e s \<Longrightarrow> in_ok s' = in_ok s"
  by (simp_all add: in_view_def in_ok_def)

lemma counter_sum:
  "unat (w - r) + unat (e - w) < 4294967296 \<Longrightarrow> unat (e - r) = unat (w - r) + unat (e - w)" for r w e :: u32
proof -
  assume "unat (w - r) + unat (e - w) < 4294967296"
  then have "unat ((w - r) + (e - w)) = unat (w - r) + unat (e - w)" by (subst unat_word_ariths) simp
  then show ?thesis by simp
qed

lemma in_total: "in_ok s \<Longrightarrow> unat (in_e s - in_r s) = unat (in_w s - in_r s) + unat (in_e s - in_w s)"
  by (rule counter_sum) (simp add: in_ok_def)

lemma in_put:
  fixes s :: "'z conss_scheme" and c :: u8
  assumes ok: "in_ok s" and lt: "unat (in_e s - in_r s) < INPUT_BUF"
  defines "s' \<equiv> s\<lparr>in_buf := (in_buf s)[unat (in_e s) mod INPUT_BUF := c], in_e := in_e s + 1\<rparr>"
  shows "in_view s' = (fst (in_view s), snd (in_view s) @ [c])"
    and "unat (in_e s' - in_r s') = Suc (unat (in_e s - in_r s))" "unat (in_e s' - in_w s') = Suc (unat (in_e s - in_w s))"
proof -
  have t: "unat (in_e s - in_r s) = unat (in_w s - in_r s) + unat (in_e s - in_w s)" by (rule in_total [OF ok])
  have len: "length (in_buf s) = INPUT_BUF" using ok by (simp add: in_ok_def)
  have "unat (in_e s) mod INPUT_BUF = (unat (in_r s) + unat (in_e s - in_r s)) mod INPUT_BUF"
    using rbuf_index [of INPUT_BUF "in_r s" "unat (in_e s - in_r s)" 0] by simp
  then have 1: "rbuf INPUT_BUF ((in_buf s)[unat (in_e s) mod INPUT_BUF := c]) (in_r s) (unat (in_w s - in_r s)) =
      rbuf INPUT_BUF (in_buf s) (in_r s) (unat (in_w s - in_r s))"
    using rbuf_update_other [of "unat (in_w s - in_r s)" "unat (in_e s - in_r s)" INPUT_BUF "in_buf s" "in_r s" c] lt t by simp
  have 2: "rbuf INPUT_BUF ((in_buf s)[unat (in_e s) mod INPUT_BUF := c]) (in_w s) (Suc (unat (in_e s - in_w s))) =
      rbuf INPUT_BUF (in_buf s) (in_w s) (unat (in_e s - in_w s)) @ [c]"
    using rbuf_put [of INPUT_BUF "in_buf s" "unat (in_e s - in_w s)" "in_w s" c] len lt t by simp
  show 3: "unat (in_e s' - in_r s') = Suc (unat (in_e s - in_r s))" "unat (in_e s' - in_w s') = Suc (unat (in_e s - in_w s))"
    using lt t counter_step [of "in_e s" "in_r s"] counter_step [of "in_e s" "in_w s"] by (simp_all add: s'_def)
  show "in_view s' = (fst (in_view s), snd (in_view s) @ [c])"
    using 1 2 3(2) by (simp add: in_view_def s'_def)
qed

lemma in_commit:
  assumes "unat (in_e s - in_r s) = unat (in_w s - in_r s) + unat (in_e s - in_w s)"
  shows "in_view (s\<lparr>in_w := in_e s\<rparr>) = (fst (in_view s) @ snd (in_view s), [])"
  using rbuf_append [of INPUT_BUF "in_buf s" "in_r s" "unat (in_w s - in_r s)" "unat (in_e s - in_w s)"] assms
  by (simp add: in_view_def)

lemma in_back:
  assumes ok: "in_ok s" and ne: "in_e s \<noteq> in_w s"
  shows "in_view (s\<lparr>in_e := in_e s - 1\<rparr>) = (fst (in_view s), butlast (snd (in_view s)))" and "in_ok (s\<lparr>in_e := in_e s - 1\<rparr>)"
    and "last (snd (in_view s)) = in_buf s ! (unat (in_e s - 1) mod INPUT_BUF)" and "snd (in_view s) \<noteq> []"
proof -
  have d: "in_e s - in_w s \<noteq> 0" using ne by simp
  then obtain n where n: "unat (in_e s - in_w s) = Suc n" by (metis not0_implies_Suc unat_eq_0)
  have n': "unat (in_e s - 1 - in_w s) = n"
    using n d unat_minus_one [of "in_e s - in_w s"] by (simp add: algebra_simps)
  have snoc: "rbuf INPUT_BUF (in_buf s) (in_w s) (Suc n) = rbuf INPUT_BUF (in_buf s) (in_w s) n @ [in_buf s ! ((unat (in_w s) + n) mod INPUT_BUF)]"
    by (simp add: rbuf_def)
  have "in_w s + of_nat n = in_e s - 1" using n' counter_of_nat [of "in_w s" "in_e s - 1"] by simp
  then have ix: "(unat (in_w s) + n) mod INPUT_BUF = unat (in_e s - 1) mod INPUT_BUF"
    using rbuf_index [of INPUT_BUF "in_w s" n 0] by simp
  show v: "in_view (s\<lparr>in_e := in_e s - 1\<rparr>) = (fst (in_view s), butlast (snd (in_view s)))"
    using n n' snoc by (simp add: in_view_def)
  show "in_ok (s\<lparr>in_e := in_e s - 1\<rparr>)"
    using ok n n' unfolding in_ok_def v by (auto dest: in_set_butlastD)
  show "last (snd (in_view s)) = in_buf s ! (unat (in_e s - 1) mod INPUT_BUF)" "snd (in_view s) \<noteq> []"
    using n snoc ix by (simp_all add: in_view_def)
qed

lemma in_empty: "snd (in_view s) = [] \<longleftrightarrow> in_e s = in_w s" "fst (in_view s) = [] \<longleftrightarrow> in_r s = in_w s"
  by (auto simp: in_view_def unat_eq_0 simp flip: length_0_conv)

lemma crt_ok_cong [simp]:
  "crt_ok (s\<lparr>in_e := a\<rparr>) = crt_ok s" "crt_ok (s\<lparr>in_w := a\<rparr>) = crt_ok s" "crt_ok (s\<lparr>in_r := a\<rparr>) = crt_ok s"
  "crt_ok (s\<lparr>in_buf := b\<rparr>) = crt_ok s" "crt_ok (wakeup s ch) = crt_ok s"
  by (simp_all add: crt_ok_def wakeup_def wakeup1_def)

lemma in_view_wakeup [simp]: "in_view (wakeup s ch) = in_view s" "in_ok (wakeup s ch) = in_ok s"
  by (simp_all add: in_view_def in_ok_def wakeup_def wakeup1_def)

lemma consputc_view:
  assumes "crt_ok s"
  shows "\<exists>s'. consputc c s = OK s' \<and> crt_ok s' \<and> in_view s' = in_view s \<and> in_ok s' = in_ok s \<and>
    in_e s' = in_e s \<and> in_w s' = in_w s \<and> in_r s' = in_r s \<and> in_buf s' = in_buf s"
proof -
  obtain s' where s': "consputc c s = OK s'" "crt_ok s'" using consputc_ok [OF assms] by blast
  then show ?thesis using consputc_input [OF s'(1)] by (simp add: in_view_cong [of s' s])
qed

lemma kill_line_view:
  "in_ok s \<Longrightarrow> crt_ok s \<Longrightarrow> \<exists>s'. kill_line s = OK s' \<and> in_view s' = (fst (in_view s), []) \<and> in_ok s' \<and> crt_ok s'"
proof (induction s rule: kill_line.induct)
  case (1 s)
  show ?case
  proof (cases "in_e s = in_w s")
    case True
    then have "kill_line s = OK s" by (subst kill_line.simps) simp
    then show ?thesis using 1 True in_empty(1) [of s] by (metis prod.collapse)
  next
    case False
    let ?s = "s\<lparr>in_e := in_e s - 1\<rparr>"
    note b = in_back [OF "1.prems"(1) False]
    have "last (snd (in_view s)) \<noteq> 10" using "1.prems"(1) last_in_set [OF b(4)] by (metis in_ok_def)
    then have c: "in_e s \<noteq> in_w s \<and> in_buf s ! (unat (in_e s - 1) mod INPUT_BUF) \<noteq> 10" using False b(3) by simp
    obtain s1 where s1: "consputc BACKSPACE ?s = OK s1" "crt_ok s1" "in_view s1 = in_view ?s" "in_ok s1 = in_ok ?s"
      using consputc_view [of ?s BACKSPACE] "1.prems"(2) by auto
    have "kill_line s = kill_line s1" using c s1(1) by (subst kill_line.simps) simp
    moreover have "in_ok s1" using s1(4) b(2) by simp
    moreover have "fst (in_view s1) = fst (in_view s)" using s1(3) b(1) by simp
    ultimately show ?thesis using "1.IH" [OF c s1(1)] s1(2) by simp
  qed
qed

lemma consoleintr_type_char:
  assumes ok: "in_ok s" "crt_ok s" and lt: "unat (in_e s - in_r s) < INPUT_BUF" and c: "0 < c" "c < 256" "c \<noteq> 16" "c \<noteq> 21" "c \<noteq> 8" "c \<noteq> 127"
  shows "\<exists>s'. consoleintr_char c d s = OK (d, s') \<and> in_view s' = line_char c (in_view s) \<and> in_ok s' \<and> crt_ok s'"
proof -
  define c' where "c' = (if c = 13 then 10 else c)"
  let ?b = "word_of_int c' :: u8"
  let ?s = "s\<lparr>in_buf := (in_buf s)[unat (in_e s) mod INPUT_BUF := ?b], in_e := in_e s + 1\<rparr>"
  note p = in_put [OF ok(1) lt, of ?b]
  have wr: "unat (in_w ?s - in_r ?s) = unat (in_w s - in_r s)" by simp
  have t: "unat (in_e ?s - in_r ?s) = unat (in_w ?s - in_r ?s) + unat (in_e ?s - in_w ?s)"
    using p(2,3) in_total [OF ok(1)] wr by simp
  obtain s1 where s1: "consputc c' ?s = OK s1" "crt_ok s1" "in_view s1 = in_view ?s"
    "in_e s1 = in_e ?s" "in_w s1 = in_w ?s" "in_r s1 = in_r ?s" "in_buf s1 = in_buf ?s"
    using consputc_view [of ?s c'] ok(2) by auto
  have len: "length (in_buf s1) = INPUT_BUF" using ok(1) s1(7) by (simp add: in_ok_def)
  let ?full = "in_e s1 = in_r s1 + 128"
  have "?full \<longleftrightarrow> in_e s1 - in_r s1 = 128" by (auto simp: algebra_simps)
  also have "\<dots> \<longleftrightarrow> unat (in_e s1 - in_r s1) = 128" by (simp add: word_unat_eq_iff)
  also have "unat (in_e s1 - in_r s1) = length (fst (in_view s)) + length (snd (in_view s)) + 1"
    using p(2) s1(4,6) in_total [OF ok(1)] by (simp add: in_view_def)
  finally have full: "?full \<longleftrightarrow> length (fst (in_view s)) + length (snd (in_view s)) + 1 = INPUT_BUF" .
  have lt': "length (fst (in_view s)) + length (snd (in_view s)) < INPUT_BUF"
    using lt in_total [OF ok(1)] by (simp add: in_view_def)
  let ?r = "if c' = 10 \<or> c' = 4 \<or> ?full then wakeup (s1\<lparr>in_w := in_e s1\<rparr>) ChInput else s1"
  have run: "consoleintr_char c d s = OK (d, ?r)"
    using c lt s1(1) by (auto simp: consoleintr_char_def Let_def c'_def word_less_nat_alt)
  have tot: "unat (in_e s1 - in_r s1) = unat (in_w s1 - in_r s1) + unat (in_e s1 - in_w s1)" using t s1(4-6) by simp
  have v1: "in_view s1 = (fst (in_view s), snd (in_view s) @ [?b])" using s1(3) p(1) by simp
  have view: "in_view ?r = line_char c (in_view s)"
    using in_commit [OF tot] v1 full lt' c by (auto simp: line_char_def Let_def c'_def split: prod.split)
  have bound: "unat (in_e s1 - in_r s1) \<le> INPUT_BUF" using p(2) s1(4,6) lt by simp
  have "in_ok ?r"
  proof (cases "c' = 10 \<or> c' = 4 \<or> ?full")
    case True
    have "in_ok (s1\<lparr>in_w := in_e s1\<rparr>)" using len bound in_commit [OF tot] by (simp add: in_ok_def)
    then show ?thesis using True by simp
  next
    case False
    have "uint ?b = c'" using c by (auto simp: c'_def uint_word_of_int)
    then have "?b \<noteq> 10" using False by auto
    then show ?thesis using False len bound tot v1 ok(1) by (simp add: in_ok_def)
  qed
  then show ?thesis using run view s1(2) by auto
qed

lemma consoleintr_char_view:
  assumes ok: "in_ok s" "crt_ok s" and c: "0 \<le> c" "c < 256"
  shows "\<exists>d' s'. consoleintr_char c d s = OK (d', s') \<and> in_view s' = line_char c (in_view s) \<and> in_ok s' \<and> crt_ok s'"
proof -
  obtain ready edit where v: "in_view s = (ready, edit)" by fastforce
  consider "c = 16" | "c = 21" | "c = 8 \<or> c = 127"
    | "c \<noteq> 16" "c \<noteq> 21" "c \<noteq> 8" "c \<noteq> 127" "c = 0 \<or> \<not> unat (in_e s - in_r s) < INPUT_BUF"
    | "0 < c" "c \<noteq> 16" "c \<noteq> 21" "c \<noteq> 8" "c \<noteq> 127" "unat (in_e s - in_r s) < INPUT_BUF"
    using c(1) by fastforce
  then show ?thesis
  proof cases
    case 1
    then show ?thesis using ok v by (auto simp: consoleintr_char_def line_char_def)
  next
    case 2
    then show ?thesis using kill_line_view [OF ok] v by (auto simp: consoleintr_char_def line_char_def)
  next
    case 3
    show ?thesis
    proof (cases "in_e s = in_w s")
      case True
      then have "edit = []" using in_empty(1) [of s] v by simp
      then show ?thesis using 3 True ok v by (auto simp: consoleintr_char_def line_char_def)
    next
      case False
      note b = in_back [OF ok(1) False]
      show ?thesis
        using 3 False b(1,2) v ok(2) consputc_view [of "s\<lparr>in_e := in_e s - 1\<rparr>" BACKSPACE]
        by (auto simp: consoleintr_char_def line_char_def)
    qed
  next
    case 4
    have "length ready + length edit = unat (in_e s - in_r s)" using in_total [OF ok(1)] v by (simp add: in_view_def) auto
    then show ?thesis using 4 ok v by (auto simp: consoleintr_char_def line_char_def word_less_nat_alt)
  next
    case 5
    then show ?thesis using consoleintr_type_char [OF ok 5(6,1) c(2)] by blast
  qed
qed

lemma consoleintr_loop_view:
  assumes "in_ok s" and "crt_ok s" and "\<forall>c\<in>set cs. 0 \<le> c \<and> c < 256"
  shows "\<exists>d' s'. consoleintr_loop cs d s = OK (d', s') \<and> in_view s' = fold line_char cs (in_view s) \<and> in_ok s' \<and> crt_ok s'"
  using assms
proof (induction cs arbitrary: d s)
  case (Cons c cs)
  obtain d1 s1 where 1: "consoleintr_char c d s = OK (d1, s1)" "in_view s1 = line_char c (in_view s)" "in_ok s1" "crt_ok s1"
    using consoleintr_char_view [OF Cons.prems(1,2), of c d] Cons.prems(3) by auto
  then show ?case using Cons.IH [OF 1(3,4), of d1] Cons.prems(3) by auto
qed simp

lemma in_get:
  assumes ok: "in_ok s" and ne: "in_r s \<noteq> in_w s"
  shows "fst (in_view s) = in_buf s ! (unat (in_r s) mod INPUT_BUF) # fst (in_view (s\<lparr>in_r := in_r s + 1\<rparr>))"
    and "snd (in_view (s\<lparr>in_r := in_r s + 1\<rparr>)) = snd (in_view s)" and "in_ok (s\<lparr>in_r := in_r s + 1\<rparr>)"
proof -
  have "unat (in_w s - in_r s) = Suc (unat (in_w s - in_r s - 1))"
    using ne by (simp add: unat_minus_one unat_gt_0)
  then have n: "unat (in_w s - in_r s) = Suc (unat (in_w s - (in_r s + 1)))" by (simp add: algebra_simps)
  then show "fst (in_view s) = in_buf s ! (unat (in_r s) mod INPUT_BUF) # fst (in_view (s\<lparr>in_r := in_r s + 1\<rparr>))"
    using rbuf_Suc [of INPUT_BUF "in_buf s" "in_r s"] by (simp add: in_view_def)
  show v: "snd (in_view (s\<lparr>in_r := in_r s + 1\<rparr>)) = snd (in_view s)" by (simp add: in_view_def)
  show "in_ok (s\<lparr>in_r := in_r s + 1\<rparr>)" using ok n unfolding in_ok_def v by simp
qed

lemma consoleread_loop_line:
  assumes "in_ok s" and "fst (in_view s) = xs @ c # rest" and "10 \<notin> set xs" and "4 \<notin> set xs" and "c = 10 \<or> c = 4" and "length xs < n"
  shows "\<exists>s'. consoleread_loop n got s = OK (Done (Some (if c = 10 then xs @ [10] else xs)) s') \<and> in_ok s' \<and>
    in_view s' = (if c = 4 \<and> got + length xs > 0 then 4 # rest else rest, snd (in_view s))"
  using assms
proof (induction xs arbitrary: n got s)
  case Nil
  let ?s = "s\<lparr>in_r := in_r s + 1\<rparr>"
  obtain m where m: "n = Suc m" using Nil.prems(6) by (cases n) auto
  have ne: "in_r s \<noteq> in_w s" using Nil.prems(2) in_empty(2) [of s] by auto
  note g = in_get [OF Nil.prems(1) ne]
  have b: "in_buf s ! (unat (in_r s) mod INPUT_BUF) = c" "fst (in_view ?s) = rest" using g(1) Nil.prems(2) by auto
  have v: "in_view ?s = (rest, snd (in_view s))" using b(2) g(2) by (metis prod.collapse)
  show ?case
  proof (cases "c = 4 \<and> got > 0")
    case True
    then have "consoleread_loop n got s = OK (Done (Some []) s)" using m ne b by simp
    moreover have "in_view s = (4 # rest, snd (in_view s))" using True Nil.prems(2) by (metis append_Nil prod.collapse)
    ultimately show ?thesis using True Nil.prems(1) by auto
  next
    case False
    then show ?thesis using m ne b v g(3) Nil.prems(5) by auto
  qed
next
  case (Cons x xs)
  let ?s = "s\<lparr>in_r := in_r s + 1\<rparr>"
  obtain m where m: "n = Suc m" using Cons.prems(6) by (cases n) auto
  have ne: "in_r s \<noteq> in_w s" using Cons.prems(2) in_empty(2) [of s] by auto
  note g = in_get [OF Cons.prems(1) ne]
  have b: "in_buf s ! (unat (in_r s) mod INPUT_BUF) = x" "fst (in_view ?s) = xs @ c # rest" using g(1) Cons.prems(2) by auto
  obtain s' where "consoleread_loop m (got + 1) ?s = OK (Done (Some (if c = 10 then xs @ [10] else xs)) s')" "in_ok s'"
    "in_view s' = (if c = 4 \<and> got + 1 + length xs > 0 then 4 # rest else rest, snd (in_view ?s))"
    using Cons.IH [OF g(3) b(2), of m "got + 1"] Cons.prems(3-6) m by auto
  then show ?case using m ne b g(2) Cons.prems(3,4) by auto
qed

subsection \<open>Numbers\<close>

definition digit_value :: "u8 \<Rightarrow> nat" where
  "digit_value d = (if d \<ge> 97 then unat d - 87 else unat d - 48)"

definition number_value :: "nat \<Rightarrow> u8 list \<Rightarrow> nat" where
  "number_value base ds = foldl (\<lambda>n d. n * base + digit_value d) 0 ds"

lemma digit_value_digits: "n < 16 \<Longrightarrow> digit_value (digits ! n) = n"
proof -
  have "\<forall>n\<in>set [0..<16]. digit_value (digits ! n) = n" by code_simp
  then show "n < 16 \<Longrightarrow> digit_value (digits ! n) = n" by simp
qed

lemma printint_buf_value:
  "1 < base \<Longrightarrow> base \<le> 16 \<Longrightarrow> number_value base (rev (printint_buf x base)) = x"
proof (induction x base rule: printint_buf.induct)
  case (1 x base)
  have m: "digit_value (digits ! (x mod base)) = x mod base"
    using "1.prems" mod_less_divisor [of base x] by (intro digit_value_digits) linarith
  show ?case
  proof (cases "x div base = 0")
    case True
    then have "x mod base = x" using div_mult_mod_eq [of x base] by simp
    then show ?thesis using True m by (subst printint_buf.simps) (simp add: number_value_def)
  next
    case False
    then show ?thesis using 1 m by (subst printint_buf.simps) (simp add: number_value_def)
  qed
qed

lemma digits_nonzero: "0 < n \<Longrightarrow> n < 16 \<Longrightarrow> digits ! n \<noteq> 48"
proof -
  have "\<forall>n\<in>set [1..<16]. digits ! n \<noteq> 48" by code_simp
  then show "0 < n \<Longrightarrow> n < 16 \<Longrightarrow> digits ! n \<noteq> 48" by simp
qed

lemma printint_buf_leading:
  "1 < base \<Longrightarrow> base \<le> 16 \<Longrightarrow> 0 < x \<Longrightarrow> printint_buf x base \<noteq> [] \<and> last (printint_buf x base) \<noteq> 48"
proof (induction x base rule: printint_buf.induct)
  case (1 x base)
  show ?case
  proof (cases "x div base = 0")
    case True
    then have "x mod base = x" "x < base" using div_mult_mod_eq [of x base] 1 by (auto simp: div_eq_0_iff)
    then show ?thesis using True 1 digits_nonzero [of x] by (subst (1 2) printint_buf.simps) simp
  next
    case False
    then show ?thesis using 1 by (subst (1 2) printint_buf.simps) simp
  qed
qed

lemma printint_buf_digits:
  "1 < base \<Longrightarrow> base \<le> 16 \<Longrightarrow> printint_buf x base \<noteq> [] \<and> set (printint_buf x base) \<subseteq> set (take base digits)"
proof (induction x base rule: printint_buf.induct)
  case (1 x base)
  have "x mod base < length (take base digits)" using "1.prems" by (simp add: digits_def)
  moreover have "take base digits ! (x mod base) = digits ! (x mod base)" using "1.prems" by simp
  ultimately have d: "digits ! (x mod base) \<in> set (take base digits)" by (metis nth_mem)
  show ?case using 1 d by (subst (1 2) printint_buf.simps) auto
qed

text \<open>The buffer of 16 bytes is large enough.\<close>

lemma printint_buf_length: "1 < base \<Longrightarrow> x < base ^ Suc n \<Longrightarrow> length (printint_buf x base) \<le> Suc n"
proof (induction n arbitrary: x)
  case 0
  then show ?case by (subst printint_buf.simps) simp
next
  case (Suc n)
  then have "x div base < base ^ Suc n" by (simp add: less_mult_imp_div_less mult.commute)
  then show ?case using Suc.IH [of "x div base"] Suc.prems(1) by (subst printint_buf.simps) simp
qed

lemma cgaputc_uart: "cgaputc c s = OK s' \<Longrightarrow> uart s' = uart s \<and> uart_out s' = uart_out s"
  by (auto simp: cgaputc_def Let_def split: if_splits)

lemma consputc_uart:
  assumes "crt_ok s" and "uart s"
  shows "\<exists>s'. consputc (uint c) s = OK s' \<and> crt_ok s' \<and> uart s' \<and> uart_out s' = uart_out s @ [c]"
proof -
  have ne: "uint c \<noteq> BACKSPACE" using uint_bounded [of c] by auto
  obtain s' where s': "consputc (uint c) s = OK s'" "crt_ok s'" using consputc_ok [OF assms(1)] by blast
  then have "cgaputc (uint c) (uartputc (uint c) s) = OK s'" using ne by (simp add: consputc_def)
  then have "uart s' = uart s" "uart_out s' = uart_out s @ [c]"
    using cgaputc_uart [of "uint c" "uartputc (uint c) s" s'] assms(2) by (simp_all add: uartputc_def)
  then show ?thesis using s' assms(2) by blast
qed

lemma consputs_uart:
  "crt_ok s \<Longrightarrow> uart s \<Longrightarrow> \<exists>s'. kfor (\<lambda>c. consputc (uint c)) cs s = OK s' \<and> crt_ok s' \<and> uart s' \<and> uart_out s' = uart_out s @ cs"
proof (induction cs arbitrary: s)
  case (Cons c cs)
  obtain s1 where 1: "consputc (uint c) s = OK s1" "crt_ok s1" "uart s1" "uart_out s1 = uart_out s @ [c]"
    using consputc_uart [OF Cons.prems] by blast
  then show ?case using Cons.IH [OF 1(2,3)] by auto
qed simp

lemma sint_u32: "sint (x :: u32) = (if uint x < 2147483648 then uint x else uint x - 4294967296)"
proof -
  have u: "0 \<le> uint x" "uint x < 4294967296" using uint_bounded [of x] by auto
  have "bit (uint x) 31 \<longleftrightarrow> odd (uint x div 2147483648)" by (simp add: bit_iff_odd)
  also have "\<dots> \<longleftrightarrow> \<not> uint x < 2147483648"
  proof (cases "uint x < 2147483648")
    case True
    then show ?thesis using u by (simp add: div_pos_pos_trivial)
  next
    case False
    then have "uint x div 2147483648 = 1" using u by (intro int_div_pos_eq [of _ _ _ "uint x - 2147483648"]) auto
    then show ?thesis using False by simp
  qed
  finally show ?thesis
    using u by (simp add: sint_uint signed_take_bit_eq_take_bit_minus take_bit_int_eq_self)
qed

lemma unat_magnitude: "sint (x :: u32) < 0 \<Longrightarrow> unat (- x) = nat \<bar>sint x\<bar>"
proof -
  assume n: "sint x < 0"
  then have u: "\<not> uint x < 2147483648" "uint x < 4294967296" using uint_bounded [of x] by (auto simp: sint_u32 split: if_splits)
  have "uint (- x) = (- uint x) mod 4294967296" by (simp add: uint_word_ariths)
  also have "\<dots> = 4294967296 - uint x"
    using u mod_pos_pos_trivial [of "4294967296 - uint x" 4294967296] by (simp add: minus_mod_self2)
  finally show ?thesis using u by (simp add: sint_u32 unat_eq_nat_uint)
qed

lemma unat_nonneg: "\<not> sint (x :: u32) < 0 \<Longrightarrow> unat x = nat \<bar>sint x\<bar>"
  using uint_bounded [of x] by (cases "uint x < 2147483648") (simp_all add: sint_u32)

subsection \<open>Properties\<close>

text \<open>
  Property C10. Line editing: for every sequence of typed bytes, from any state whose buffer and
  cursor are in range and at any values of the wrapping indices, consoleintr does not fail, leaves
  buffer and cursor in range, and the complete and the edited lines change exactly as the line
  discipline specifies.
\<close>

theorem console_line_editing:
  assumes "in_ok s" and "crt_ok s" and "\<forall>c\<in>set cs. 0 \<le> c \<and> c < 256"
  shows "\<exists>d' s'. consoleintr_loop cs d s = OK (d', s') \<and> in_view s' = fold line_char cs (in_view s) \<and> in_ok s' \<and> crt_ok s'"
  by (rule consoleintr_loop_view [OF assms])

definition boot_cons :: conss where
  "boot_cons = fils.extend (pips.extend boot_pipe \<lparr>ftable = []\<rparr>) \<lparr>cons_locking = True, crt = replicate 2000 0, crt_pos = 0,
     uart = True, uart_out = [], in_buf = replicate INPUT_BUF 0, in_r = 0xFFFFFFFE, in_w = 0xFFFFFFFE, in_e = 0xFFFFFFFE\<rparr>"

lemma boot_cons_ok: "in_ok boot_cons" "crt_ok boot_cons" "in_view boot_cons = ([], [])" "uart boot_cons" "uart_out boot_cons = []"
  by (simp_all add: boot_cons_def fils.defs pips.defs in_ok_def in_view_def crt_ok_def)

theorem console_line_editing_witness:
  "\<exists>d' s'. consoleintr_loop [97, 98, 8, 99, 13, 100] False boot_cons = OK (d', s') \<and> in_view s' = ([97, 99, 10], [100])"
  using console_line_editing [OF boot_cons_ok(1,2), of "[97, 98, 8, 99, 13, 100]" False] boot_cons_ok(3)
  by (auto simp: line_char_def simp del: consoleintr_loop.simps)

text \<open>
  Property C32. A read from the console returns one line: up to and with the first newline, or up to
  a control-D, which is kept for the next read unless it is the first byte, so that the next read
  returns nothing; the following lines stay in the buffer.
\<close>

theorem consoleread_returns_line:
  assumes "in_ok s" and "fst (in_view s) = xs @ c # rest" and "10 \<notin> set xs" and "4 \<notin> set xs" and "c = 10 \<or> c = 4" and "length xs < n"
  shows "\<exists>s'. consoleread_loop n 0 s = OK (Done (Some (if c = 10 then xs @ [10] else xs)) s') \<and> in_ok s' \<and>
    in_view s' = (if c = 4 \<and> xs \<noteq> [] then 4 # rest else rest, snd (in_view s))"
  using consoleread_loop_line [OF assms, of 0] by simp

definition typed_cons :: conss where
  "typed_cons = boot_cons\<lparr>in_buf := (replicate INPUT_BUF 0)[126 := 97, 127 := 4, 0 := 98], in_w := 1, in_e := 1\<rparr>"

theorem consoleread_returns_line_witness:
  "\<exists>s'. consoleread_loop 10 0 typed_cons = OK (Done (Some [97]) s') \<and> fst (in_view s') = [4, 98]"
proof -
  have v: "in_view typed_cons = ([97, 4, 98], [])"
    by (simp add: typed_cons_def boot_cons_def fils.defs pips.defs in_view_def rbuf_def upt_rec nth_list_update)
  then have "in_ok typed_cons"
    by (simp add: in_ok_def) (simp add: typed_cons_def boot_cons_def fils.defs pips.defs)
  then show ?thesis using consoleread_returns_line [of typed_cons "[97]" 4 "[98]" 10] v by auto
qed

text \<open>
  Property C33. printint prints numbers correctly: in base 10 or 16 the bytes that reach the serial
  port are a minus sign exactly for a negative signed number, and then digits of that base whose value
  is the magnitude of the number, also for the most negative one.  There is at least one digit and
  no leading zero but in the number 0; there are at most ten, so that they fit with the sign into
  the 16 bytes of the buffer.
\<close>

theorem printint_prints_number:
  assumes "crt_ok s" and "uart s" and "base = 10 \<or> base = 16"
  shows "\<exists>s' ds. printint xx base sign s = OK s' \<and>
    uart_out s' = uart_out s @ (if sign \<and> sint xx < 0 then [45] else []) @ ds \<and>
    number_value base ds = (if sign then nat \<bar>sint xx\<bar> else unat xx) \<and> set ds \<subseteq> set (take base digits) \<and>
    ds \<noteq> [] \<and> (xx \<noteq> 0 \<longrightarrow> hd ds \<noteq> 48) \<and> (xx = 0 \<longrightarrow> ds = [48]) \<and> length ds \<le> 10"
proof -
  let ?neg = "sign \<and> sint xx < 0"
  let ?x = "if ?neg then - xx else xx" and ?ds = "rev (printint_buf (unat (if ?neg then - xx else xx)) base)"
  obtain s' where s': "printint xx base sign s = OK s'" "uart_out s' = uart_out s @ (if ?neg then [45] else []) @ ?ds"
    using consputs_uart [OF assms(1,2), of "(if ?neg then [45] else []) @ ?ds"]
    by (cases ?neg) (auto simp: printint_def Let_def)
  have b: "1 < base" "base \<le> 16" using assms(3) by auto
  have "unat ?x = (if sign then nat \<bar>sint xx\<bar> else unat xx)"
    using unat_magnitude [of xx] unat_nonneg [of xx] by auto
  moreover have "xx \<noteq> 0 \<Longrightarrow> hd ?ds \<noteq> 48"
    using printint_buf_leading [OF b, of "unat ?x"] by (auto simp: hd_rev unat_gt_0)
  moreover have "set ?ds \<subseteq> set (take base digits)" "?ds \<noteq> []" using printint_buf_digits [OF b, of "unat ?x"] by simp_all
  moreover have "xx = 0 \<Longrightarrow> ?ds = [48]" by (simp add: printint_buf.simps digits_def)
  moreover have "unat ?x < base ^ Suc 9" using assms(3) unat_u32_less [of ?x] by auto
  then have "length ?ds \<le> 10" using printint_buf_length [OF b(1), of "unat ?x" 9] by simp
  ultimately show ?thesis using s' printint_buf_value [OF b] by (intro exI [of _ s'] exI [of _ ?ds]) auto
qed

theorem printint_prints_number_witness:
  "\<exists>s' ds. printint (-12) 10 True boot_cons = OK s' \<and> uart_out s' = [45] @ ds \<and> number_value 10 ds = 12"
  using printint_prints_number [OF boot_cons_ok(2,4), of 10 "-12" True] boot_cons_ok(5) by auto

end
