(* ===== verification/Sysfile.thy ===== *)
theory Sysfile
  imports Console Exec
begin

text \<open>
  The system calls: fetching arguments from user memory and the dispatcher (syscall.c), the calls on
  processes and time (sysproc.c) and on files (sysfile.c).  The kernel reads and writes user memory
  at user addresses through the current page table; an address that is not mapped would fault.
\<close>

subsection \<open>State and user memory\<close>

record kerns = conss +
  sysCalls :: "u32 list"
  ticks :: u32

definition user_ka :: "'z procs_scheme \<Rightarrow> u32 \<Rightarrow> u32 kres" where
  "user_ka s va =
     (let (pte, _) = walkpgdir (P2V (cr3 s)) va False s
      in if pte = 0 \<or> load32 (mem s) pte AND PTE_P = 0 then Stuck ''page fault''
         else OK (P2V (PTE_ADDR (load32 (mem s) pte)) + (va AND 0xFFF)))"

primrec user_load :: "nat \<Rightarrow> u32 \<Rightarrow> 'z procs_scheme \<Rightarrow> u8 list kres" where
  "user_load 0 va s = OK []"
| "user_load (Suc n) va s =
     kbind (user_ka s va) (\<lambda>a. kbind (user_load n (va + 1) s) (\<lambda>bs. OK (mem s a # bs)))"

primrec user_store :: "u8 list \<Rightarrow> u32 \<Rightarrow> 'z procs_scheme \<Rightarrow> 'z procs_scheme kres" where
  "user_store [] va s = OK s"
| "user_store (b # bs) va s =
     kbind (user_ka s va) (\<lambda>a. user_store bs (va + 1) (s\<lparr>mem := (mem s)(a := b)\<rparr>))"

definition the_proc :: "'z procs_scheme \<Rightarrow> nat kres" where
  "the_proc s = (case curproc s of None \<Rightarrow> Stuck ''proc'' | Some i \<Rightarrow> OK i)"

subsection \<open>Arguments\<close>

text \<open>A result None is the return value -1 of the code.\<close>

definition fetchint :: "u32 \<Rightarrow> 'z procs_scheme \<Rightarrow> u32 option kres" where
  "fetchint addr s =
     kbind (the_proc s) (\<lambda>i.
     if addr \<ge> psz (proc_at s i) \<or> addr + 4 > psz (proc_at s i) then OK None
     else kbind (user_load 4 addr s) (\<lambda>bs. OK (Some (of_le32 bs))))"

primrec fetchstr_scan :: "nat \<Rightarrow> u32 \<Rightarrow> 'z procs_scheme \<Rightarrow> u8 list option kres" where
  "fetchstr_scan 0 va s = OK None"
| "fetchstr_scan (Suc n) va s =
     kbind (user_ka s va) (\<lambda>a.
     if mem s a = 0 then OK (Some [])
     else kbind (fetchstr_scan n (va + 1) s) (\<lambda>r. OK (map_option (\<lambda>cs. mem s a # cs) r)))"

text \<open>fetchstr gives the string itself; its length is the return value of the code.\<close>

definition fetchstr :: "u32 \<Rightarrow> 'z procs_scheme \<Rightarrow> u8 list option kres" where
  "fetchstr addr s =
     kbind (the_proc s) (\<lambda>i.
     if addr \<ge> psz (proc_at s i) then OK None
     else fetchstr_scan (unat (psz (proc_at s i) - addr)) addr s)"

definition argint :: "nat \<Rightarrow> 'z procs_scheme \<Rightarrow> u32 option kres" where
  "argint n s =
     kbind (the_proc s) (\<lambda>i.
     fetchint (load32 (mem s) (tf (proc_at s i) + TF_ESP) + 4 + 4 * word_of_nat n) s)"

definition argptr :: "nat \<Rightarrow> int \<Rightarrow> 'z procs_scheme \<Rightarrow> u32 option kres" where
  "argptr n sz s =
     kbind (the_proc s) (\<lambda>p.
     kbind (argint n s) (\<lambda>r.
     case r of
       None \<Rightarrow> OK None
     | Some i \<Rightarrow>
         if sz < 0 \<or> i \<ge> psz (proc_at s p) \<or> i + word_of_int sz > psz (proc_at s p) then OK None
         else OK (Some i)))"

definition argstr :: "nat \<Rightarrow> 'z procs_scheme \<Rightarrow> u8 list option kres" where
  "argstr n s = kbind (argint n s) (\<lambda>r. case r of None \<Rightarrow> OK None | Some a \<Rightarrow> fetchstr a s)"

subsection \<open>Calls on processes and time\<close>

type_synonym 'z syscall_fn = "'z kerns_scheme \<Rightarrow> (int \<times> 'z kerns_scheme) kres"

definition sysnumcall_lines :: "string list" where
  "sysnumcall_lines =
    [''Total Sys Calls-> %d'', ''Fork Calls-> %d'', ''Exit Call->%d'', ''Wait Call->%d'', ''Pipe Call->%d'', ''Read Call->%d'',
     ''kill Call->%d'', ''Exec Call->%d'', ''fstat Call->%d'', ''Chdir Call->%d'', ''Dup Call->%d'', ''Get PID Call->%d'',
     ''Sbrk Call->%d'', ''Sleep Call->%d'', ''Uptime Call->%d'', ''Open Call->%d'', ''Write Call->%d'', ''Mknod Call->%d'',
     ''unlink Call->%d'', ''link Call->%d'', ''mkdir Call->%d'', ''Close Call->%d'', ''Sysnumcall Call->%d'']"

definition sys_sysnumcall :: "'z syscall_fn" where
  "sys_sysnumcall s =
     kbind (cprintf (Some (10 # cstr ''This system call is implemented by Tanmay Pradhan A20376280'')) [] s) (\<lambda>s.
     kbind (kfor (\<lambda>k s. cprintf (Some (10 # cstr (sysnumcall_lines ! k))) [CInt (sysCalls s ! k)] s) [0..<23] s) (\<lambda>s.
     OK (0, s\<lparr>sysCalls := replicate 23 0\<rparr>)))"

definition sys_fork :: "'z syscall_fn" where
  "sys_fork s = fork s"

text \<open>exit does not return: the state is the one in which the process has become a zombie.\<close>

definition sys_exit :: "'z syscall_fn" where
  "sys_exit s = kbind (exit_proc s) (\<lambda>s. OK (0, s))"

definition sys_wait :: "'z syscall_fn" where
  "sys_wait s =
     kbind (the_proc s) (\<lambda>i. kbind (wait s) (run_kres (ChProc i)))"

definition sys_kill :: "'z syscall_fn" where
  "sys_kill s =
     kbind (argint 0 s) (\<lambda>r. case r of None \<Rightarrow> OK (-1, s) | Some n \<Rightarrow> OK (kill s (sint n)))"

definition sys_getpid :: "'z syscall_fn" where
  "sys_getpid s = kbind (the_proc s) (\<lambda>i. OK (pid (proc_at s i), s))"

definition sys_sbrk :: "'z syscall_fn" where
  "sys_sbrk s =
     kbind (the_proc s) (\<lambda>i.
     kbind (argint 0 s) (\<lambda>r.
     case r of
       None \<Rightarrow> OK (-1, s)
     | Some n \<Rightarrow>
         let addr = sint (psz (proc_at s i))
         in kbind (growproc (sint n) s) (\<lambda>(r, s). OK (if r < 0 then -1 else addr, s))))"

text \<open>
  The loop of sys_sleep from the moment when the lock is held, with the tick count \<open>ticks0\<close> at which
  the call began; the comparison is unsigned.
\<close>

definition sleep_round :: "u32 \<Rightarrow> u32 \<Rightarrow> 'z kerns_scheme \<Rightarrow> (int, 'z kerns_scheme) run kres" where
  "sleep_round ticks0 n s =
     (if ticks s - ticks0 < n then
        kbind (proc_killed s) (\<lambda>k.
        if k then OK (Done (-1) s)
        else kbind (sleep_begin s ChTicks True) (\<lambda>s. OK (Waits 0 s)))
      else OK (Done 0 s))"

definition sys_sleep :: "'z syscall_fn" where
  "sys_sleep s =
     kbind (argint 0 s) (\<lambda>r.
     case r of
       None \<Rightarrow> OK (-1, s)
     | Some n \<Rightarrow> kbind (sleep_round (ticks s) n s) (run_kres ChTicks))"

definition sys_uptime :: "'z syscall_fn" where
  "sys_uptime s = OK (sint (ticks s), s)"

subsection \<open>File descriptors\<close>

definition argfd :: "nat \<Rightarrow> 'z procs_scheme \<Rightarrow> (nat \<times> nat) option kres" where
  "argfd n s =
     kbind (the_proc s) (\<lambda>i.
     kbind (argint n s) (\<lambda>r.
     case r of
       None \<Rightarrow> OK None
     | Some fd \<Rightarrow>
         if sint fd < 0 \<or> sint fd \<ge> int NOFILE then OK None
         else OK (map_option (\<lambda>f. (unat fd, f)) (ofile (proc_at s i) ! unat fd))))"

definition fdalloc :: "nat \<Rightarrow> 'z procs_scheme \<Rightarrow> (nat option \<times> 'z procs_scheme) kres" where
  "fdalloc f s =
     kbind (the_proc s) (\<lambda>i.
     case find_idx (\<lambda>x. x = None) (ofile (proc_at s i)) of
       Some fd \<Rightarrow> OK (Some fd, upd_proc s i (\<lambda>p. p\<lparr>ofile := (ofile p)[fd := Some f]\<rparr>))
     | None \<Rightarrow> OK (None, s))"

definition set_ofile :: "nat \<Rightarrow> nat option \<Rightarrow> 'z procs_scheme \<Rightarrow> 'z procs_scheme kres" where
  "set_ofile fd x s =
     kbind (the_proc s) (\<lambda>i. OK (upd_proc s i (\<lambda>p. p\<lparr>ofile := (ofile p)[fd := x]\<rparr>)))"

definition sys_dup :: "'z syscall_fn" where
  "sys_dup s =
     kbind (argfd 0 s) (\<lambda>r.
     case r of
       None \<Rightarrow> OK (-1, s)
     | Some (_, f) \<Rightarrow>
         kbind (fdalloc f s) (\<lambda>(fd, s).
         case fd of
           None \<Rightarrow> OK (-1, s)
         | Some fd \<Rightarrow> kbind (filedup f s) (\<lambda>s. OK (int fd, s))))"

text \<open>The three arguments of read and write: a file, a buffer and its size.\<close>

definition rw_args :: "'z procs_scheme \<Rightarrow> (nat \<times> u32 \<times> int) option kres" where
  "rw_args s =
     kbind (argfd 0 s) (\<lambda>r.
     case r of
       None \<Rightarrow> OK None
     | Some (_, f) \<Rightarrow>
         kbind (argint 2 s) (\<lambda>r.
         case r of
           None \<Rightarrow> OK None
         | Some n \<Rightarrow> kbind (argptr 1 (sint n) s) (\<lambda>p. OK (map_option (\<lambda>p. (f, p, sint n)) p))))"

definition sys_read :: "'z syscall_fn" where
  "sys_read s =
     kbind (rw_args s) (\<lambda>r.
     case r of
       None \<Rightarrow> OK (-1, s)
     | Some (f, p, n) \<Rightarrow>
         kbind (fileread console_devsw f n s) (\<lambda>((r, bytes), s).
         kbind (user_store bytes p s) (\<lambda>s. OK (r, s))))"

text \<open>filewrite reads the bytes only when the file can be written.\<close>

definition sys_write :: "'z syscall_fn" where
  "sys_write s =
     kbind (rw_args s) (\<lambda>r.
     case r of
       None \<Rightarrow> OK (-1, s)
     | Some (f, p, n) \<Rightarrow>
         if \<not> f_writable (file_at s f) then filewrite console_devsw f [] n s
         else kbind (user_load (nat n) p s) (\<lambda>bytes. filewrite console_devsw f bytes n s))"

definition sys_close :: "'z syscall_fn" where
  "sys_close s =
     kbind (argfd 0 s) (\<lambda>r.
     case r of
       None \<Rightarrow> OK (-1, s)
     | Some (fd, f) \<Rightarrow>
         kbind (set_ofile fd None s) (\<lambda>s. kbind (fileclose f s) (\<lambda>s. OK (0, s))))"

text \<open>struct stat is 20 bytes: the short type, padded, dev, ino, the short nlink, padded, size.\<close>

definition stat_bytes :: "stat \<Rightarrow> u8 list" where
  "stat_bytes st = le16 (st_type st) @ [0, 0] @ le32 (word_of_int (st_dev st)) @ le32 (word_of_nat (st_ino st)) @
     le16 (st_nlink st) @ [0, 0] @ le32 (st_size st)"

definition sys_fstat :: "'z syscall_fn" where
  "sys_fstat s =
     kbind (argfd 0 s) (\<lambda>r.
     case r of
       None \<Rightarrow> OK (-1, s)
     | Some (_, f) \<Rightarrow>
         kbind (argptr 1 20 s) (\<lambda>p.
         case p of
           None \<Rightarrow> OK (-1, s)
         | Some p \<Rightarrow>
             kbind (filestat f s) (\<lambda>((r, st), s).
             case st of
               None \<Rightarrow> OK (r, s)
             | Some st \<Rightarrow> kbind (user_store (stat_bytes st) p s) (\<lambda>s. OK (r, s)))))"

subsection \<open>Links\<close>

definition link_bad :: "nat \<Rightarrow> 'z syscall_fn" where
  "link_bad ip s =
     kbind (ilock (Some ip) s) (\<lambda>s.
     kbind (iupdate ip (upd_inode s ip (\<lambda>i. i\<lparr>i_nlink := i_nlink i - 1\<rparr>))) (\<lambda>s.
     kbind (iunlockput ip s) (\<lambda>s.
     kbind (end_op s) (\<lambda>s. OK (-1, s)))))"

definition link_paths :: "u8 list \<Rightarrow> u8 list \<Rightarrow> 'z syscall_fn" where
  "link_paths old new s =
     kbind (begin_op s) (\<lambda>s.
     kbind (namei console_devsw old s) (\<lambda>(ip, s).
     case ip of
       None \<Rightarrow> kbind (end_op s) (\<lambda>s. OK (-1, s))
     | Some ip \<Rightarrow>
         kbind (ilock (Some ip) s) (\<lambda>s.
         if i_type (inode_at s ip) = T_DIR then
           kbind (iunlockput ip s) (\<lambda>s. kbind (end_op s) (\<lambda>s. OK (-1, s)))
         else
           kbind (iupdate ip (upd_inode s ip (\<lambda>i. i\<lparr>i_nlink := i_nlink i + 1\<rparr>))) (\<lambda>s.
           kbind (iunlock (Some ip) s) (\<lambda>s.
           kbind (nameiparent console_devsw new (replicate DIRSIZ 0) s) (\<lambda>((dp, name), s).
           case dp of
             None \<Rightarrow> link_bad ip s
           | Some dp \<Rightarrow>
               kbind (ilock (Some dp) s) (\<lambda>s.
               kbind (if i_dev (inode_at s dp) \<noteq> i_dev (inode_at s ip) then OK (-1, s)
                      else dirlink console_devsw dp name (i_inum (inode_at s ip)) s) (\<lambda>(r, s).
               if r < 0 then kbind (iunlockput dp s) (link_bad ip)
               else
                 kbind (iunlockput dp s) (\<lambda>s.
                 kbind (iput ip s) (\<lambda>s.
                 kbind (end_op s) (\<lambda>s. OK (0, s))))))))))))"

definition sys_link :: "'z syscall_fn" where
  "sys_link s =
     kbind (argstr 0 s) (\<lambda>old.
     case old of
       None \<Rightarrow> OK (-1, s)
     | Some old \<Rightarrow>
         kbind (argstr 1 s) (\<lambda>new. case new of None \<Rightarrow> OK (-1, s) | Some new \<Rightarrow> link_paths old new s))"

primrec isdirempty_scan :: "nat \<Rightarrow> nat list \<Rightarrow> 'z kerns_scheme \<Rightarrow> (bool \<times> 'z kerns_scheme) kres" where
  "isdirempty_scan dp [] s = OK (True, s)"
| "isdirempty_scan dp (off # offs) s =
     kbind (readi console_devsw dp (word_of_nat off) 16 s) (\<lambda>((r, bytes), s).
     if r \<noteq> 16 then Panic ''isdirempty: readi''
     else if de_inum (dirent_of bytes) \<noteq> 0 then OK (False, s)
     else isdirempty_scan dp offs s)"

text \<open>The first two entries, dot and dot-dot, are not looked at.\<close>

definition isdirempty :: "nat \<Rightarrow> 'z kerns_scheme \<Rightarrow> (bool \<times> 'z kerns_scheme) kres" where
  "isdirempty dp s = isdirempty_scan dp (drop 2 (dir_offs (i_size (inode_at s dp)))) s"

definition unlink_bad :: "nat \<Rightarrow> 'z syscall_fn" where
  "unlink_bad dp s = kbind (iunlockput dp s) (\<lambda>s. kbind (end_op s) (\<lambda>s. OK (-1, s)))"

text \<open>The removal itself, with both inodes locked and the entry at offset \<open>off\<close>.\<close>

definition unlink_entry :: "nat \<Rightarrow> nat \<Rightarrow> nat \<Rightarrow> 'z syscall_fn" where
  "unlink_entry dp ip off s =
     kbind (writei console_devsw dp (replicate 16 0) (word_of_nat off) 16 s) (\<lambda>(r, s).
     if r \<noteq> 16 then Panic ''unlink: writei''
     else
       kbind (if i_type (inode_at s ip) = T_DIR
              then iupdate dp (upd_inode s dp (\<lambda>i. i\<lparr>i_nlink := i_nlink i - 1\<rparr>)) else OK s) (\<lambda>s.
       kbind (iunlockput dp s) (\<lambda>s.
       kbind (iupdate ip (upd_inode s ip (\<lambda>i. i\<lparr>i_nlink := i_nlink i - 1\<rparr>))) (\<lambda>s.
       kbind (iunlockput ip s) (\<lambda>s.
       kbind (end_op s) (\<lambda>s. OK (0, s)))))))"

definition sys_unlink :: "'z syscall_fn" where
  "sys_unlink s =
     kbind (argstr 0 s) (\<lambda>path.
     case path of
       None \<Rightarrow> OK (-1, s)
     | Some path \<Rightarrow>
         kbind (begin_op s) (\<lambda>s.
         kbind (nameiparent console_devsw path (replicate DIRSIZ 0) s) (\<lambda>((dp, name), s).
         case dp of
           None \<Rightarrow> kbind (end_op s) (\<lambda>s. OK (-1, s))
         | Some dp \<Rightarrow>
             kbind (ilock (Some dp) s) (\<lambda>s.
             if namecmp name [46] = 0 \<or> namecmp name [46, 46] = 0 then unlink_bad dp s
             else
               kbind (dirlookup console_devsw dp name s) (\<lambda>(r, s).
               case r of
                 None \<Rightarrow> unlink_bad dp s
               | Some (ip, off) \<Rightarrow>
                   kbind (ilock (Some ip) s) (\<lambda>s.
                   if sint (i_nlink (inode_at s ip)) < 1 then Panic ''unlink: nlink < 1''
                   else
                     kbind (if i_type (inode_at s ip) = T_DIR then isdirempty ip s else OK (True, s)) (\<lambda>(e, s).
                     if \<not> e then kbind (iunlockput ip s) (unlink_bad dp)
                     else unlink_entry dp ip off s)))))))"

subsection \<open>Creating and opening\<close>

definition create_new :: "nat \<Rightarrow> u8 list \<Rightarrow> u16 \<Rightarrow> u16 \<Rightarrow> u16 \<Rightarrow> 'z kerns_scheme \<Rightarrow> (nat option \<times> 'z kerns_scheme) kres" where
  "create_new dp name type major minor s =
     kbind (ialloc (i_dev (inode_at s dp)) type s) (\<lambda>(ip, s).
     kbind (ilock (Some ip) s) (\<lambda>s.
     kbind (iupdate ip (upd_inode s ip (\<lambda>i. i\<lparr>i_major := major, i_minor := minor, i_nlink := 1\<rparr>))) (\<lambda>s.
     kbind (if type = T_DIR then
              kbind (iupdate dp (upd_inode s dp (\<lambda>i. i\<lparr>i_nlink := i_nlink i + 1\<rparr>))) (\<lambda>s.
              kbind (dirlink console_devsw ip [46] (i_inum (inode_at s ip)) s) (\<lambda>(r, s).
              if r < 0 then Panic ''create dots''
              else
                kbind (dirlink console_devsw ip [46, 46] (i_inum (inode_at s dp)) s) (\<lambda>(r, s).
                if r < 0 then Panic ''create dots'' else OK s)))
            else OK s) (\<lambda>s.
     kbind (dirlink console_devsw dp name (i_inum (inode_at s ip)) s) (\<lambda>(r, s).
     if r < 0 then Panic ''create: dirlink''
     else kbind (iunlockput dp s) (\<lambda>s. OK (Some ip, s)))))))"

definition create :: "u8 list \<Rightarrow> u16 \<Rightarrow> u16 \<Rightarrow> u16 \<Rightarrow> 'z kerns_scheme \<Rightarrow> (nat option \<times> 'z kerns_scheme) kres" where
  "create path type major minor s =
     kbind (nameiparent console_devsw path (replicate DIRSIZ 0) s) (\<lambda>((dp, name), s).
     case dp of
       None \<Rightarrow> OK (None, s)
     | Some dp \<Rightarrow>
         kbind (ilock (Some dp) s) (\<lambda>s.
         kbind (dirlookup console_devsw dp name s) (\<lambda>(r, s).
         case r of
           Some (ip, _) \<Rightarrow>
             kbind (iunlockput dp s) (\<lambda>s.
             kbind (ilock (Some ip) s) (\<lambda>s.
             if type = T_FILE \<and> i_type (inode_at s ip) = T_FILE then OK (Some ip, s)
             else if type = T_SFILE \<and> i_type (inode_at s ip) = T_SFILE then OK (Some ip, s)
             else kbind (iunlockput ip s) (\<lambda>s. OK (None, s))))
         | None \<Rightarrow> create_new dp name type major minor s)))"

abbreviation (input) "O_WRONLY \<equiv> (0x001 :: u32)"
abbreviation (input) "O_RDWR \<equiv> (0x002 :: u32)"
abbreviation (input) "O_CREATE \<equiv> (0x200 :: u32)"
abbreviation (input) "O_SFILE \<equiv> (0x400 :: u32)"

text \<open>The second half of sys_open, with the inode locked.\<close>

definition open_file :: "nat \<Rightarrow> u32 \<Rightarrow> 'z syscall_fn" where
  "open_file ip omode s =
     (let (f, s) = filealloc s
      in kbind (case f of None \<Rightarrow> OK (None, s) | Some f \<Rightarrow> fdalloc f s) (\<lambda>(fd, s).
         case (f, fd) of
           (Some f, Some fd) \<Rightarrow>
             kbind (iunlock (Some ip) s) (\<lambda>s.
             kbind (end_op s) (\<lambda>s.
             OK (int fd, upd_file s f (\<lambda>x. x\<lparr>f_type := FD_INODE, f_ip := ip, f_off := 0,
                   f_readable := (omode AND O_WRONLY = 0),
                   f_writable := (omode AND O_WRONLY \<noteq> 0 \<or> omode AND O_RDWR \<noteq> 0)\<rparr>))))
         | _ \<Rightarrow>
             kbind (case f of None \<Rightarrow> OK s | Some f \<Rightarrow> fileclose f s) (\<lambda>s.
             kbind (iunlockput ip s) (\<lambda>s.
             kbind (end_op s) (\<lambda>s. OK (-1, s))))))"

definition open_path :: "u8 list \<Rightarrow> u32 \<Rightarrow> 'z syscall_fn" where
  "open_path path omode s =
     kbind (begin_op s) (\<lambda>s.
     if omode AND O_CREATE \<noteq> 0 then
       kbind (create path (if omode AND O_SFILE \<noteq> 0 then T_SFILE else T_FILE) 0 0 s) (\<lambda>(ip, s).
       case ip of None \<Rightarrow> OK (-1, s) | Some ip \<Rightarrow> open_file ip omode s)
     else
       kbind (namei console_devsw path s) (\<lambda>(ip, s).
       case ip of
         None \<Rightarrow> kbind (end_op s) (\<lambda>s. OK (-1, s))
       | Some ip \<Rightarrow>
           kbind (ilock (Some ip) s) (\<lambda>s.
           if i_type (inode_at s ip) = T_DIR \<and> omode \<noteq> 0 then
             kbind (iunlockput ip s) (\<lambda>s. kbind (end_op s) (\<lambda>s. OK (-1, s)))
           else open_file ip omode s)))"

definition sys_open :: "'z syscall_fn" where
  "sys_open s =
     kbind (argstr 0 s) (\<lambda>path.
     case path of
       None \<Rightarrow> OK (-1, s)
     | Some path \<Rightarrow>
         kbind (argint 1 s) (\<lambda>omode. case omode of None \<Rightarrow> OK (-1, s) | Some omode \<Rightarrow> open_path path omode s))"

definition sys_mkdir :: "'z syscall_fn" where
  "sys_mkdir s =
     kbind (begin_op s) (\<lambda>s.
     kbind (argstr 0 s) (\<lambda>path.
     kbind (case path of None \<Rightarrow> OK (None, s) | Some path \<Rightarrow> create path T_DIR 0 0 s) (\<lambda>(ip, s).
     case ip of
       None \<Rightarrow> kbind (end_op s) (\<lambda>s. OK (-1, s))
     | Some ip \<Rightarrow> kbind (iunlockput ip s) (\<lambda>s. kbind (end_op s) (\<lambda>s. OK (0, s))))))"

definition mknod_args :: "'z procs_scheme \<Rightarrow> (u8 list \<times> u32 \<times> u32) option kres" where
  "mknod_args s =
     kbind (argstr 0 s) (\<lambda>path.
     case path of
       None \<Rightarrow> OK None
     | Some path \<Rightarrow>
         kbind (argint 1 s) (\<lambda>major.
         case major of
           None \<Rightarrow> OK None
         | Some major \<Rightarrow> kbind (argint 2 s) (\<lambda>minor. OK (map_option (\<lambda>minor. (path, major, minor)) minor))))"

definition sys_mknod :: "'z syscall_fn" where
  "sys_mknod s =
     kbind (begin_op s) (\<lambda>s.
     kbind (mknod_args s) (\<lambda>args.
     kbind (case args of
              Some (path, major, minor) \<Rightarrow> create path T_DEV (ucast major) (ucast minor) s
            | None \<Rightarrow> OK (None, s)) (\<lambda>(ip, s).
     case ip of
       None \<Rightarrow> kbind (end_op s) (\<lambda>s. OK (-1, s))
     | Some ip \<Rightarrow> kbind (iunlockput ip s) (\<lambda>s. kbind (end_op s) (\<lambda>s. OK (0, s))))))"

definition sys_chdir :: "'z syscall_fn" where
  "sys_chdir s =
     kbind (the_proc s) (\<lambda>p.
     kbind (begin_op s) (\<lambda>s.
     kbind (argstr 0 s) (\<lambda>path.
     kbind (case path of None \<Rightarrow> OK (None, s) | Some path \<Rightarrow> namei console_devsw path s) (\<lambda>(ip, s).
     case ip of
       None \<Rightarrow> kbind (end_op s) (\<lambda>s. OK (-1, s))
     | Some ip \<Rightarrow>
         kbind (ilock (Some ip) s) (\<lambda>s.
         if i_type (inode_at s ip) \<noteq> T_DIR then
           kbind (iunlockput ip s) (\<lambda>s. kbind (end_op s) (\<lambda>s. OK (-1, s)))
         else
           kbind (iunlock (Some ip) s) (\<lambda>s.
           case cwd (proc_at s p) of
             None \<Rightarrow> Stuck ''cwd''
           | Some c \<Rightarrow>
               kbind (iput c s) (\<lambda>s.
               kbind (end_op s) (\<lambda>s.
               OK (0, upd_proc s p (\<lambda>q. q\<lparr>cwd := Some ip\<rparr>))))))))))"

text \<open>The loop of sys_exec that collects the argument strings; None is the return value -1.\<close>

primrec exec_argv :: "nat \<Rightarrow> u32 \<Rightarrow> 'z procs_scheme \<Rightarrow> u8 list list option kres" where
  "exec_argv 0 uargv s = OK None"
| "exec_argv (Suc n) uargv s =
     kbind (fetchint uargv s) (\<lambda>uarg.
     case uarg of
       None \<Rightarrow> OK None
     | Some uarg \<Rightarrow>
         if uarg = 0 then OK (Some [])
         else
           kbind (fetchstr uarg s) (\<lambda>a.
           case a of
             None \<Rightarrow> OK None
           | Some a \<Rightarrow> kbind (exec_argv n (uargv + 4) s) (\<lambda>as. OK (map_option (\<lambda>as. a # as) as))))"

definition sys_exec :: "'z syscall_fn" where
  "sys_exec s =
     kbind (argstr 0 s) (\<lambda>path.
     case path of
       None \<Rightarrow> OK (-1, s)
     | Some path \<Rightarrow>
         kbind (argint 1 s) (\<lambda>uargv.
         case uargv of
           None \<Rightarrow> OK (-1, s)
         | Some uargv \<Rightarrow>
             kbind (exec_argv MAXARG uargv s) (\<lambda>argv.
             case argv of None \<Rightarrow> OK (-1, s) | Some argv \<Rightarrow> exec console_devsw path argv s)))"

definition sys_pipe :: "'z syscall_fn" where
  "sys_pipe s =
     kbind (argptr 0 8 s) (\<lambda>fd.
     case fd of
       None \<Rightarrow> OK (-1, s)
     | Some fd \<Rightarrow>
         kbind (pipealloc s) (\<lambda>((r, rfile, wfile), s).
         if r < 0 then OK (-1, s)
         else
           (case (rfile, wfile) of
             (Some rfile, Some wfile) \<Rightarrow>
               kbind (fdalloc rfile s) (\<lambda>(fd0, s).
               kbind (case fd0 of None \<Rightarrow> OK (None, s) | Some _ \<Rightarrow> fdalloc wfile s) (\<lambda>(fd1, s).
               case (fd0, fd1) of
                 (Some fd0, Some fd1) \<Rightarrow>
                   kbind (user_store (le32 (word_of_nat fd0) @ le32 (word_of_nat fd1)) fd s) (\<lambda>s. OK (0, s))
               | _ \<Rightarrow>
                   kbind (case fd0 of None \<Rightarrow> OK s | Some fd0 \<Rightarrow> set_ofile fd0 None s) (\<lambda>s.
                   kbind (fileclose rfile s) (\<lambda>s.
                   kbind (fileclose wfile s) (\<lambda>s. OK (-1, s))))))
           | _ \<Rightarrow> Stuck ''null'')))"

subsection \<open>The dispatcher\<close>

definition syscalls :: "nat \<Rightarrow> 'z syscall_fn" where
  "syscalls num =
     [sys_fork, sys_exit, sys_wait, sys_pipe, sys_read, sys_kill, sys_exec, sys_fstat, sys_chdir, sys_dup, sys_getpid,
      sys_sbrk, sys_sleep, sys_uptime, sys_open, sys_write, sys_mknod, sys_unlink, sys_link, sys_mkdir, sys_close,
      sys_sysnumcall] ! (num - 1)"

definition set_eax :: "u32 \<Rightarrow> 'z kerns_scheme \<Rightarrow> 'z kerns_scheme kres" where
  "set_eax w s = kbind (the_proc s) (\<lambda>i. OK (s\<lparr>mem := store32 (mem s) (tf (proc_at s i) + TF_EAX) w\<rparr>))"

text \<open>Counting a call: the total in element 0 and the call's own counter.\<close>

definition count_call :: "nat \<Rightarrow> 'z kerns_scheme \<Rightarrow> 'z kerns_scheme" where
  "count_call num s =
     (let s = s\<lparr>sysCalls := (sysCalls s)[0 := sysCalls s ! 0 + 1]\<rparr>
      in s\<lparr>sysCalls := (sysCalls s)[num := sysCalls s ! num + 1]\<rparr>)"

text \<open>A process that has become a zombie in sys_exit never comes back here.\<close>

definition syscall :: "'z kerns_scheme \<Rightarrow> 'z kerns_scheme kres" where
  "syscall s =
     kbind (the_proc s) (\<lambda>i.
     let num = sint (load32 (mem s) (tf (proc_at s i) + TF_EAX))
     in if num > 0 \<and> num < 23 then
          kbind (syscalls (nat num) (count_call (nat num) s)) (\<lambda>(r, s).
          if pstate (proc_at s i) = ZOMBIE then OK s else set_eax (word_of_int r) s)
        else
          kbind (cprintf (Some (cstr ''%d %s: unknown sys call %d'' @ [10]))
                  [CInt (word_of_int (pid (proc_at s i))), CStr (Some (carr_str (pname (proc_at s i)) 16)), CInt (word_of_int num)] s)
            (set_eax (-1)))"

end
