(* ===== verification/Trap.thy ===== *)
theory Trap
  imports Sysfile
begin

text \<open>
  The trap handler, trap.c.  The trap frame is at the address \<open>tfa\<close>.  The fault
  address in \<open>cr2\<close>, the number of the CPU and the characters that the keyboard or the serial port
  deliver are arguments; a zombie never runs on after exit; acknowledging an interrupt
  at the local APIC has no effect on the state, and the disk interrupt handler of memide.c does
  nothing.
\<close>

abbreviation (input) "T_SYSCALL \<equiv> (64 :: u32)"
abbreviation (input) "IRQ_TIMER_TRAP \<equiv> (32 :: u32)"
abbreviation (input) "IRQ_KBD_TRAP \<equiv> (33 :: u32)"
abbreviation (input) "IRQ_COM1_TRAP \<equiv> (36 :: u32)"
abbreviation (input) "IRQ_7_TRAP \<equiv> (39 :: u32)"
abbreviation (input) "IRQ_IDE_TRAP \<equiv> (46 :: u32)"
abbreviation (input) "IRQ_IDE1_TRAP \<equiv> (47 :: u32)"
abbreviation (input) "IRQ_SPURIOUS_TRAP \<equiv> (63 :: u32)"

definition cur_killed :: "'z procs_scheme \<Rightarrow> bool" where
  "cur_killed s = (case curproc s of None \<Rightarrow> False | Some i \<Rightarrow> killed (proc_at s i))"

definition from_user :: "u32 \<Rightarrow> 'z mstate_scheme \<Rightarrow> bool" where
  "from_user tfa s \<longleftrightarrow> load32 (mem s) (tfa + TF_CS) AND 3 = 3"

text \<open>The switch of trap on the interrupt number.\<close>

definition trap_switch :: "u32 \<Rightarrow> nat \<Rightarrow> int list \<Rightarrow> u32 \<Rightarrow> 'z kerns_scheme \<Rightarrow> 'z kerns_scheme kres" where
  "trap_switch cr2 cpunum chars tfa s =
     (let no = load32 (mem s) (tfa + TF_TRAPNO)
      in if no = IRQ_TIMER_TRAP then
           OK (if cpunum = 0 then wakeup (s\<lparr>ticks := ticks s + 1\<rparr>) ChTicks else s)
         else if no = IRQ_IDE_TRAP \<or> no = IRQ_IDE1_TRAP then OK s
         else if no = IRQ_KBD_TRAP \<or> no = IRQ_COM1_TRAP then consoleintr chars s
         else if no = IRQ_7_TRAP \<or> no = IRQ_SPURIOUS_TRAP then
           cprintf (Some (cstr ''cpu%d: spurious interrupt at %x:%x'' @ [10]))
             [CInt (word_of_nat cpunum), CInt (load32 (mem s) (tfa + TF_CS) AND 0xFFFF), CInt (load32 (mem s) (tfa + TF_EIP))] s
         else
           (case curproc s of
              None \<Rightarrow> Panic ''trap''
            | Some i \<Rightarrow>
                if load32 (mem s) (tfa + TF_CS) AND 3 = 0 then Panic ''trap''
                else
                  kbind (cprintf (Some (cstr ''pid %d %s: trap %d err %d on cpu %d eip 0x%x addr 0x%x--kill proc'' @ [10]))
                          [CInt (word_of_int (pid (proc_at s i))), CStr (Some (carr_str (pname (proc_at s i)) 16)), CInt no,
                           CInt (load32 (mem s) (tfa + 52)), CInt (word_of_nat cpunum), CInt (load32 (mem s) (tfa + TF_EIP)), CInt cr2] s) (\<lambda>s.
                  OK (upd_proc s i (\<lambda>p. p\<lparr>killed := True\<rparr>)))))"

text \<open>
  The rest of trap after the switch: a killed process that comes from user space exits; on a timer
  interrupt a running process yields, and is looked at again when it runs next.
\<close>

definition trap_leave :: "u32 \<Rightarrow> 'z kerns_scheme \<Rightarrow> 'z kerns_scheme kres" where
  "trap_leave tfa s =
     (if cur_killed s \<and> from_user tfa s then exit_proc s
      else
        (case curproc s of
           None \<Rightarrow> OK s
         | Some i \<Rightarrow>
             OK (if pstate (proc_at s i) = RUNNING \<and> load32 (mem s) (tfa + TF_TRAPNO) = IRQ_TIMER_TRAP then yield s i else s)))"

definition trap :: "u32 \<Rightarrow> nat \<Rightarrow> int list \<Rightarrow> u32 \<Rightarrow> 'z kerns_scheme \<Rightarrow> 'z kerns_scheme kres" where
  "trap cr2 cpunum chars tfa s =
     (if load32 (mem s) (tfa + TF_TRAPNO) = T_SYSCALL then
        kbind (the_proc s) (\<lambda>i.
        if killed (proc_at s i) then exit_proc s
        else
          kbind (syscall (upd_proc s i (\<lambda>p. p\<lparr>tf := tfa\<rparr>))) (\<lambda>s.
          if killed (proc_at s i) \<and> pstate (proc_at s i) \<noteq> ZOMBIE then exit_proc s else OK s))
      else kbind (trap_switch cr2 cpunum chars tfa s) (trap_leave tfa))"

end
