(* ===== verification/Counts.thy ===== *)
theory Counts
  imports Frames Trap
begin

text \<open>
  Counting across the system calls: the reference count of every open file is the number of file
  descriptors that name it, and the log has as many outstanding operations as calls are inside a
  transaction.  The lemmas follow the calls of sysfile.c, sysproc.c and proc.c with the rules of the
  collection \<open>frame\<close>.
\<close>

subsection \<open>The console\<close>

lemma keeps_cons [frame]:
  "keeps s0 s \<Longrightarrow> keeps s0 (s\<lparr>in_e := e\<rparr>)" "keeps s0 s \<Longrightarrow> keeps s0 (s\<lparr>in_w := e\<rparr>)" "keeps s0 s \<Longrightarrow> keeps s0 (s\<lparr>in_r := e\<rparr>)"
  "keeps s0 s \<Longrightarrow> keeps s0 (s\<lparr>in_buf := b, in_e := e\<rparr>)" "keeps s0 s \<Longrightarrow> keeps s0 (uartputc c s)"
  by (simp_all add: keeps_def uartputc_def)

lemma keeps_cgaputc: "keeps s0 s \<Longrightarrow> safe (cgaputc c s) (keeps s0)"
  by (simp add: safe_def cgaputc_def Let_def keeps_def)

lemma keeps_consputc [frame]: "keeps s0 s \<Longrightarrow> safe (consputc c s) (keeps s0)"
  unfolding consputc_def by (rule frame keeps_cgaputc | assumption)+

lemmas [frame] = keeps_consputc [THEN safe_bind_state]

lemma keeps_printint [frame]: "keeps s0 s \<Longrightarrow> safe (printint xx base sign s) (keeps s0)"
  unfolding printint_def Let_def by (rule frame | assumption)+

lemmas [frame] = keeps_printint [THEN safe_bind_state]

lemma keeps_cprintf_loop: "keeps s0 s \<Longrightarrow> safe (cprintf_loop fmt args s) (keeps s0)"
proof (induction "length fmt" arbitrary: fmt args s rule: less_induct)
  case less
  have IH: "safe (cprintf_loop fmt' args' s1) (keeps s0)" if "length fmt' < length fmt" "keeps s0 s1" for fmt' args' s1
    using that by (rule less.hyps)
  have arg: "safe (case args of CInt w # as \<Rightarrow> f w as | _ \<Rightarrow> Stuck m) Q"
    if "\<And>w as. safe (f w as) Q" for f m and Q :: "'a conss_scheme \<Rightarrow> bool"
    using that by (auto simp: safe_Stuck split: list.split carg.split)
  have str: "safe (case args of CStr w # as \<Rightarrow> f w as | _ \<Rightarrow> Stuck m) Q"
    if "\<And>w as. safe (f w as) Q" for f m and Q :: "'a conss_scheme \<Rightarrow> bool"
    using that by (auto simp: safe_Stuck split: list.split carg.split)
  show ?case
  proof (cases fmt)
    case (Cons c fmt1)
    show ?thesis
    proof (cases fmt1)
      case Nil
      then show ?thesis using less.prems
        by (simp only: Cons Nil cprintf_loop.simps list.case) (rule frame IH | assumption | (simp add: Cons; fail))+
    next
      case (Cons f fmt2)
      then show ?thesis using less.prems \<open>fmt = c # fmt1\<close>
        by (simp only: Cons \<open>fmt = c # fmt1\<close> cprintf_loop.simps list.case)
           (rule frame arg str IH | assumption | (simp add: Cons \<open>fmt = c # fmt1\<close>; fail))+
    qed
  qed (simp add: less.prems safe_def)
qed

lemma keeps_cprintf [frame]: "keeps s0 s \<Longrightarrow> safe (cprintf fmt args s) (keeps s0)"
  unfolding cprintf_def by (rule frame keeps_cprintf_loop | assumption | (simp; fail))+

lemmas [frame] = keeps_cprintf [THEN safe_bind_state]

lemma safe_proc_killed: "safe (proc_killed s) (\<lambda>_. True)"
  unfolding proc_killed_def by (rule frame | (simp; fail))+

definition run_keeps :: "'z fils_scheme \<Rightarrow> ('a, 'z fils_scheme) run \<Rightarrow> bool" where
  "run_keeps s0 r = (case r of Done x s \<Rightarrow> keeps s0 s | Waits k s \<Rightarrow> True)"

lemma safe_sleep_begin: "(\<And>s1. safe (f s1) Q) \<Longrightarrow> safe (kbind (sleep_begin s c lk) f) Q"
  unfolding sleep_begin_def by (auto simp: safe_def split: option.split)

lemma keeps_consoleread_loop: "keeps s0 s \<Longrightarrow> safe (consoleread_loop n got s) (run_keeps s0)"
proof (induction n arbitrary: got s)
  case (Suc n)
  have r: "run_keeps s0 (case r of Done (Some cs) s \<Rightarrow> Done (Some (c # cs)) s | r \<Rightarrow> r)" if "run_keeps s0 r" for r c
    using that by (auto simp: run_keeps_def split: run.splits option.splits)
  show ?case using Suc.prems
    by (simp only: consoleread_loop.simps Let_def)
       (rule frame r Suc.IH [THEN safe_bind_state] safe_proc_killed [THEN safe_bind_value] safe_sleep_begin | assumption |
         (simp add: run_keeps_def keeps_cons; fail))+
qed (simp add: safe_def run_keeps_def)

lemma safe_run:
  "run_keeps s0 r \<Longrightarrow> (\<And>x s. keeps s0 s \<Longrightarrow> safe (f x s) Q) \<Longrightarrow> safe (case r of Done x s \<Rightarrow> f x s | Waits _ _ \<Rightarrow> Sleep ch) Q"
  by (auto simp: run_keeps_def safe_Sleep split: run.split)

lemma keeps_consoleread: "keeps s0 s \<Longrightarrow> safe (consoleread ip n s) (\<lambda>(r, s). keeps s0 s)"
  unfolding consoleread_def
  by (rule frame safe_run keeps_consoleread_loop [THEN safe_bind_state] | assumption | (simp; fail))+

lemma keeps_consolewrite: "keeps s0 s \<Longrightarrow> safe (consolewrite ip bytes n s) (\<lambda>(r, s). keeps s0 s)"
  unfolding consolewrite_def by (rule frame | assumption | (simp; fail))+

interpretation con: quiet_devices console_devsw
  by unfold_locales (auto simp: console_devsw_def intro: keeps_consoleread keeps_consolewrite split: if_splits)

subsection \<open>The invariant\<close>

definition dead :: "proc \<Rightarrow> bool" where
  "dead p \<longleftrightarrow> pstate p \<in> {UNUSED, ZOMBIE}"

definition fd_count :: "proc list \<Rightarrow> nat \<Rightarrow> int" where
  "fd_count ps f = int (sum_list (map (\<lambda>p. count_list (ofile p) (Some f)) ps))"

definition fds_ok :: "proc \<Rightarrow> bool" where
  "fds_ok p \<longleftrightarrow> length (ofile p) = NOFILE \<and> (dead p \<longrightarrow> set (ofile p) \<subseteq> {None}) \<and> (\<forall>f. Some f \<in> set (ofile p) \<longrightarrow> f < NFILE)"

text \<open>
  Between calls \<open>d\<close> is zero everywhere.  Inside a call it says how many references to a file are
  held in local variables, counted but not yet in a table, or the other way round.
\<close>

definition counted :: "int \<Rightarrow> (nat \<Rightarrow> int) \<Rightarrow> 'z fils_scheme \<Rightarrow> bool" where
  "counted n d s \<longleftrightarrow> outstanding s = n \<and> \<not> committing s \<and> length (ftable s) = NFILE \<and>
     list_all fds_ok (ptable s) \<and> (\<forall>f<NFILE. f_ref (file_at s f) = fd_count (ptable s) f + d f)"

definition live :: "nat \<Rightarrow> 'z procs_scheme \<Rightarrow> bool" where
  "live i s \<longleftrightarrow> curproc s = Some i \<and> i < length (ptable s) \<and> \<not> dead (proc_at s i)"

definition held :: "nat \<Rightarrow> int \<Rightarrow> (nat \<Rightarrow> int) \<Rightarrow> 'z fils_scheme \<Rightarrow> bool" where
  "held i n d s \<longleftrightarrow> counted n d s \<and> live i s"

text \<open>The invariant looks at these two columns of the process table only.\<close>

definition slot :: "proc \<Rightarrow> nat option list \<times> bool" where
  "slot p = (ofile p, dead p)"

lemma calm_slot: "slot (calm p) = slot p"
  by (simp add: slot_def calm_def dead_def)

lemma map_slot_calm: "map calm ps = map calm qs \<Longrightarrow> map slot ps = map slot qs"
proof -
  assume "map calm ps = map calm qs"
  then have "map slot (map calm ps) = map slot (map calm qs)" by simp
  then show ?thesis by (simp add: calm_slot comp_def)
qed

lemma fd_count_slot: "map slot ps = map slot qs \<Longrightarrow> fd_count ps f = fd_count qs f"
proof -
  assume "map slot ps = map slot qs"
  then have "map (\<lambda>x. count_list (fst x) (Some f)) (map slot ps) = map (\<lambda>x. count_list (fst x) (Some f)) (map slot qs)" by simp
  then show ?thesis by (simp add: fd_count_def slot_def comp_def)
qed

lemma fds_ok_slot: "map slot ps = map slot qs \<Longrightarrow> list_all fds_ok ps = list_all fds_ok qs"
proof -
  let ?P = "\<lambda>x. length (fst x) = NOFILE \<and> (snd x \<longrightarrow> set (fst x) \<subseteq> {None}) \<and> (\<forall>f. Some f \<in> set (fst x) \<longrightarrow> f < NFILE)"
  assume "map slot ps = map slot qs"
  then have "list_all ?P (map slot ps) = list_all ?P (map slot qs)" by simp
  then show ?thesis by (simp add: slot_def list_all_length fds_ok_def)
qed

lemma held_cong:
  assumes "map slot (ptable s') = map slot (ptable s)" and "ftable s' = ftable s" and "curproc s' = curproc s"
    and "outstanding s' = outstanding s" and "committing s' = committing s"
  shows "held i n d s' = held i n d s"
proof -
  have "length (ptable s') = length (ptable s)" using assms(1) map_eq_imp_length_eq by blast
  moreover have "dead (proc_at s' i) = dead (proc_at s i)" if "i < length (ptable s)"
  proof -
    have "slot (proc_at s' i) = slot (proc_at s i)" using assms(1) that calculation by (metis nth_map)
    then show ?thesis by (simp add: slot_def)
  qed
  ultimately show ?thesis
    using assms fds_ok_slot [OF assms(1)] fd_count_slot [OF assms(1)] by (auto simp: held_def counted_def live_def)
qed

lemma keeps_held: "keeps s s' \<Longrightarrow> held i n d s \<Longrightarrow> held i n d s'"
  by (simp add: keeps_def held_cong [OF map_slot_calm, of s' s])

lemma held_state: "safe r (keeps s) \<Longrightarrow> held i n d s \<Longrightarrow> safe r (held i n d)"
  by (erule safe_mono) (rule keeps_held)

lemma held_pair: "safe r (\<lambda>(x, s1). keeps s s1) \<Longrightarrow> held i n d s \<Longrightarrow> safe r (\<lambda>(x, s1). held i n d s1)"
  by (erule safe_mono) (auto intro: keeps_held)

lemma held_bind_state:
  "safe r (keeps s) \<Longrightarrow> held i n d s \<Longrightarrow> (\<And>s1. held i n d s1 \<Longrightarrow> safe (f s1) Q) \<Longrightarrow> safe (kbind r f) Q"
  by (rule safe_bind_state [OF held_state])

lemma held_bind_pair:
  "safe r (\<lambda>(x, s1). keeps s s1) \<Longrightarrow> held i n d s \<Longrightarrow> (\<And>x s1. held i n d s1 \<Longrightarrow> safe (f (x, s1)) Q) \<Longrightarrow> safe (kbind r f) Q"
  by (rule safe_bind_pair [OF held_pair])

subsection \<open>Changing one slot\<close>

lemma fd_count_update:
  assumes "i < length ps"
  shows "fd_count (ps[i := p]) f = fd_count ps f - int (count_list (ofile (ps ! i)) (Some f)) + int (count_list (ofile p) (Some f))"
proof -
  let ?c = "\<lambda>p. count_list (ofile p) (Some f)"
  have eq: "ps = take i ps @ ps ! i # drop (Suc i) ps" using assms by (rule id_take_nth_drop)
  have "sum_list (map ?c ps) = sum_list (map ?c (take i ps)) + ?c (ps ! i) + sum_list (map ?c (drop (Suc i) ps))"
    by (subst eq) (simp del: append_take_drop_id)
  then show ?thesis by (simp add: fd_count_def upd_conv_take_nth_drop [OF assms])
qed

lemma count_list_update:
  "k < length xs \<Longrightarrow> int (count_list (xs[k := y]) x) = int (count_list xs x) - (if xs ! k = x then 1 else 0) + (if y = x then 1 else 0)"
proof -
  assume k: "k < length xs"
  have eq: "xs = take k xs @ xs ! k # drop (Suc k) xs" using k by (rule id_take_nth_drop)
  have "count_list xs x = count_list (take k xs) x + (if xs ! k = x then 1 else 0) + count_list (drop (Suc k) xs) x"
    by (subst eq) (simp del: append_take_drop_id)
  then show ?thesis by (simp add: upd_conv_take_nth_drop [OF k])
qed

lemma held_set_fd:
  assumes h: "held i n d s" and j: "j < length (ptable s)" and k: "k < NOFILE"
    and x: "\<And>f. x = Some f \<Longrightarrow> f < NFILE" and dj: "dead (proc_at s j) \<Longrightarrow> x = None"
    and d': "d' = (\<lambda>f. d f + (if ofile (proc_at s j) ! k = Some f then 1 else 0) - (if x = Some f then 1 else 0))"
  shows "held i n d' (upd_proc s j (\<lambda>p. p\<lparr>ofile := (ofile p)[k := x]\<rparr>))"
proof -
  let ?p = "(proc_at s j)\<lparr>ofile := (ofile (proc_at s j))[k := x]\<rparr>"
  have ok: "list_all fds_ok (ptable s)" using h by (simp add: held_def counted_def)
  then have okj: "fds_ok (proc_at s j)" using j by (simp add: list_all_length)
  then have len: "length (ofile (proc_at s j)) = NOFILE" by (simp add: fds_ok_def)
  have "fds_ok ?p"
    using okj x dj set_update_subset_insert [of "ofile (proc_at s j)" k x]
    by (fastforce simp: fds_ok_def dead_def)
  then have "list_all fds_ok ((ptable s)[j := ?p])"
    using ok set_update_subset_insert [of "ptable s" j ?p] by (auto simp: list_all_iff)
  moreover have "fd_count ((ptable s)[j := ?p]) f + d' f = fd_count (ptable s) f + d f" for f
    using fd_count_update [OF j, of ?p f] count_list_update [of k "ofile (proc_at s j)" x "Some f"] k len
    by (simp add: d')
  moreover have "dead ((ptable s)[j := ?p] ! i) = dead (proc_at s i)"
    using j by (cases "i = j") (simp_all add: dead_def)
  ultimately show ?thesis using h by (simp add: held_def counted_def live_def upd_proc_def)
qed

lemma held_upd_proc:
  assumes "held i n d s" and "slot (g (proc_at s j)) = slot (proc_at s j)"
  shows "held i n d (upd_proc s j g)"
proof -
  have "map slot ((ptable s)[j := g (proc_at s j)]) = map slot (ptable s)"
    using assms(2) by (cases "j < length (ptable s)") (simp_all add: map_update list_update_same_conv list_update_beyond)
  then show ?thesis using assms(1) held_cong [of "upd_proc s j g" s] by (simp add: upd_proc_def)
qed

lemma held_upd_file:
  assumes h: "held i n d s" and f: "f < NFILE" and g: "f_ref (g (file_at s f)) = f_ref (file_at s f) + k"
  shows "held i n (d(f := d f + k)) (upd_file s f g)"
  using assms by (simp add: held_def counted_def live_def upd_file_def nth_list_update)

lemma held_upd_file_same:
  assumes h: "held i n d s" and g: "f_ref (g (file_at s f)) = f_ref (file_at s f)"
  shows "held i n d (upd_file s f g)"
  using assms by (cases "f < NFILE") (simp_all add: held_def counted_def live_def upd_file_def nth_list_update)

lemma held_ref: "held i n d s \<Longrightarrow> f < NFILE \<Longrightarrow> f_ref (file_at s f) = fd_count (ptable s) f + d f"
  by (simp add: held_def counted_def)

lemma fd_count_ge: "0 \<le> fd_count ps f"
  by (simp add: fd_count_def)

lemma fd_count_pos:
  assumes "j < length ps" and "Some f \<in> set (ofile (ps ! j))"
  shows "1 \<le> fd_count ps f"
proof -
  have "1 \<le> count_list (ofile (ps ! j)) (Some f)" using assms(2) count_list_0_iff [of "ofile (ps ! j)" "Some f"] by simp
  also have "\<dots> \<le> sum_list (map (\<lambda>p. count_list (ofile p) (Some f)) ps)"
    using assms(1) elem_le_sum_list [of j "map (\<lambda>p. count_list (ofile p) (Some f)) ps"] by simp
  finally show ?thesis by (simp add: fd_count_def)
qed

subsection \<open>Operations on files\<close>

lemma held_filealloc:
  assumes "held i n d s" and "safe (g None s) Q"
    and "\<And>f s1. f < NFILE \<Longrightarrow> held i n (d(f := d f + 1)) s1 \<Longrightarrow> safe (g (Some f) s1) Q"
  shows "safe (case filealloc s of (x, s1) \<Rightarrow> g x s1) Q"
proof (cases "find_idx (\<lambda>f. f_ref f = 0) (ftable s)")
  case None
  then show ?thesis using assms(2) by (simp add: filealloc_def)
next
  case (Some f)
  then have f: "f < NFILE" "f_ref (file_at s f) = 0" using find_idx_SomeD [OF Some] assms(1) by (auto simp: held_def counted_def)
  show ?thesis using Some assms(3) [OF f(1) held_upd_file [OF assms(1) f(1)]] f(2) by (simp add: filealloc_def)
qed

lemma held_filedup:
  assumes "held i n d s" and "f < NFILE" and "1 \<le> f_ref (file_at s f)"
  shows "safe (filedup f s) (held i n (d(f := d f + 1)))"
  using assms by (simp add: filedup_def safe_OK held_upd_file)

lemma keeps_pipeclose: "keeps s0 s \<Longrightarrow> safe (pipeclose p w s) (keeps s0)"
  unfolding pipeclose_def Let_def upd_pipe_def by (rule frame | assumption | (simp; fail))+

lemma keeps_iput_op: "keeps s0 s \<Longrightarrow> safe (kbind (begin_op s) (\<lambda>s. kbind (iput ip s) end_op)) (keeps s0)"
  by (rule frame | assumption)+

lemma held_fileclose_slots:
  assumes "held i n d s" and "f < NFILE" and "1 \<le> f_ref (file_at s f)"
  shows "safe (fileclose f s) (\<lambda>s1. held i n (d(f := d f - 1)) s1 \<and> map slot (ptable s1) = map slot (ptable s))"
    (is "safe _ ?Q")
proof -
  let ?s1 = "upd_file s f (\<lambda>f. f\<lparr>f_ref := f_ref f - 1\<rparr>)"
  let ?s2 = "upd_file ?s1 f (\<lambda>f. f\<lparr>f_ref := 0, f_type := FD_NONE\<rparr>)"
  have 1: "held i n (d(f := d f - 1)) ?s1"
    using held_upd_file [OF assms(1,2), of "\<lambda>f. f\<lparr>f_ref := f_ref f - 1\<rparr>" "-1"] by simp
  have l: "f < length (ftable s)" using assms(1,2) by (simp add: held_def counted_def)
  have 2: "held i n (d(f := d f - 1)) ?s2" if "\<not> f_ref (file_at ?s1 f) > 0"
    using that assms(3) l by (intro held_upd_file_same [OF 1]) (simp add: upd_file_def)
  have pt: "ptable ?s1 = ptable s" "ptable ?s2 = ptable s" by (simp_all add: upd_file_def)
  have c: "safe r ?Q" if "safe r (keeps ?s2)" "\<not> f_ref (file_at ?s1 f) > 0" for r
    using that(1) by (rule safe_mono) (auto simp: keeps_def pt intro!: keeps_held [OF _ 2 [OF that(2)]] map_slot_calm)
  have "safe (case t of FD_PIPE \<Rightarrow> pipeclose p w ?s2
                 | FD_INODE \<Rightarrow> kbind (begin_op ?s2) (\<lambda>s. kbind (iput ip s) end_op)
                 | FD_NONE \<Rightarrow> OK ?s2) (keeps ?s2)" for t p w ip
    by (cases t) (auto intro: keeps_pipeclose keeps_iput_op safe_OK)
  then show ?thesis
    unfolding fileclose_def Let_def using assms(3) 1 c pt(1) by (simp add: safe_OK)
qed

lemma held_fileclose:
  assumes "held i n d s" and "f < NFILE" and "1 \<le> f_ref (file_at s f)"
  shows "safe (fileclose f s) (held i n (d(f := d f - 1)))"
  by (rule safe_mono [OF held_fileclose_slots [OF assms]]) simp

subsection \<open>Arguments\<close>

lemma safe_the_proc: "safe (the_proc s) (\<lambda>_. True)"
  by (simp add: the_proc_def safe_def split: option.split)

lemma safe_user_ka: "safe (user_ka s va) (\<lambda>_. True)"
  by (simp add: user_ka_def safe_def split: prod.split)

lemma safe_user_load: "safe (user_load n va s) (\<lambda>_. True)"
proof (induction n arbitrary: va)
  case (Suc n)
  then show ?case
    by (simp only: user_load.simps) (rule safe_user_ka [THEN safe_bind_value] Suc.IH [THEN safe_bind_value] safe_OK TrueI)+
qed (simp add: safe_def)

lemma keeps_user_store [frame]: "keeps s0 s \<Longrightarrow> safe (user_store bs va s) (keeps s0)"
proof (induction bs arbitrary: va s)
  case (Cons b bs)
  then show ?case by (simp only: user_store.simps) (rule frame safe_user_ka [THEN safe_bind_value] Cons.IH | assumption)+
qed (simp add: safe_def)

lemmas [frame] = keeps_user_store [THEN safe_bind_state]

lemma safe_fetchint: "safe (fetchint addr s) (\<lambda>_. True)"
  unfolding fetchint_def
  by (rule frame safe_the_proc [THEN safe_bind_value] safe_user_load [THEN safe_bind_value] TrueI)+

lemma safe_fetchstr_scan: "safe (fetchstr_scan n va s) (\<lambda>_. True)"
proof (induction n arbitrary: va)
  case (Suc n)
  then show ?case
    by (simp only: fetchstr_scan.simps) (rule frame safe_user_ka [THEN safe_bind_value] Suc.IH [THEN safe_bind_value] TrueI)+
qed (simp add: safe_def)

lemma safe_fetchstr: "safe (fetchstr addr s) (\<lambda>_. True)"
  unfolding fetchstr_def by (rule frame safe_the_proc [THEN safe_bind_value] safe_fetchstr_scan TrueI)+

lemma safe_argint: "safe (argint n s) (\<lambda>_. True)"
  unfolding argint_def by (rule safe_the_proc [THEN safe_bind_value] safe_fetchint)+

lemma safe_argptr: "safe (argptr n sz s) (\<lambda>_. True)"
  unfolding argptr_def by (rule frame safe_the_proc [THEN safe_bind_value] safe_argint [THEN safe_bind_value] TrueI)+

lemma safe_argstr: "safe (argstr n s) (\<lambda>_. True)"
  unfolding argstr_def by (rule frame safe_argint [THEN safe_bind_value] safe_fetchstr TrueI)+

lemmas args [frame] = safe_the_proc [THEN safe_bind_value] safe_fetchint [THEN safe_bind_value] safe_fetchstr [THEN safe_bind_value]
  safe_argint [THEN safe_bind_value] safe_argptr [THEN safe_bind_value] safe_argstr [THEN safe_bind_value]

text \<open>A file descriptor argument names an entry of the table of the current process.\<close>

lemma safe_argfd:
  assumes "held i n d s"
  shows "safe (argfd k s) (\<lambda>r. case r of None \<Rightarrow> True | Some (fd, f) \<Rightarrow>
    fd < NOFILE \<and> ofile (proc_at s i) ! fd = Some f \<and> f < NFILE \<and> Some f \<in> set (ofile (proc_at s i)))"
proof -
  have cur: "curproc s = Some i" and il: "i < length (ptable s)" and ok: "list_all fds_ok (ptable s)"
    using assms by (auto simp: held_def live_def counted_def)
  have p: "length (ofile (proc_at s i)) = NOFILE" "\<And>f. Some f \<in> set (ofile (proc_at s i)) \<Longrightarrow> f < NFILE"
    using ok il by (auto simp: list_all_length fds_ok_def)
  have fd: "unat fd < NOFILE" if "\<not> (sint fd < 0 \<or> sint fd \<ge> int NOFILE)" for fd :: u32
    using that unat_nonneg [of fd] by auto
  have mem: "Some f \<in> set (ofile (proc_at s i))" if "ofile (proc_at s i) ! k = Some f" "k < NOFILE" for k f
    using that p(1) by (metis nth_mem)
  show ?thesis
    unfolding argfd_def the_proc_def cur option.case kbind.simps
    by (rule safe_argint [THEN safe_bind_value])
       (auto simp: safe_def fd p(2) mem split: option.split)
qed

lemma held_argfd:
  assumes "held i n d s" and "safe (f None) Q"
    and "\<And>fd x. fd < NOFILE \<Longrightarrow> ofile (proc_at s i) ! fd = Some x \<Longrightarrow> x < NFILE \<Longrightarrow> Some x \<in> set (ofile (proc_at s i)) \<Longrightarrow> safe (f (Some (fd, x))) Q"
  shows "safe (kbind (argfd k s) f) Q"
  by (rule safe_bind_state [OF safe_argfd [OF assms(1)]]) (use assms(2,3) in \<open>auto split: option.splits\<close>)

subsection \<open>Calls that change no table\<close>

lemma keeps_fstat [frame]: "keeps s0 s \<Longrightarrow> safe (filestat f s) (\<lambda>(r, s). keeps s0 s)"
  unfolding filestat_def Let_def by (rule frame | assumption | (simp; fail))+

lemmas [frame] = keeps_fstat [THEN safe_bind_pair]

lemma keeps_link: "keeps s0 s \<Longrightarrow> safe (sys_link s) (\<lambda>(r, s). keeps s0 s)"
  unfolding sys_link_def link_paths_def link_bad_def
  by (rule frame safe_pair_app safe_bind_pair [where P = "keeps (opened s0)"] | assumption | (simp; fail))+

lemma keeps_isdirempty_scan [frame]: "keeps s0 s \<Longrightarrow> safe (isdirempty_scan dp offs s) (\<lambda>(r, s). keeps s0 s)"
proof (induction offs arbitrary: s)
  case (Cons off offs)
  then show ?case
    by (simp only: isdirempty_scan.simps) (rule frame safe_pair_app Cons.IH | assumption | (simp; fail))+
qed (simp add: safe_def)

lemma keeps_unlink: "keeps s0 s \<Longrightarrow> safe (sys_unlink s) (\<lambda>(r, s). keeps s0 s)"
  unfolding sys_unlink_def unlink_bad_def unlink_entry_def isdirempty_def
  by (rule frame safe_pair_app safe_bind_pair [where P = "keeps (opened s0)"] safe_bind_state [where P = "keeps (opened s0)"] |
      assumption | rule safe_split | (simp; fail))+

lemma keeps_create [frame]: "keeps s0 s \<Longrightarrow> safe (create path type major minor s) (\<lambda>(r, s). keeps s0 s)"
  unfolding create_def create_new_def
  by (rule frame safe_pair_app safe_bind_state [where P = "keeps s0"] | assumption | rule safe_split | (simp; fail))+

lemmas [frame] = keeps_create [THEN safe_bind_pair]

lemma keeps_mkdir: "keeps s0 s \<Longrightarrow> safe (sys_mkdir s) (\<lambda>(r, s). keeps s0 s)"
  unfolding sys_mkdir_def
  by (rule frame safe_bind_pair [where P = "keeps (opened s0)"] | assumption | (simp; fail))+

lemma safe_mknod_args [frame]: "(\<And>x. safe (f x) Q) \<Longrightarrow> safe (kbind (mknod_args s) f) Q"
  by (rule safe_bind_value) (unfold mknod_args_def, (rule frame TrueI)+)

lemma keeps_mknod: "keeps s0 s \<Longrightarrow> safe (sys_mknod s) (\<lambda>(r, s). keeps s0 s)"
  unfolding sys_mknod_def
  by (rule frame safe_bind_pair [where P = "keeps (opened s0)"] | assumption | rule safe_split | (simp; fail))+

subsection \<open>Calls on one descriptor\<close>

lemmas outcome = safe_OK safe_Panic safe_Sleep safe_Stuck safe_if safe_option safe_pair safe_pair_app args

lemma held_begin_op:
  assumes "held i n d s" and "\<And>s1. held i (n + 1) d s1 \<Longrightarrow> safe (f s1) Q"
  shows "safe (kbind (begin_op s) f) Q"
proof (rule safe_bind_state [OF safe_begin_op])
  fix s1 assume "s1 = s\<lparr>outstanding := outstanding s + 1\<rparr> \<and> \<not> committing s"
  then have "held i (n + 1) d s1" using assms(1) by (auto simp: held_def counted_def live_def)
  then show "safe (f s1) Q" by (rule assms(2))
qed

lemma held_end_op:
  assumes "held i (n + 1) d s"
  shows "safe (end_op s) (held i n d)"
proof -
  have "\<not> committing s" "held i n d (s\<lparr>outstanding := outstanding s - 1\<rparr>)"
    using assms by (auto simp: held_def counted_def live_def)
  then show ?thesis by (intro held_state [OF safe_end_op])
qed

lemmas held_ops =
  held_begin_op held_end_op [THEN safe_bind_state]
  keeps_ilock [OF keeps_refl, THEN held_bind_state] keeps_iunlock [OF keeps_refl, THEN held_bind_state]
  keeps_iput [OF keeps_refl, THEN held_bind_state] keeps_iunlockput [OF keeps_refl, THEN held_bind_state]
  keeps_user_store [OF keeps_refl, THEN held_bind_state]
  con.keeps_readi [OF keeps_refl, THEN held_bind_pair] con.keeps_writei [OF keeps_refl, THEN held_bind_pair]
  con.keeps_namei [OF keeps_refl, THEN held_bind_pair] keeps_create [OF keeps_refl, THEN held_bind_pair]
  keeps_fstat [OF keeps_refl, THEN held_bind_pair]

lemma const_upd [simp]: "(\<lambda>_. a)(x := a) = (\<lambda>_. a)"
  by auto

lemma held_eq: "held i n d s \<Longrightarrow> (\<And>f. d f = d' f) \<Longrightarrow> held i n d' s"
  by (simp add: held_def counted_def)

lemma held_pairI: "held i n d s \<Longrightarrow> (case (r, s) of (x, s) \<Rightarrow> held i n d s)"
  by simp

lemma held_fdalloc:
  assumes h: "held i n d s" and f: "f < NFILE" and none: "safe (g (None, s)) Q"
    and some: "\<And>k s1. held i n (d(f := d f - 1)) s1 \<Longrightarrow> ftable s1 = ftable s \<Longrightarrow> k < NOFILE \<Longrightarrow>
      ofile (proc_at s1 i) ! k = Some f \<Longrightarrow> safe (g (Some k, s1)) Q"
  shows "safe (kbind (fdalloc f s) g) Q"
proof -
  have i: "curproc s = Some i" "i < length (ptable s)" "\<not> dead (proc_at s i)" and ok: "list_all fds_ok (ptable s)"
    using h by (auto simp: held_def live_def counted_def)
  then have len: "length (ofile (proc_at s i)) = NOFILE" by (simp add: list_all_length fds_ok_def)
  show ?thesis
  proof (cases "find_idx (\<lambda>x. x = None) (ofile (proc_at s i))")
    case None
    then show ?thesis using none i by (simp add: fdalloc_def the_proc_def)
  next
    case (Some k)
    then have k: "k < NOFILE" "ofile (proc_at s i) ! k = None" using find_idx_SomeD [OF Some] len by auto
    let ?s1 = "upd_proc s i (\<lambda>p. p\<lparr>ofile := (ofile p)[k := Some f]\<rparr>)"
    have "held i n (d(f := d f - 1)) ?s1"
      by (rule held_set_fd [OF h i(2) k(1)]) (use k f i in \<open>auto simp: fun_eq_iff\<close>)
    moreover have "ftable ?s1 = ftable s" by (simp add: upd_proc_def)
    ultimately have "safe (g (Some k, ?s1)) Q" using k(1) len i(2) by (intro some) simp_all
    then show ?thesis using Some i by (simp add: fdalloc_def the_proc_def)
  qed
qed

lemma held_dup:
  assumes "held i n (\<lambda>_. 0) s"
  shows "safe (sys_dup s) (\<lambda>(r, s). held i n (\<lambda>_. 0) s)"
proof -
  have ref: "1 \<le> f_ref (file_at s f)" if "f < NFILE" "Some f \<in> set (ofile (proc_at s i))" for f
    using held_ref [OF assms that(1)] fd_count_pos [OF _ that(2)] assms by (simp add: held_def live_def)
  have "safe (kbind (filedup f s1) (\<lambda>s. OK (x, s))) (\<lambda>(r, s). held i n (\<lambda>_. 0) s)"
    if "held i n ((\<lambda>_. 0)(f := 0 - 1)) s1" "ftable s1 = ftable s" "f < NFILE" "Some f \<in> set (ofile (proc_at s i))" for f s1 x
    using that ref [OF that(3,4)] by (intro safe_bind_state [OF held_filedup [OF that(1,3)]]) (auto intro!: safe_OK)
  then show ?thesis
    unfolding sys_dup_def
    by (intro held_argfd [OF assms]) (auto intro!: safe_OK held_fdalloc [OF assms] assms)
qed

lemma held_set_ofile_None:
  assumes h: "held i n d s" and k: "k < NOFILE" "ofile (proc_at s i) ! k = Some f"
    and g: "\<And>s1. held i n (d(f := d f + 1)) s1 \<Longrightarrow> safe (g s1) Q"
  shows "safe (kbind (set_ofile k None s) g) Q"
proof -
  have i: "curproc s = Some i" "i < length (ptable s)" using h by (auto simp: held_def live_def)
  have "held i n (d(f := d f + 1)) (upd_proc s i (\<lambda>p. p\<lparr>ofile := (ofile p)[k := None]\<rparr>))"
    by (rule held_set_fd [OF h i(2) k(1)]) (use k in \<open>auto simp: fun_eq_iff\<close>)
  then show ?thesis using i g by (simp add: set_ofile_def the_proc_def)
qed

lemma held_close_own:
  assumes "held i n d s" and "f < NFILE" and "1 \<le> d f"
  shows "safe (fileclose f s) (held i n (d(f := d f - 1)))"
  using assms held_ref [OF assms(1,2)] fd_count_ge [of "ptable s" f] by (intro held_fileclose) auto

lemma held_close:
  assumes "held i n (\<lambda>_. 0) s"
  shows "safe (sys_close s) (\<lambda>(r, s). held i n (\<lambda>_. 0) s)"
proof -
  have "safe (kbind (fileclose f s1) (\<lambda>s. OK (x, s))) (\<lambda>(r, s). held i n (\<lambda>_. 0) s)"
    if "held i n ((\<lambda>_. 0)(f := 0 + 1)) s1" "f < NFILE" for f s1 x
    using that by (intro safe_bind_state [OF held_close_own [OF that]]) (auto intro!: safe_OK)
  then show ?thesis
    unfolding sys_close_def
    by (intro held_argfd [OF assms]) (auto intro!: safe_OK held_set_ofile_None [OF assms] assms)
qed

lemma held_off: "held i n d s \<Longrightarrow> held i n d (upd_file s f (\<lambda>f. f\<lparr>f_off := g f\<rparr>))"
  by (rule held_upd_file_same) auto

lemma held_if: "held i n d a \<Longrightarrow> held i n d b \<Longrightarrow> held i n d (if c then a else b)"
  by simp

lemma safe_run_kres: "run_keeps s0 r \<Longrightarrow> safe (run_kres c r) (\<lambda>(x, s). keeps s0 s)"
  by (auto simp: run_kres_def run_keeps_def safe_def split: run.split)

lemma keeps_piperead: "keeps s0 s \<Longrightarrow> safe (piperead p n s) (run_keeps s0)"
  unfolding piperead_def upd_pipe_def Let_def
  by (rule frame safe_proc_killed [THEN safe_bind_value] safe_sleep_begin | assumption | rule safe_split |
      (simp add: run_keeps_def keeps_wakeup keeps_upd; fail))+

lemma keeps_pipewrite_from: "keeps s0 s \<Longrightarrow> safe (pipewrite_from p addr n i s) (run_keeps s0)"
proof (induction "nat (n - int i)" arbitrary: i s rule: less_induct)
  case less
  have IH: "safe (pipewrite_from p addr n (i + 1) (s\<lparr>pipes := q\<rparr>)) (run_keeps s0)" if "\<not> int i \<ge> n" for q
    using that less.prems by (intro less.hyps) (auto intro: frame)
  show ?case
    using less.prems
    by (subst pipewrite_from.simps, unfold upd_pipe_def)
       (rule IH frame safe_proc_killed [THEN safe_bind_value] safe_sleep_begin | assumption |
         (simp add: run_keeps_def keeps_wakeup; fail))+
qed

lemma safe_ftype:
  "safe a Q \<Longrightarrow> safe b Q \<Longrightarrow> safe c Q \<Longrightarrow> safe (case t of FD_NONE \<Rightarrow> a | FD_PIPE \<Rightarrow> b | FD_INODE \<Rightarrow> c) Q"
  by (cases t) auto

lemma held_fileread:
  assumes "held i n d s"
  shows "safe (fileread console_devsw f k s) (\<lambda>(r, s). held i n d s)"
proof -
  have pipe: "safe (kbind (piperead p k s) (run_kres c)) (\<lambda>(r, s). held i n d s)" for p c
    by (rule held_pair [OF _ assms], rule safe_bind_state [OF keeps_piperead [OF keeps_refl]], erule safe_run_kres)
  show ?thesis
    unfolding fileread_def Let_def
    by (rule safe_ftype pipe outcome held_ops held_off held_if held_pairI assms | assumption | (simp; fail))+
qed

lemma held_filewrite_chunk:
  assumes "held i n d s"
  shows "safe (filewrite_chunk console_devsw f addr k s) (\<lambda>(r, s). held i n d s)"
  unfolding filewrite_chunk_def Let_def
  by (rule outcome held_ops held_off held_if held_pairI assms | assumption | (simp; fail))+

lemma held_filewrite_loop:
  fixes s :: "'z conss_scheme"
  shows "held i n d s \<Longrightarrow> safe (filewrite_loop console_devsw f addr k j s) (\<lambda>(r, s). held i n d s)"
proof (induction "nat (k - j)" arbitrary: j s rule: less_induct)
  case less
  have IH: "safe (filewrite_loop console_devsw f addr k (j + r) s1) (\<lambda>(r, s). held i n d s)"
    if "j < k" "\<not> r < 0" "\<not> r \<noteq> min (k - j) filewrite_max" "held i n d s1" for r and s1 :: "'z conss_scheme"
    using that by (intro less.hyps) (auto simp: filewrite_max_def)
  show ?case
    using less.prems
    by (subst filewrite_loop.simps, unfold Let_def)
       (rule IH outcome held_filewrite_chunk [THEN safe_bind_pair] held_pairI | assumption | (simp; fail))+
qed

lemma held_filewrite:
  assumes "held i n d s"
  shows "safe (filewrite console_devsw f addr k s) (\<lambda>(r, s). held i n d s)"
proof -
  have pipe: "safe (kbind (pipewrite p addr k s) (run_kres c)) (\<lambda>(r, s). held i n d s)" for p c
    unfolding pipewrite_def
    by (rule held_pair [OF _ assms], rule safe_bind_state [OF keeps_pipewrite_from [OF keeps_refl]], erule safe_run_kres)
  show ?thesis
    unfolding filewrite_def Let_def
    by (rule safe_ftype pipe outcome held_filewrite_loop [THEN safe_bind_pair] held_pairI assms | assumption | (simp; fail))+
qed

lemma safe_rw_args: "held i n d s \<Longrightarrow> safe (rw_args s) (\<lambda>_. True)"
  unfolding rw_args_def
  by (simp only: option.case prod.case | rule outcome held_argfd TrueI | assumption)+

lemma held_read: "held i n d s \<Longrightarrow> safe (sys_read s) (\<lambda>(r, s). held i n d s)"
  unfolding sys_read_def
  by (rule outcome safe_rw_args [THEN safe_bind_value] held_fileread [THEN safe_bind_pair] held_ops held_pairI | assumption |
      rule safe_split)+

lemma held_write: "held i n d s \<Longrightarrow> safe (sys_write s) (\<lambda>(r, s). held i n d s)"
  unfolding sys_write_def
  by (rule outcome safe_rw_args [THEN safe_bind_value] safe_user_load [THEN safe_bind_value] held_filewrite held_pairI | assumption |
      rule safe_split)+

lemma held_fstat: "held i n d s \<Longrightarrow> safe (sys_fstat s) (\<lambda>(r, s). held i n d s)"
  unfolding sys_fstat_def
  by (simp only: option.case prod.case | rule outcome held_argfd held_ops held_pairI | assumption | rule safe_split)+

subsection \<open>Pipes and open\<close>

lemma held_upd [intro]: "held i n d s \<Longrightarrow> held i n d (s\<lparr>pipes := p\<rparr>)" "held i n d s \<Longrightarrow> held i n d (s\<lparr>mem := m\<rparr>)"
  by (simp_all add: held_def counted_def live_def)

lemma held_kalloc:
  assumes "held i n d s" and "\<And>a s1. held i n d s1 \<Longrightarrow> safe (f a s1) Q"
  shows "safe (case kalloc s of (a, s1) \<Rightarrow> f a s1) Q"
  by (rule keeps_vm.kept_kalloc_pair [OF keeps_refl]) (use assms keeps_held in blast)

lemma held_pipe_end:
  "held i n d s \<Longrightarrow> held i n d (upd_file s f (\<lambda>f. f\<lparr>f_type := ty, f_readable := r, f_writable := w, f_pipe := p\<rparr>))"
  by (rule held_upd_file_same) auto

lemma held_pipealloc:
  assumes "held i n (\<lambda>_. 0) s"
  shows "safe (pipealloc s) (\<lambda>((r, f0, f1), s). if r < 0 then held i n (\<lambda>_. 0) s
    else \<exists>a b. f0 = Some a \<and> f1 = Some b \<and> a < NFILE \<and> b < NFILE \<and> held i n (\<lambda>f. (if f = a then 1 else 0) + (if f = b then 1 else 0)) s)"
    (is "safe _ ?Q")
proof -
  let ?d1 = "\<lambda>a. (\<lambda>_. 0)(a := 0 + 1) :: nat \<Rightarrow> int"
  let ?d2 = "\<lambda>a b. (?d1 a)(b := ?d1 a b + 1)"
  have d2: "?d2 a b = (\<lambda>f. (if f = a then 1 else 0) + (if f = b then 1 else 0))" for a b by auto
  have fin: "?Q ((0, Some a, Some b), t)" if "held i n (?d2 a b) t" "a < NFILE" "b < NFILE" for a b t
    using that unfolding d2 by auto
  have bad1: "safe (kbind (pipe_bad (Some a) None s1) (\<lambda>(r, s). OK ((r, Some a, None), s))) ?Q"
    if "held i n (?d1 a) s1" "a < NFILE" for a s1
    unfolding pipe_bad_def option.case
    by (simp only: kbind.simps kbind_assoc prod.case) (rule safe_bind_state [OF held_close_own [OF that]], use that in \<open>auto intro!: safe_OK\<close>)
  have bad2: "safe (kbind (pipe_bad (Some a) (Some b) s1) (\<lambda>(r, s). OK ((r, Some a, Some b), s))) ?Q"
    if h: "held i n (?d2 a b) s1" and ab: "a < NFILE" "b < NFILE" for a b s1
  proof -
    have "safe (kbind (fileclose b s2) (\<lambda>s. OK ((- 1, Some a, Some b), s))) ?Q"
      if h2: "held i n ((?d2 a b)(a := ?d2 a b a - 1)) s2" for s2
      by (rule safe_bind_state [OF held_close_own [OF h2 ab(2)]])
         (auto intro!: safe_OK simp: fun_upd_def if_distrib fun_eq_iff cong: if_cong elim!: back_subst [of "\<lambda>d. held i n d _"])
    then show ?thesis
      unfolding pipe_bad_def option.case
      by (simp only: kbind.simps kbind_assoc prod.case) (rule safe_bind_state [OF held_close_own [OF h ab(1)]], auto)
  qed
  have none: "safe (kbind (pipe_bad None None s) (\<lambda>(r, s). OK ((r, None, None), s))) ?Q"
    using assms by (simp add: pipe_bad_def safe_OK)
  show ?thesis
    unfolding pipealloc_def Let_def
    by (rule held_filealloc [OF assms]; simp only: option.case)
       (simp only: option.case | rule none held_filealloc held_kalloc outcome bad1 bad2 fin held_pipe_end held_upd | assumption)+
qed

lemma held_pipe:
  fixes s :: "'z kerns_scheme"
  assumes "held i n (\<lambda>_. 0) s"
  shows "safe (sys_pipe s) (\<lambda>(r, s). held i n (\<lambda>_. 0) s)" (is "safe _ ?Q")
proof -
  let ?D = "\<lambda>a b f. (if f = a then 1 else 0) + (if f = b then 1 else 0) :: int"
  have close: "safe (kbind (fileclose a s1) (\<lambda>s. kbind (fileclose b s) (\<lambda>s. OK (- 1, s)))) ?Q"
    if h: "held i n (?D a b) s1" and ab: "a < NFILE" "b < NFILE" for a b s1
  proof (rule safe_bind_state [OF held_close_own [OF h ab(1)]])
    fix s2 :: "'z kerns_scheme" assume "held i n ((?D a b)(a := ?D a b a - 1)) s2"
    then have h2: "held i n (\<lambda>f. if f = b then 1 else 0) s2" by (rule held_eq) auto
    show "safe (kbind (fileclose b s2) (\<lambda>s. OK (- 1, s))) ?Q"
      by (rule safe_bind_state [OF held_close_own [OF h2 ab(2)]]) (auto intro!: safe_OK elim!: held_eq)
  qed simp
  have fds: "safe (kbind (fdalloc a s1) (\<lambda>(fd0, s).
               kbind (case fd0 of None \<Rightarrow> OK (None, s) | Some _ \<Rightarrow> fdalloc b s) (\<lambda>(fd1, s).
               case (fd0, fd1) of
                 (Some fd0, Some fd1) \<Rightarrow>
                   kbind (user_store (g fd0 fd1) fd s) (\<lambda>s. OK (0, s))
               | _ \<Rightarrow>
                   kbind (case fd0 of None \<Rightarrow> OK s | Some fd0 \<Rightarrow> set_ofile fd0 None s) (\<lambda>s.
                   kbind (fileclose a s) (\<lambda>s.
                   kbind (fileclose b s) (\<lambda>s. OK (-1, s))))))) ?Q"
    if h: "held i n (?D a b) s1" and ab: "a < NFILE" "b < NFILE" for a b s1 g fd
  proof (rule held_fdalloc [OF h ab(1)], goal_cases)
    case 1
    then show ?case using close [OF h ab] by simp
  next
    case (2 k s2)
    have undone: "safe (kbind (set_ofile k None s2) (\<lambda>s. kbind (fileclose a s) (\<lambda>s. kbind (fileclose b s) (\<lambda>s. OK (-1, s))))) ?Q"
    proof (rule held_set_ofile_None [OF 2(1,3,4)])
      fix s3 :: "'z kerns_scheme" assume "held i n ((?D a b)(a := ?D a b a - 1, a := ((?D a b)(a := ?D a b a - 1)) a + 1)) s3"
      then show "safe (kbind (fileclose a s3) (\<lambda>s. kbind (fileclose b s) (\<lambda>s. OK (-1, s)))) ?Q"
        by (intro close ab) (erule held_eq, auto)
    qed
    show ?case
    proof (simp only: prod.case option.case, rule held_fdalloc [OF 2(1) ab(2)], goal_cases)
      case 1
      then show ?case using undone by simp
    next
      case (2 k2 s3)
      then have h3: "held i n (\<lambda>_. 0) s3" by (elim held_eq) auto
      show ?case
        by (simp only: prod.case option.case) (rule held_ops outcome held_pairI h3 | assumption)+
    qed
  qed
  have alloc: "safe (kbind (pipealloc s) f) ?Q"
    if "\<And>r f0 f1 s1. r < 0 \<Longrightarrow> held i n (\<lambda>_. 0) s1 \<Longrightarrow> safe (f ((r, f0, f1), s1)) ?Q"
      and "\<And>r a b s1. \<not> r < 0 \<Longrightarrow> a < NFILE \<Longrightarrow> b < NFILE \<Longrightarrow> held i n (?D a b) s1 \<Longrightarrow> safe (f ((r, Some a, Some b), s1)) ?Q" for f
  proof (rule safe_bind_state [OF held_pipealloc [OF assms]])
    fix x :: "(int \<times> nat option \<times> nat option) \<times> 'z kerns_scheme"
    assume x: "(\<lambda>((r, f0, f1), s). if r < 0 then held i n (\<lambda>_. 0) s
      else \<exists>a b. f0 = Some a \<and> f1 = Some b \<and> a < NFILE \<and> b < NFILE \<and> held i n (?D a b) s) x"
    obtain r f0 f1 s1 where eq: "x = ((r, f0, f1), s1)" by (metis surj_pair)
    show "safe (f x) ?Q"
    proof (cases "r < 0")
      case True
      then show ?thesis using x that(1) by (simp add: eq)
    next
      case False
      then show ?thesis using x that(2) by (auto simp: eq)
    qed
  qed
  show ?thesis
    unfolding sys_pipe_def
    by (assumption | (simp only: prod.case option.case if_True if_False simp_thms) | (simp add: safe_OK assms; fail) | rule fds [unfolded prod.case] alloc outcome)+
qed

lemma held_open_fields:
  "held i n d s \<Longrightarrow> held i n d (upd_file s f (\<lambda>x. x\<lparr>f_type := ty, f_ip := ip, f_off := off, f_readable := r, f_writable := w\<rparr>))"
  by (rule held_upd_file_same) auto

lemma held_open_file:
  fixes s :: "'z kerns_scheme"
  assumes "held i (n + 1) (\<lambda>_. 0) s"
  shows "safe (open_file ip omode s) (\<lambda>(r, s). held i n (\<lambda>_. 0) s)" (is "safe _ ?Q")
proof -
  have close: "safe (kbind (fileclose f s1) (\<lambda>s. kbind (iunlockput ip s) (\<lambda>s. kbind (end_op s) (\<lambda>s. OK (- 1, s))))) ?Q"
    if "held i (n + 1) ((\<lambda>_. 0)(f := 0 + 1)) s1" "f < NFILE" for f and s1 :: "'z kerns_scheme"
  proof (rule safe_bind_state [OF held_close_own [OF that]])
    fix s2 :: "'z kerns_scheme" assume "held i (n + 1) ((\<lambda>_. 0)(f := 0 + 1, f := ((\<lambda>_. 0)(f := 0 + 1)) f - 1)) s2"
    then have "held i (n + 1) (\<lambda>_. 0) s2" by (rule held_eq) auto
    then show "safe (kbind (iunlockput ip s2) (\<lambda>s. kbind (end_op s) (\<lambda>s. OK (- 1, s)))) ?Q"
      by - (rule held_ops outcome held_pairI | assumption)+
  qed simp
  have net0: "held i m (\<lambda>_. 0) s2" if "held i m ((\<lambda>_. 0)(f := 0 + 1, f := ((\<lambda>_. 0)(f := 0 + 1)) f - 1)) s2" for m f s2
    using that by (rule held_eq) auto
  show ?thesis
    unfolding open_file_def Let_def
    by (rule held_filealloc [OF assms]; (simp only: option.case kbind.simps prod.case)?)
       (simp only: prod.case option.case kbind.simps | rule close held_ops held_fdalloc assms net0 held_open_fields held_pairI safe_OK | assumption)+
qed

text \<open>
  open is the exception: when create fails it returns inside the transaction.
\<close>

definition open_post :: "nat \<Rightarrow> int \<Rightarrow> int \<times> 'z fils_scheme \<Rightarrow> bool" where
  "open_post i n = (\<lambda>(r, s). held i n (\<lambda>_. 0) s \<or> r = -1 \<and> held i (n + 1) (\<lambda>_. 0) s)"

lemma held_open:
  fixes s :: "'z kerns_scheme"
  assumes "held i n (\<lambda>_. 0) s"
  shows "safe (sys_open s) (open_post i n)"
proof -
  have post: "safe r (open_post i n)" if "safe r (\<lambda>(x, s). held i n (\<lambda>_. 0) s)" for r :: "(int \<times> 'z kerns_scheme) kres"
    using that by (rule safe_mono) (auto simp: open_post_def)
  have leak: "open_post i n (-1, s1)" if "held i (n + 1) (\<lambda>_. 0) s1" for s1 :: "'z kerns_scheme"
    using that by (simp add: open_post_def)
  have fin: "open_post i n (r, s1)" if "held i n (\<lambda>_. 0) s1" for r and s1 :: "'z kerns_scheme"
    using that by (simp add: open_post_def)
  show ?thesis
    unfolding sys_open_def open_path_def
    by (rule outcome held_ops post [OF held_open_file] | assumption | rule fin assms leak)+
qed

subsection \<open>Calls on processes\<close>

lemma held_exec:
  assumes "held i n d s"
  shows "safe (sys_exec s) (\<lambda>(r, s). held i n d s)"
proof -
  have cur: "curproc s = Some i" using assms by (simp add: held_def live_def)
  have upd: "held i n d (upd_proc s i (\<lambda>q. q\<lparr>pname := nm, pgdir := pgd, psz := sz\<rparr>))" for nm pgd sz
    by (rule held_upd_proc [OF assms]) (simp add: slot_def dead_def)
  have exec: "safe (exec console_devsw path argv s) (\<lambda>(r, s). held i n d s)" for path argv
    by (rule safe_mono [OF con.exec_safe [OF cur]])
       (auto simp: exec_post_def split: if_splits intro: keeps_held [OF _ assms] keeps_held [OF _ upd])
  have argv: "safe (exec_argv k u s) (\<lambda>_. True)" for k u
  proof (induction k arbitrary: u)
    case (Suc k)
    then show ?case by (simp only: exec_argv.simps) (rule outcome Suc.IH [THEN safe_bind_value] TrueI)+
  qed (simp add: safe_def)
  show ?thesis
    unfolding sys_exec_def by (rule outcome exec argv [THEN safe_bind_value] held_pairI assms)+
qed

lemma held_chdir:
  assumes "held i n d s"
  shows "safe (sys_chdir s) (\<lambda>(r, s). held i n d s)"
proof -
  have upd: "held i n d (upd_proc s i (\<lambda>q. q\<lparr>cwd := c\<rparr>))" if "held i n d s" for s c
    by (rule held_upd_proc [OF that]) (simp add: slot_def dead_def)
  have cur: "curproc s = Some i" using assms by (simp add: held_def live_def)
  show ?thesis
    unfolding sys_chdir_def the_proc_def cur option.case kbind.simps
    by (rule outcome held_ops con.keeps_namei [OF keeps_refl, THEN held_pair] upd
        safe_bind_pair [where P = "held i (n + 1) d"] held_pairI assms | assumption)+
qed

lemma held_sbrk:
  assumes "held i n d s"
  shows "safe (sys_sbrk s) (\<lambda>(r, s). held i n d s)"
proof -
  have upd: "held i n d (upd_proc s i (\<lambda>p. p\<lparr>psz := sz\<rparr>))" if "held i n d s" for s sz
    by (rule held_upd_proc [OF that]) (simp add: slot_def dead_def)
  have cur: "curproc s = Some i" using assms by (simp add: held_def live_def)
  have grow: "safe (growproc k s) (\<lambda>(r, s). held i n d s)" for k
    unfolding growproc_def cur option.case Let_def
    by (rule outcome keeps_vm.kept_allocuvm [OF keeps_refl, THEN held_bind_pair] keeps_vm.kept_deallocuvm [OF keeps_refl, THEN held_bind_pair]
        keeps_switchuvm [OF keeps_refl, THEN held_bind_state] upd held_pairI assms | assumption)+
  show ?thesis
    unfolding sys_sbrk_def the_proc_def cur option.case kbind.simps Let_def
    by (rule outcome grow [THEN safe_bind_pair] held_pairI assms | assumption)+
qed

lemma held_kill:
  assumes "held i n d s"
  shows "safe (sys_kill s) (\<lambda>(r, s). held i n d s)"
proof -
  have 1: "held i n d (upd_proc s j (\<lambda>p. p\<lparr>killed := True\<rparr>))" for j
    by (rule held_upd_proc [OF assms]) (simp add: slot_def dead_def)
  have 2: "held i n d (upd_proc t j (\<lambda>p. p\<lparr>pstate := RUNNABLE\<rparr>))" if "held i n d t" "pstate (proc_at t j) = SLEEPING" for t j
    by (rule held_upd_proc [OF that(1)]) (simp add: slot_def dead_def that(2))
  have "case kill s k of (r, s) \<Rightarrow> held i n d s" for k
    using assms 1 2 [OF 1] by (auto simp: kill_def Let_def simp del: upd_proc_simps split: option.split)
  then show ?thesis unfolding sys_kill_def by (intro outcome) (auto simp: assms)
qed

lemma keeps_sysCalls: "keeps s0 s \<Longrightarrow> keeps s0 (s\<lparr>sysCalls := c\<rparr>)" "keeps s0 s \<Longrightarrow> keeps s0 (s\<lparr>ticks := t\<rparr>)"
  by (simp_all add: keeps_def)

lemma keeps_sysnumcall: "keeps s0 s \<Longrightarrow> safe (sys_sysnumcall s) (\<lambda>(r, s). keeps s0 s)"
  unfolding sys_sysnumcall_def by (rule frame keeps_sysCalls | assumption)+

lemma keeps_sleep: "keeps s0 s \<Longrightarrow> safe (sys_sleep s) (\<lambda>(r, s). keeps s0 s)"
  unfolding sys_sleep_def sleep_round_def
  by (rule frame safe_bind_state [where P = "run_keeps s0"] safe_run_kres safe_proc_killed [THEN safe_bind_value] safe_sleep_begin |
      assumption | (simp add: run_keeps_def; fail))+

lemma keeps_slot:
  assumes "keeps s s'" and "j < length (ptable s)"
  shows "slot (proc_at s' j) = slot (proc_at s j)"
proof -
  have "map slot (ptable s') = map slot (ptable s)" using assms(1) by (intro map_slot_calm) (simp add: keeps_def)
  then show ?thesis using assms(2) by (metis length_map nth_map)
qed

lemma held_reap:
  assumes "held i n d s" and "j < length (ptable s)" and "dead (proc_at s j)"
  shows "safe (wait_reap j s) (\<lambda>(r, s). held i n d s)"
proof -
  define P where "P t \<longleftrightarrow> held i n d t \<and> j < length (ptable t) \<and> dead (proc_at t j)" for t :: "'a fils_scheme"
  have step: "P t'" if "P t" "keeps t t'" for t t'
  proof -
    have "length (ptable t') = length (ptable t)" using that(2) by (metis keeps_def length_map)
    then show ?thesis using that keeps_slot [OF that(2), of j] keeps_held [OF that(2)] by (auto simp: P_def slot_def)
  qed
  have kst: "P (upd_proc t j (\<lambda>p. p\<lparr>kstack := 0\<rparr>))" if "P t" for t
    using that held_upd_proc [of i n d t "\<lambda>p. p\<lparr>kstack := 0\<rparr>" j] by (auto simp: P_def slot_def dead_def)
  have fin: "held i n d (upd_proc t j (\<lambda>p. p\<lparr>pid := 0, parent := None, pname := (pname p)(0 := 0), killed := False,
                  pstate := UNUSED\<rparr>))" if "P t" for t
    using that by (intro held_upd_proc) (auto simp: P_def slot_def dead_def)
  have "P s" using assms by (simp add: P_def)
  then show ?thesis
    unfolding wait_reap_def Let_def
    by (intro safe_bind_state [where P = P, OF safe_mono [OF keeps_vm.kept_kfree [OF keeps_refl]]]
              safe_bind_state [where P = P, OF safe_mono [OF keeps_vm.kept_freevm [OF keeps_refl]]] safe_OK held_pairI fin)
       (auto intro: step kst)
qed

lemma held_wait:
  assumes "held i n d s"
  shows "safe (sys_wait s) (\<lambda>(r, s). held i n d s)"
proof -
  have cur: "curproc s = Some i" using assms by (simp add: held_def live_def)
  have "safe (wait s) (\<lambda>r. case r of Done x s \<Rightarrow> held i n d s | Waits k s \<Rightarrow> True)"
  proof (cases "find_idx (\<lambda>p. parent p = Some i \<and> pstate p = ZOMBIE) (ptable s)")
    case None
    then show ?thesis
      unfolding wait_def cur option.case by (auto intro!: outcome safe_sleep_begin simp: assms)
  next
    case (Some j)
    then have "safe (wait_reap j s) (\<lambda>(r, s). held i n d s)"
      using find_idx_SomeD [OF Some] by (intro held_reap [OF assms]) (auto simp: dead_def)
    then show ?thesis
      unfolding wait_def cur option.case Some by (rule safe_bind_pair) (simp add: safe_OK)
  qed
  then have "safe (kbind (wait s) (run_kres c)) (\<lambda>(r, s). held i n d s)" for c
    by (rule safe_bind_state) (auto simp: run_kres_def safe_def split: run.splits)
  then show ?thesis unfolding sys_wait_def by (intro outcome)
qed

subsection \<open>fork and exit\<close>

lemma safe_kfor_upt:
  assumes "\<And>k s. k < n \<Longrightarrow> I k s \<Longrightarrow> safe (f k s) (I (Suc k))" and "I 0 s"
  shows "safe (kfor f [0..<n] s) (I n)"
  using assms
proof (induction n)
  case (Suc n)
  have "safe (kfor f [0..<n] s) (I n)" using Suc by (intro Suc.IH) auto
  then show ?case
    unfolding upt_Suc_append [OF le0] kfor_append
    by (rule safe_bind_state) (simp add: Suc.prems(1) kfor.simps(1) [abs_def])
qed (simp add: safe_def)

definition closed_below :: "nat \<Rightarrow> nat \<Rightarrow> 'z procs_scheme \<Rightarrow> bool" where
  "closed_below i k s \<longleftrightarrow> (\<forall>m<k. ofile (proc_at s i) ! m = None)"

lemma held_exit_file:
  assumes h: "held i n (\<lambda>_. 0) s" and c: "closed_below i k s" and k: "k < NOFILE"
  shows "safe (exit_file i k s) (\<lambda>s. held i n (\<lambda>_. 0) s \<and> closed_below i (Suc k) s)"
proof -
  have i: "i < length (ptable s)" and ok: "list_all fds_ok (ptable s)" using h by (auto simp: held_def live_def counted_def)
  have len: "length (ofile (proc_at s i)) = NOFILE" and lt: "\<And>f. Some f \<in> set (ofile (proc_at s i)) \<Longrightarrow> f < NFILE"
    using ok i by (auto simp: list_all_length fds_ok_def)
  show ?thesis
  proof (cases "ofile (proc_at s i) ! k")
    case None
    then show ?thesis using h c by (auto simp: exit_file_def safe_OK closed_below_def less_Suc_eq)
  next
    case (Some f)
    then have mem: "Some f \<in> set (ofile (proc_at s i))" using len k by (metis nth_mem)
    have f: "f < NFILE" using lt [OF mem] .
    have ref: "1 \<le> f_ref (file_at s f)" using held_ref [OF h f] fd_count_pos [OF i mem] by simp
    have fin: "held i n (\<lambda>_. 0) (upd_proc s1 i (\<lambda>p. p\<lparr>ofile := (ofile p)[k := None]\<rparr>)) \<and>
        closed_below i (Suc k) (upd_proc s1 i (\<lambda>p. p\<lparr>ofile := (ofile p)[k := None]\<rparr>))"
      if h1: "held i n ((\<lambda>_. 0)(f := 0 - 1)) s1" and sl: "map slot (ptable s1) = map slot (ptable s)" for s1
    proof -
      have l1: "length (ptable s1) = length (ptable s)" using sl map_eq_imp_length_eq by blast
      have "slot (proc_at s1 i) = slot (proc_at s i)" using sl l1 i by (metis nth_map)
      then have eq: "ofile (proc_at s1 i) = ofile (proc_at s i)" by (simp add: slot_def)
      have "held i n (\<lambda>_. 0) (upd_proc s1 i (\<lambda>p. p\<lparr>ofile := (ofile p)[k := None]\<rparr>))"
        using i l1 by (intro held_set_fd [OF h1 _ k]) (auto simp: eq Some)
      then show ?thesis using c i l1 eq k len by (auto simp: closed_below_def less_Suc_eq nth_list_update)
    qed
    show ?thesis
      unfolding exit_file_def Some option.case
      by (rule safe_bind_state [OF held_fileclose_slots [OF h f ref]]) (auto intro!: safe_OK fin)
  qed
qed

text \<open>A process that has closed all its files, and what the rest of exit does to it.\<close>

definition held_closed :: "nat \<Rightarrow> int \<Rightarrow> 'z fils_scheme \<Rightarrow> bool" where
  "held_closed i n s \<longleftrightarrow> held i n (\<lambda>_. 0) s \<and> set (ofile (proc_at s i)) \<subseteq> {None}"

lemma held_closed_keeps: "held_closed i n s \<Longrightarrow> keeps s s' \<Longrightarrow> held_closed i n s'"
  using keeps_slot [of s s' i] keeps_held [of s s'] by (auto simp: held_closed_def held_def live_def slot_def)

lemma held_closed_upd:
  assumes "held_closed i n s" and "slot (g (proc_at s j)) = slot (proc_at s j)"
  shows "held_closed i n (upd_proc s j g)"
  using assms held_upd_proc [of i n "\<lambda>_. 0" s g j]
  by (cases "j < length (ptable s)"; cases "i = j")
     (auto simp: held_closed_def slot_def nth_list_update list_update_beyond held_def live_def)

lemma held_closed_wake: "held_closed i n s \<Longrightarrow> held_closed i n (wake_proc p s)"
  by (cases p) (auto simp: wake_proc_def intro: held_closed_keeps [OF _ keeps_wakeup1 [OF keeps_refl]])

lemma held_closed_reparent: "held_closed i n s \<Longrightarrow> held_closed i n (reparent k j s)"
  unfolding reparent_def Let_def
  by (auto simp: slot_def dead_def intro!: held_closed_wake held_closed_upd)

lemma held_closed_reparents: "held_closed i n s \<Longrightarrow> held_closed i n (fold (reparent k) js s)"
  by (induction js arbitrary: s) (auto intro: held_closed_reparent)

lemma counted_exit_tail:
  assumes "held_closed i n s"
  shows "counted n (\<lambda>_. 0) (exit_tail i s) \<and> pstate (proc_at (exit_tail i s) i) = ZOMBIE"
proof -
  define s1 where "s1 = fold (reparent i) [0..<NPROC] (wake_proc (parent (proc_at s i)) s)"
  let ?p = "(proc_at s1 i)\<lparr>pstate := ZOMBIE\<rparr>"
  have h: "held_closed i n s1" unfolding s1_def by (intro held_closed_reparents held_closed_wake assms)
  then have i: "i < length (ptable s1)" and ok: "list_all fds_ok (ptable s1)" and none: "set (ofile (proc_at s1 i)) \<subseteq> {None}"
    by (auto simp: held_closed_def held_def live_def counted_def)
  have "fds_ok ?p" using ok i none by (auto simp: list_all_length fds_ok_def)
  then have "list_all fds_ok ((ptable s1)[i := ?p])"
    using ok set_update_subset_insert [of "ptable s1" i ?p] by (auto simp: list_all_iff)
  moreover have "fd_count ((ptable s1)[i := ?p]) f = fd_count (ptable s1) f" for f
    by (simp add: fd_count_update [OF i])
  ultimately have "counted n (\<lambda>_. 0) (upd_proc s1 i (\<lambda>p. p\<lparr>pstate := ZOMBIE\<rparr>))"
    using h by (simp add: held_closed_def held_def counted_def upd_proc_def)
  then show ?thesis using i by (simp add: exit_tail_def s1_def Let_def)
qed

lemma held_closed_begin_op:
  "held_closed i n s \<Longrightarrow> (\<And>s1. held_closed i (n + 1) s1 \<Longrightarrow> safe (f s1) Q) \<Longrightarrow> safe (kbind (begin_op s) f) Q"
  by (rule safe_bind_state [OF safe_begin_op]) (auto simp: held_closed_def held_def counted_def live_def)

lemma held_closed_end_op:
  assumes "held_closed i (n + 1) s"
  shows "safe (end_op s) (held_closed i n)"
proof -
  have "\<not> committing s" "held_closed i n (s\<lparr>outstanding := outstanding s - 1\<rparr>)"
    using assms by (auto simp: held_closed_def held_def counted_def live_def)
  then show ?thesis by (intro safe_mono [OF safe_end_op]) (auto intro: held_closed_keeps)
qed

lemma held_closed_iput: "held_closed i n s \<Longrightarrow> safe (iput c s) (held_closed i n)"
  by (rule safe_mono [OF keeps_iput [OF keeps_refl]]) (rule held_closed_keeps)

lemma counted_exit:
  assumes h: "held i n (\<lambda>_. 0) s"
  shows "safe (exit_proc s) (\<lambda>s. counted n (\<lambda>_. 0) s \<and> pstate (proc_at s i) = ZOMBIE)"
proof -
  have cur: "curproc s = Some i" using h by (simp add: held_def live_def)
  have loop: "safe (kfor (exit_file i) [0..<NOFILE] s) (\<lambda>s. held i n (\<lambda>_. 0) s \<and> closed_below i NOFILE s)"
    by (rule safe_kfor_upt [where I = "\<lambda>k s. held i n (\<lambda>_. 0) s \<and> closed_below i k s"])
       (use h in \<open>simp_all add: held_exit_file closed_below_def [of _ 0]\<close>)
  have "held_closed i n s" if "held i n (\<lambda>_. 0) s" "closed_below i NOFILE s" for s
    using that by (auto simp: held_closed_def held_def live_def counted_def list_all_length fds_ok_def closed_below_def in_set_conv_nth)
  then have 1: "safe (kfor (exit_file i) [0..<NOFILE] s) (held_closed i n)"
    by (intro safe_mono [OF loop]) blast
  have cwd: "held_closed i n (upd_proc s i (\<lambda>p. p\<lparr>cwd := c\<rparr>))" if "held_closed i n s" for s c
    using that by (rule held_closed_upd) (simp add: slot_def dead_def)
  show ?thesis
    unfolding exit_proc_def cur option.case
    by (rule outcome 1 [THEN safe_bind_state] held_closed_begin_op held_closed_end_op [THEN safe_bind_state]
        held_closed_iput [THEN safe_bind_state] counted_exit_tail cwd | assumption | (simp; fail))+
qed

text \<open>In fork the new process is an embryo that receives its descriptors one by one.\<close>

definition forking :: "nat \<Rightarrow> nat \<Rightarrow> int \<Rightarrow> nat \<Rightarrow> 'z fils_scheme \<Rightarrow> bool" where
  "forking i np n k s \<longleftrightarrow> held i n (\<lambda>_. 0) s \<and> np < length (ptable s) \<and> np \<noteq> i \<and> pstate (proc_at s np) = EMBRYO \<and>
     (\<forall>m\<ge>k. m < NOFILE \<longrightarrow> ofile (proc_at s np) ! m = None)"

lemma keeps_embryo:
  assumes "keeps s s'" and "j < length (ptable s)"
  shows "pstate (proc_at s' j) = EMBRYO \<longleftrightarrow> pstate (proc_at s j) = EMBRYO"
proof -
  have "map calm (ptable s') = map calm (ptable s)" using assms(1) by (simp add: keeps_def)
  then have "calm (proc_at s' j) = calm (proc_at s j)" using assms(2) by (metis length_map nth_map)
  then have "pstate (calm (proc_at s' j)) = pstate (calm (proc_at s j))" by simp
  then show ?thesis by (auto simp: calm_def split: if_splits)
qed

lemma forking_keeps: "forking i np n k s \<Longrightarrow> keeps s s' \<Longrightarrow> forking i np n k s'"
proof -
  assume f: "forking i np n k s" and k: "keeps s s'"
  have l: "length (ptable s') = length (ptable s)" using k by (metis keeps_def length_map)
  show "forking i np n k s'"
    using f keeps_held [OF k] keeps_slot [OF k, of np] keeps_embryo [OF k, of np]
    by (simp add: forking_def slot_def l)
qed

lemma forking_upd:
  assumes "forking i np n k s" and "slot (g (proc_at s np)) = slot (proc_at s np)" and "pstate (g (proc_at s np)) = EMBRYO"
  shows "forking i np n k (upd_proc s np g)"
  using assms held_upd_proc [of i n "\<lambda>_. 0" s g np] by (simp add: forking_def slot_def)

lemma forking_file:
  assumes f: "forking i np n k s" and k: "k < NOFILE"
  shows "safe (fork_file i np k s) (forking i np n (Suc k))"
proof (cases "ofile (proc_at s i) ! k")
  case None
  then show ?thesis using f by (auto simp: fork_file_def safe_OK forking_def)
next
  case (Some x)
  have h: "held i n (\<lambda>_. 0) s" and np: "np < length (ptable s)" "np \<noteq> i" "pstate (proc_at s np) = EMBRYO"
    and none: "\<forall>m\<ge>k. m < NOFILE \<longrightarrow> ofile (proc_at s np) ! m = None"
    using f by (auto simp: forking_def)
  have i: "i < length (ptable s)" and ok: "list_all fds_ok (ptable s)" using h by (auto simp: held_def live_def counted_def)
  then have len: "length (ofile (proc_at s i)) = NOFILE" "length (ofile (proc_at s np)) = NOFILE"
    and lt: "\<And>f. Some f \<in> set (ofile (proc_at s i)) \<Longrightarrow> f < NFILE"
    using np by (auto simp: list_all_length fds_ok_def)
  have mem: "Some x \<in> set (ofile (proc_at s i))" using Some len k by (metis nth_mem)
  have x: "x < NFILE" using lt [OF mem] .
  have ref: "1 \<le> f_ref (file_at s x)" using held_ref [OF h x] fd_count_pos [OF i mem] by simp
  let ?s1 = "upd_file s x (\<lambda>f. f\<lparr>f_ref := f_ref f + 1\<rparr>)"
  let ?s2 = "upd_proc ?s1 np (\<lambda>p. p\<lparr>ofile := (ofile p)[k := Some x]\<rparr>)"
  have h1: "held i n ((\<lambda>_. 0)(x := 0 + 1)) ?s1" by (rule held_upd_file [OF h x]) simp
  have pt: "ptable ?s1 = ptable s" by (simp add: upd_file_def)
  have "held i n (\<lambda>_. 0) ?s2"
  proof (rule held_set_fd [OF h1 _ k])
    show "(\<lambda>_. 0 :: int) = (\<lambda>f. ((\<lambda>_. 0)(x := 0 + 1)) f + (if ofile (proc_at ?s1 np) ! k = Some f then 1 else 0) - (if Some x = Some f then 1 else 0))"
      using none k by (simp add: pt fun_eq_iff)
  qed (use np x in \<open>simp_all add: pt dead_def\<close>)
  then show ?thesis
    using ref np none len by (simp add: fork_file_def Some filedup_def safe_OK forking_def pt)
qed

lemma held_allocproc:
  assumes h: "held i n (\<lambda>_. 0) s" and none: "\<And>s1. held i n (\<lambda>_. 0) s1 \<Longrightarrow> safe (g None s1) Q"
    and some: "\<And>np s1. forking i np n 0 s1 \<Longrightarrow> safe (g (Some np) s1) Q"
  shows "safe (case allocproc s of (p, s1) \<Rightarrow> g p s1) Q"
proof (cases "find_idx (\<lambda>p. pstate p = UNUSED) (ptable s)")
  case None
  then show ?thesis using none [OF h] by (simp add: allocproc_def)
next
  case (Some np)
  then have np: "np < length (ptable s)" "pstate (proc_at s np) = UNUSED" using find_idx_SomeD [OF Some] by auto
  have i: "i < length (ptable s)" "\<not> dead (proc_at s i)" and ok: "list_all fds_ok (ptable s)"
    using h by (auto simp: held_def live_def counted_def)
  then have ne: "np \<noteq> i" using np by (auto simp: dead_def)
  have okn: "fds_ok (proc_at s np)" using ok np by (simp add: list_all_length)
  have empty: "ofile (proc_at s np) ! m = None" if "m < NOFILE" for m
  proof -
    have "ofile (proc_at s np) ! m \<in> set (ofile (proc_at s np))" using okn that by (intro nth_mem) (simp add: fds_ok_def)
    then show ?thesis using okn np(2) by (auto simp: fds_ok_def dead_def)
  qed
  have upd: "held i n (\<lambda>_. 0) (t\<lparr>ptable := (ptable s)[np := q]\<rparr>)"
    if "ofile q = ofile (proc_at s np)" "ftable t = ftable s" "outstanding t = outstanding s" "committing t = committing s" "curproc t = curproc s" for t q
  proof -
    have "fds_ok q" using okn np(2) that(1) by (simp add: fds_ok_def dead_def)
    then have "list_all fds_ok ((ptable s)[np := q])"
      using ok set_update_subset_insert [of "ptable s" np q] by (auto simp: list_all_iff)
    moreover have "fd_count ((ptable s)[np := q]) f = fd_count (ptable s) f" for f
      using that(1) by (simp add: fd_count_update [OF np(1)])
    ultimately show ?thesis using h that ne by (simp add: held_def counted_def live_def)
  qed
  show ?thesis
  proof (cases "freelist s = 0")
    case True
    let ?q = "(proc_at s np)\<lparr>pid := nextpid s, kstack := 0, pstate := UNUSED\<rparr>"
    have "allocproc s = (None, s\<lparr>nextpid := nextpid s + 1, ptable := (ptable s)[np := ?q]\<rparr>)"
      using True Some np by (simp add: allocproc_def kalloc_def Let_def upd_proc_def)
    then show ?thesis using none [OF upd [of ?q "s\<lparr>nextpid := nextpid s + 1\<rparr>"]] by simp
  next
    case False
    let ?q = "(proc_at s np)\<lparr>pstate := EMBRYO, pid := nextpid s, kstack := freelist s, tf := freelist s + 4020, pcontext := freelist s + 3996\<rparr>"
    obtain m' where eq: "allocproc s = (Some np, s\<lparr>mem := m', freelist := load32 (mem s) (freelist s), nextpid := nextpid s + 1,
        ptable := (ptable s)[np := ?q]\<rparr>)" using allocproc_ok [OF Some False] by blast
    have "forking i np n 0 (s\<lparr>mem := m', freelist := load32 (mem s) (freelist s), nextpid := nextpid s + 1, ptable := (ptable s)[np := ?q]\<rparr>)"
      using upd [of ?q "s\<lparr>mem := m', freelist := load32 (mem s) (freelist s), nextpid := nextpid s + 1\<rparr>"] np ne empty
      by (simp add: forking_def)
    then show ?thesis using some eq by simp
  qed
qed

lemma held_upd_other:
  assumes h: "held i n d s" and j: "j \<noteq> i" and of: "ofile (g (proc_at s j)) = ofile (proc_at s j)"
    and dd: "dead (g (proc_at s j)) \<Longrightarrow> set (ofile (proc_at s j)) \<subseteq> {None}"
  shows "held i n d (upd_proc s j g)"
proof (cases "j < length (ptable s)")
  case True
  let ?q = "g (proc_at s j)"
  have ok: "list_all fds_ok (ptable s)" using h by (simp add: held_def counted_def)
  then have "fds_ok ?q" using dd of True by (simp add: fds_ok_def list_all_length)
  then have "list_all fds_ok ((ptable s)[j := ?q])"
    using ok set_update_subset_insert [of "ptable s" j ?q] by (auto simp: list_all_iff)
  moreover have "fd_count ((ptable s)[j := ?q]) f = fd_count (ptable s) f" for f
    by (simp add: fd_count_update [OF True] of)
  ultimately show ?thesis using h j by (simp add: held_def counted_def live_def upd_proc_def)
qed (use h in \<open>simp add: upd_proc_def list_update_beyond\<close>)

lemma forking_bind:
  assumes "safe r (\<lambda>(x, s1). keeps s s1)" and "forking i np n k s" and "\<And>x s1. forking i np n k s1 \<Longrightarrow> safe (f (x, s1)) Q"
  shows "safe (kbind r f) Q"
  by (rule safe_bind_pair [where P = "forking i np n k", OF safe_mono [OF assms(1)]]) (use assms(2,3) forking_keeps in blast)+

lemma forking_kfree:
  "forking i np n k s \<Longrightarrow> (\<And>s1. forking i np n k s1 \<Longrightarrow> safe (f s1) Q) \<Longrightarrow> safe (kbind (kfree s v) f) Q"
  by (rule safe_bind_state [where P = "forking i np n k", OF safe_mono [OF keeps_vm.kept_kfree [OF keeps_refl]]])
     (auto intro: forking_keeps)

lemma forking_inode: "forking i np n k s \<Longrightarrow> forking i np n k (upd_inode s c g)"
  by (rule forking_keeps) (auto intro: frame)

lemma held_fork:
  assumes "held i n (\<lambda>_. 0) s"
  shows "safe (sys_fork s) (\<lambda>(r, s). held i n (\<lambda>_. 0) s)" (is "safe _ ?Q")
proof -
  have cur: "curproc s = Some i" using assms by (simp add: held_def live_def)
  have upd: "forking i np n k (upd_proc s np (\<lambda>p. p\<lparr>pgdir := a\<rparr>))" "forking i np n k (upd_proc s np (\<lambda>p. p\<lparr>psz := z, parent := q\<rparr>))"
    "forking i np n k (upd_proc s np (\<lambda>p. p\<lparr>cwd := c\<rparr>))" "forking i np n k (upd_proc s np (\<lambda>p. p\<lparr>pname := f p\<rparr>))"
    if "forking i np n k s" for np k s a z q c f
    by (rule forking_upd [OF that]; use that in \<open>simp add: slot_def dead_def forking_def\<close>)+
  have mem: "forking i np n k (s\<lparr>mem := m\<rparr>)" if "forking i np n k s" for np k s m
    using that by (simp add: forking_def held_upd)
  have fail: "held i n (\<lambda>_. 0) (upd_proc s np (\<lambda>p. p\<lparr>kstack := 0, pstate := UNUSED\<rparr>))" if "forking i np n 0 s" for np s
  proof -
    have f: "held i n (\<lambda>_. 0) s" "np \<noteq> i" "np < length (ptable s)" "\<forall>m<NOFILE. ofile (proc_at s np) ! m = None"
      using that by (auto simp: forking_def)
    have "length (ofile (proc_at s np)) = NOFILE" using f by (simp add: held_def counted_def list_all_length fds_ok_def)
    then show ?thesis
      by (intro held_upd_other f) (use f(4) in \<open>auto simp: in_set_conv_nth\<close>)
  qed
  have run: "held i n (\<lambda>_. 0) (upd_proc s np (\<lambda>p. p\<lparr>pstate := RUNNABLE\<rparr>))" if "forking i np n k s" for np k s
    using that by (auto intro!: held_upd_proc simp: slot_def dead_def forking_def)
  have loop: "safe (kfor (fork_file i np) [0..<NOFILE] s) (forking i np n NOFILE)" if "forking i np n 0 s" for np s
    using that by (intro safe_kfor_upt [where I = "forking i np n"]) (auto intro: forking_file)
  show ?thesis
    unfolding sys_fork_def fork_def cur option.case Let_def idup_def prod.case
    by (rule held_allocproc [OF assms]; simp only: option.case)
       (rule outcome assms held_pairI keeps_vm.kept_copyuvm [OF keeps_refl, THEN forking_bind] forking_kfree upd mem fail run
          loop [THEN safe_bind_state] forking_inode | assumption)+
qed

subsection \<open>The dispatcher and the trap handler\<close>

text \<open>
  How a system call ends: with the counts as they were, or, for exit, with the process a zombie, or,
  for an open that fails in create, with one more operation outstanding.
\<close>

definition call_post :: "nat \<Rightarrow> int \<Rightarrow> nat \<Rightarrow> 'z fils_scheme \<Rightarrow> bool" where
  "call_post i n num s \<longleftrightarrow> held i n (\<lambda>_. 0) s \<or> num = 2 \<and> counted n (\<lambda>_. 0) s \<and> pstate (proc_at s i) = ZOMBIE \<or>
     num = 15 \<and> held i (n + 1) (\<lambda>_. 0) s"

lemma call_post_held: "safe r (\<lambda>(x, s). held i n (\<lambda>_. 0) s) \<Longrightarrow> safe r (\<lambda>(x, s). call_post i n num s)"
  by (erule safe_mono) (auto simp: call_post_def)

lemma call_post_keeps: "safe r (\<lambda>(x, s1). keeps s s1) \<Longrightarrow> held i n (\<lambda>_. 0) s \<Longrightarrow> safe r (\<lambda>(x, s). call_post i n num s)"
  by (rule call_post_held) (rule held_pair)

lemma safe_syscalls:
  fixes s :: "'z kerns_scheme"
  assumes h: "held i n (\<lambda>_. 0) s" and num: "0 < num" "num < 23"
  shows "safe (syscalls num s) (\<lambda>(r, s). call_post i n num s)"
proof -
  have exit: "safe (sys_exit s) (\<lambda>(r, s). call_post i n 2 s)"
    unfolding sys_exit_def by (rule safe_bind_state [OF counted_exit [OF h]]) (simp add: safe_OK call_post_def)
  have open_: "safe (sys_open s) (\<lambda>(r, s). call_post i n 15 s)"
    by (rule safe_mono [OF held_open [OF h]]) (auto simp: open_post_def call_post_def)
  have pid: "safe (sys_getpid s) (\<lambda>(r, s). call_post i n num s)" for num
    unfolding sys_getpid_def using h by (intro outcome) (simp add: call_post_def)
  have up: "safe (sys_uptime s) (\<lambda>(r, s). call_post i n num s)" for num
    unfolding sys_uptime_def using h by (intro outcome) (simp add: call_post_def)
  note rest = held_fork [OF h, THEN call_post_held] held_wait [OF h, THEN call_post_held] held_pipe [OF h, THEN call_post_held]
    held_read [OF h, THEN call_post_held] held_kill [OF h, THEN call_post_held] held_exec [OF h, THEN call_post_held]
    held_fstat [OF h, THEN call_post_held] held_chdir [OF h, THEN call_post_held] held_dup [OF h, THEN call_post_held]
    held_sbrk [OF h, THEN call_post_held] call_post_keeps [OF keeps_sleep [OF keeps_refl] h] held_write [OF h, THEN call_post_held]
    call_post_keeps [OF keeps_mknod [OF keeps_refl] h] call_post_keeps [OF keeps_unlink [OF keeps_refl] h]
    call_post_keeps [OF keeps_link [OF keeps_refl] h] call_post_keeps [OF keeps_mkdir [OF keeps_refl] h]
    held_close [OF h, THEN call_post_held] call_post_keeps [OF keeps_sysnumcall [OF keeps_refl] h]
  have "num = 1 \<or> num = 2 \<or> num = 3 \<or> num = 4 \<or> num = 5 \<or> num = 6 \<or> num = 7 \<or> num = 8 \<or> num = 9 \<or> num = 10 \<or> num = 11 \<or>
    num = 12 \<or> num = 13 \<or> num = 14 \<or> num = 15 \<or> num = 16 \<or> num = 17 \<or> num = 18 \<or> num = 19 \<or> num = 20 \<or> num = 21 \<or> num = 22"
    using num by arith
  then show ?thesis
    by (elim disjE) (simp_all add: syscalls_def exit open_ pid up rest)
qed

lemma held_upd_tf: "held i n d s \<Longrightarrow> held i n d (upd_proc s j (\<lambda>p. p\<lparr>tf := a\<rparr>))"
  by (rule held_upd_proc) (auto simp: slot_def dead_def)

lemma safe_syscall:
  fixes s :: "'z kerns_scheme"
  assumes h: "held i n (\<lambda>_. 0) s"
  shows "safe (syscall s) (call_post i n (nat (sint (load32 (mem s) (tf (proc_at s i) + TF_EAX)))))" (is "safe _ (call_post i n ?num)")
proof -
  have cur: "curproc s = Some i" using h by (simp add: held_def live_def)
  have count: "held i n (\<lambda>_. 0) (count_call k s)" for k
    using h by (simp add: count_call_def Let_def held_def counted_def live_def)
  have eax: "safe (set_eax w t) (call_post i n k)" if "call_post i n k t" "pstate (proc_at t i) \<noteq> ZOMBIE" for w t k
    using that by (auto simp: set_eax_def call_post_def the_proc_def held_def live_def safe_OK counted_def)
  have eax': "safe (set_eax w t) (call_post i n k)" if "held i n (\<lambda>_. 0) t" for w t k
    using that by (intro eax) (auto simp: call_post_def held_def live_def dead_def)
  show ?thesis
    unfolding syscall_def the_proc_def cur option.case kbind.simps Let_def
  proof (intro safe_if)
    assume "0 < sint (load32 (mem s) (tf (proc_at s i) + TF_EAX)) \<and> sint (load32 (mem s) (tf (proc_at s i) + TF_EAX)) < 23"
    then show "safe (kbind (syscalls ?num (count_call ?num s)) (\<lambda>(r, s). if pstate (proc_at s i) = ZOMBIE then OK s else set_eax (word_of_int r) s))
        (call_post i n ?num)"
      by (intro safe_bind_pair [OF safe_syscalls [OF count]]) (auto simp: safe_OK eax)
  next
    show "safe (kbind (cprintf f as s) (set_eax (- 1))) (call_post i n ?num)" for f as
      by (rule safe_bind_state [where P = "held i n (\<lambda>_. 0)", OF held_state [OF keeps_cprintf [OF keeps_refl] h]]) (rule eax')
  qed
qed

lemma keeps_kill_line [frame]: "keeps s0 s \<Longrightarrow> safe (kill_line s) (keeps s0)"
proof (induction s rule: kill_line.induct)
  case (1 s)
  show ?case
  proof (cases "in_e s \<noteq> in_w s \<and> in_buf s ! (unat (in_e s - 1) mod INPUT_BUF) \<noteq> 10")
    case True
    then show ?thesis
      using "1.prems" by (subst kill_line.simps)
        (simp, rule safe_bind [OF keeps_consputc [OF keeps_cons(1)]], auto intro: "1.IH" [OF True])
  next
    case False
    then show ?thesis using "1.prems" by (subst kill_line.simps) (auto simp: safe_OK)
  qed
qed

lemmas [frame] = keeps_kill_line [THEN safe_bind_state]

lemma keeps_procdump [frame]: "keeps s0 s \<Longrightarrow> safe (procdump s) (keeps s0)"
  unfolding procdump_def procdump_one_def Let_def
  by (rule frame safe_bind_state [where P = "keeps s0"] | assumption)+

lemma keeps_consoleintr_char [frame]: "keeps s0 s \<Longrightarrow> safe (consoleintr_char c d s) (\<lambda>(r, s). keeps s0 s)"
  unfolding consoleintr_char_def Let_def by (rule frame | assumption)+

lemmas [frame] = keeps_consoleintr_char [THEN safe_bind_pair]

lemma keeps_consoleintr_loop [frame]: "keeps s0 s \<Longrightarrow> safe (consoleintr_loop cs d s) (\<lambda>(r, s). keeps s0 s)"
proof (induction cs arbitrary: d s)
  case (Cons c cs)
  then show ?case by (simp only: consoleintr_loop.simps) (rule frame Cons.IH | assumption)+
qed (simp add: safe_def)

lemmas [frame] = keeps_consoleintr_loop [THEN safe_bind_pair]

lemma keeps_consoleintr: "keeps s0 s \<Longrightarrow> safe (consoleintr cs s) (keeps s0)"
  unfolding consoleintr_def by (rule frame | assumption)+

text \<open>The state in which a trap arrives: the counts agree, and the current process, if there is one, is alive.\<close>

definition ready :: "int \<Rightarrow> 'z fils_scheme \<Rightarrow> bool" where
  "ready n s \<longleftrightarrow> counted n (\<lambda>_. 0) s \<and> (\<forall>i. curproc s = Some i \<longrightarrow> live i s)"

lemma ready_held: "ready n s \<Longrightarrow> curproc s = Some i \<Longrightarrow> held i n (\<lambda>_. 0) s"
  by (simp add: ready_def held_def)

lemma held_ready: "held i n (\<lambda>_. 0) s \<Longrightarrow> ready n s"
  by (auto simp: ready_def held_def live_def)

lemma ready_keeps:
  assumes "ready n s" and "keeps s s'"
  shows "ready n s'"
proof (cases "curproc s")
  case None
  have sl: "map slot (ptable s') = map slot (ptable s)" using assms(2) by (intro map_slot_calm) (simp add: keeps_def)
  then show ?thesis
    using None assms fds_ok_slot [OF sl] fd_count_slot [OF sl] by (simp add: ready_def counted_def keeps_def)
next
  case (Some i)
  then show ?thesis using keeps_held [OF assms(2) ready_held [OF assms(1) Some]] by (rule_tac held_ready)
qed

lemma ready_counted: "ready n s \<Longrightarrow> counted n (\<lambda>_. 0) s"
  by (simp add: ready_def)

lemma safe_trap_switch:
  fixes s :: "'z kerns_scheme"
  assumes r: "ready n s"
  shows "safe (trap_switch cr2 cpunum chars tfa s) (ready n)"
proof -
  have keep: "safe x (ready n)" if "safe x (keeps s)" for x :: "'z kerns_scheme kres"
    using that by (rule safe_mono) (rule ready_keeps [OF r])
  have "ready n (wakeup (s\<lparr>ticks := ticks s + 1\<rparr>) ChTicks)"
    by (rule ready_keeps [OF r]) (simp add: keeps_wakeup keeps_sysCalls)
  then have tick: "ready n (if cpunum = 0 then wakeup (s\<lparr>ticks := ticks s + 1\<rparr>) ChTicks else s)" using r by simp
  note out = keep [OF keeps_consoleintr [OF keeps_refl]] keep [OF keeps_cprintf [OF keeps_refl]]
  have killed: "ready n (upd_proc t i (\<lambda>p. p\<lparr>killed := True\<rparr>))" if "held i n (\<lambda>_. 0) t" for t i
    by (rule held_ready, rule held_upd_proc [OF that]) (simp add: slot_def dead_def)
  have kill: "safe (kbind (cprintf f as s) (\<lambda>s. OK (upd_proc s i (\<lambda>p. p\<lparr>killed := True\<rparr>)))) (ready n)" if "curproc s = Some i" for f as i
    by (rule safe_bind_state [where P = "held i n (\<lambda>_. 0)", OF held_state [OF keeps_cprintf [OF keeps_refl] ready_held [OF r that]]])
       (simp add: safe_OK killed)
  show ?thesis
    unfolding trap_switch_def Let_def
    by (intro safe_if safe_option kill safe_Panic safe_OK tick out r) simp_all
qed

lemma safe_trap_leave:
  assumes r: "ready n s"
  shows "safe (trap_leave tfa s) (counted n (\<lambda>_. 0))"
proof (cases "curproc s")
  case None
  then show ?thesis using r by (simp add: trap_leave_def cur_killed_def safe_OK ready_counted)
next
  case (Some i)
  have h: "held i n (\<lambda>_. 0) s" using ready_held [OF r Some] .
  have "held i n (\<lambda>_. 0) (yield s i)" if "pstate (proc_at s i) = RUNNING"
    unfolding yield_def by (rule held_upd_proc [OF h]) (simp add: slot_def dead_def that)
  then show ?thesis
    using Some h counted_exit [OF h, THEN safe_mono, of "counted n (\<lambda>_. 0)"]
    by (auto simp: trap_leave_def held_def intro!: safe_OK)
qed

lemma safe_trap:
  fixes s :: "'z kerns_scheme"
  assumes r: "ready n s"
  shows "safe (trap cr2 cpunum chars tfa s) (\<lambda>s'. counted n (\<lambda>_. 0) s' \<or>
    load32 (mem s) (tfa + TF_TRAPNO) = T_SYSCALL \<and> load32 (mem s) (tfa + TF_EAX) = 15 \<and> counted (n + 1) (\<lambda>_. 0) s')" (is "safe _ ?Q")
proof (cases "load32 (mem s) (tfa + TF_TRAPNO) = T_SYSCALL")
  case False
  have "safe (trap cr2 cpunum chars tfa s) (counted n (\<lambda>_. 0))"
    using False unfolding trap_def by (simp add: safe_bind_state [OF safe_trap_switch [OF r]] safe_trap_leave)
  then show ?thesis by (rule safe_mono) simp
next
  case sys: True
  show ?thesis
  proof (cases "curproc s")
    case None
    then show ?thesis using sys by (simp add: trap_def the_proc_def safe_Stuck)
  next
    case (Some i)
    have h: "held i n (\<lambda>_. 0) s" using ready_held [OF r Some] .
    let ?s1 = "upd_proc s i (\<lambda>p. p\<lparr>tf := tfa\<rparr>)"
    let ?num = "nat (sint (load32 (mem s) (tfa + TF_EAX)))"
    have il: "i < length (ptable s)" using h by (simp add: held_def live_def)
    have exit: "safe (exit_proc t) (counted m (\<lambda>_. 0))" if "held i m (\<lambda>_. 0) t" for m and t :: "'z kerns_scheme"
      using counted_exit [OF that] by (rule safe_mono) simp
    have call: "safe (syscall ?s1) (call_post i n ?num)"
      using safe_syscall [OF held_upd_tf [OF h, of i tfa]] il by simp
    have "load32 (mem s) (tfa + TF_EAX) = 15" if "?num = 15"
    proof -
      have "unat (load32 (mem s) (tfa + TF_EAX)) = 15" using that unat_nonneg [of "load32 (mem s) (tfa + TF_EAX)"] by simp
      then show ?thesis by (simp add: word_unat_eq_iff)
    qed
    then have fin: "safe (if killed (proc_at t i) \<and> pstate (proc_at t i) \<noteq> ZOMBIE then exit_proc t else OK t) ?Q"
      if "call_post i n ?num t" for t
      using that exit [of n t, THEN safe_mono] exit [of "n + 1" t, THEN safe_mono]
      by (auto simp: call_post_def sys held_def intro!: safe_OK)
    show ?thesis
    proof (cases "killed (proc_at s i)")
      case True
      then have "trap cr2 cpunum chars tfa s = exit_proc s" using sys Some by (simp add: trap_def the_proc_def)
      then show ?thesis using exit [OF h, THEN safe_mono, of ?Q] by simp
    next
      case False
      then have "trap cr2 cpunum chars tfa s =
          kbind (syscall ?s1) (\<lambda>t. if killed (proc_at t i) \<and> pstate (proc_at t i) \<noteq> ZOMBIE then exit_proc t else OK t)"
        using sys Some by (simp add: trap_def the_proc_def)
      then show ?thesis using safe_bind_state [OF call fin] by simp
    qed
  qed
qed

subsection \<open>Properties\<close>

text \<open>
  Property C4. Reference counts of open files are right across the whole kernel interface: if the
  count of every file is the number of descriptors that name it, then this is so after any system
  call, fault or interrupt that returns, including fork, exit, dup, close, pipe, open and all their
  error paths.  No trap ends in the panics of filedup and fileclose about a file without references,
  nor in the one of end_op about a commit in progress.
\<close>

theorem trap_keeps_reference_counts:
  assumes "ready n s"
  shows "case trap cr2 cpunum chars tfa s of
      OK s' \<Rightarrow> list_all fds_ok (ptable s') \<and> (\<forall>f<NFILE. f_ref (file_at s' f) = fd_count (ptable s') f)
    | Panic m \<Rightarrow> m \<notin> {''filedup'', ''fileclose'', ''log.committing''}
    | _ \<Rightarrow> True"
  using safe_trap [OF assms, of cr2 cpunum chars tfa]
  by (auto simp: safe_def counted_def split: kres.splits)

text \<open>A running process with one open file in two descriptors, about to ask for the uptime.\<close>

definition boot_user :: kerns where
  "boot_user = conss.extend (boot_cons\<lparr>
       ptable := (ptable boot_procs)[0 := (ptable boot_procs ! 0)\<lparr>pstate := RUNNING, pid := 1, ofile := (replicate NOFILE None)[0 := Some 7, Suc 0 := Some 7], cwd := Some 0\<rparr>],
       curproc := Some 0, outstanding := 0,
       ftable := (replicate NFILE \<lparr>f_type = FD_NONE, f_ref = 0, f_readable = False, f_writable = False, f_pipe = 0, f_ip = 0, f_off = 0\<rparr>)
         [7 := \<lparr>f_type = FD_INODE, f_ref = 2, f_readable = True, f_writable = True, f_pipe = 0, f_ip = 0, f_off = 0\<rparr>],
       mem := store32 (store32 (\<lambda>_. 0) 0x80200030 64) 0x8020001C 14\<rparr>)
     \<lparr>sysCalls = replicate 23 0, ticks = 5\<rparr>"

lemma boot_user_fields:
  "curproc boot_user = Some 0" "outstanding boot_user = 0" "ticks boot_user = 5" "sysCalls boot_user = replicate 23 0"
  "ptable boot_user = (ptable boot_procs)[0 := (ptable boot_procs ! 0)\<lparr>pstate := RUNNING, pid := 1, ofile := (replicate NOFILE None)[0 := Some 7, Suc 0 := Some 7], cwd := Some 0\<rparr>]"
  "ftable boot_user = (replicate NFILE \<lparr>f_type = FD_NONE, f_ref = 0, f_readable = False, f_writable = False, f_pipe = 0, f_ip = 0, f_off = 0\<rparr>)
         [7 := \<lparr>f_type = FD_INODE, f_ref = 2, f_readable = True, f_writable = True, f_pipe = 0, f_ip = 0, f_off = 0\<rparr>]"
  "mem boot_user = store32 (store32 (\<lambda>_. 0) 0x80200030 64) 0x8020001C 14"
  "committing boot_user = False" "lh_n boot_user = 0"
  "icache boot_user = (replicate 50 free_inode)[0 := free_inode\<lparr>i_dev := 1, i_inum := 5, i_ref := 1, i_valid := True, i_type := T_SFILE, i_nlink := 1\<rparr>]"
  by (simp_all add: boot_user_def boot_cons_def boot_pipe_def boot_sfile_def conss.defs fils.defs pips.defs fss.defs logs.defs boot_logs_fields
      del: replicate.simps replicate_Suc list_update.simps)

lemma boot_user_ready: "ready 0 boot_user"
proof -
  let ?p0 = "ptable boot_procs ! 0" and ?fds = "(replicate NOFILE None)[0 := Some 7, Suc 0 := Some 7]"
  let ?p = "?p0\<lparr>pstate := RUNNING, pid := 1, ofile := ?fds, cwd := Some 0\<rparr>"
  have len: "length (ptable boot_procs) = 64" and sl: "\<And>q. q \<in> set (ptable boot_procs) \<Longrightarrow> ofile q = replicate NOFILE None"
    by (auto simp: boot_procs_def mstate.defs)
  have fds: "?fds = Some 7 # Some 7 # replicate 14 None" by (simp add: eval_nat_numeral)
  have "fds_ok q" if "q \<in> set (ptable boot_procs)" for q using sl [OF that] by (simp add: fds_ok_def)
  moreover have "fds_ok ?p" unfolding fds_ok_def fds by (simp add: dead_def)
  ultimately have "list_all fds_ok ((ptable boot_procs)[0 := ?p])"
    using set_update_subset_insert [of "ptable boot_procs" 0 ?p] by (auto simp: list_all_iff)
  moreover have "fd_count ((ptable boot_procs)[0 := ?p]) f = (if f = 7 then 2 else 0)" for f
  proof -
    have z: "count_list (replicate m None) (Some f) = 0" for m by (induction m) auto
    have "map (\<lambda>q. count_list (ofile q) (Some f)) (ptable boot_procs) = map (\<lambda>_. 0) (ptable boot_procs)"
      by (rule map_cong) (auto simp: sl z simp del: replicate.simps replicate_Suc)
    then have "fd_count (ptable boot_procs) f = 0" by (simp add: fd_count_def sum_list_triv)
    then show ?thesis
      using fd_count_update [of 0 "ptable boot_procs" ?p f] len sl [OF nth_mem, of 0] z by (simp add: fds del: replicate.simps replicate_Suc)
  qed
  ultimately show ?thesis
    by (simp add: ready_def counted_def live_def boot_user_fields nth_list_update dead_def len
        del: replicate.simps replicate_Suc list_update.simps)
qed

lemma boot_user_trap: "\<exists>s'. trap 0 0 [] 0x80200000 boot_user = OK s' \<and> load32 (mem s') 0x8020001C = 5"
proof -
  have m: "load32 (mem boot_user) 0x80200030 = 64" "load32 (mem boot_user) 0x8020001C = 14"
    by (simp_all add: boot_user_fields load32_store32_other)
  have len: "length (ptable boot_procs) = 64" and k: "killed (ptable boot_procs ! 0) = False"
    by (simp_all add: boot_procs_def mstate.defs)
  show ?thesis
    using m len k
    by (simp add: trap_def the_proc_def syscall_def syscalls_def sys_uptime_def count_call_def set_eax_def boot_user_fields Let_def upd_proc_def
        del: replicate.simps replicate_Suc list_update.simps)
qed

theorem trap_keeps_reference_counts_witness:
  "\<exists>s'. trap 0 0 [] 0x80200000 boot_user = OK s' \<and> f_ref (file_at s' 7) = fd_count (ptable s') 7"
  using boot_user_trap trap_keeps_reference_counts [OF boot_user_ready, of 0 0 "[]" "0x80200000"] by auto

text \<open>
  Property C17. File system transactions are balanced: a trap that returns leaves as many operations
  outstanding in the log as there were, and none committing, unless it was the system call open.
\<close>

theorem trap_balances_transactions:
  assumes "ready n s" and "trap cr2 cpunum chars tfa s = OK s'"
    and "load32 (mem s) (tfa + TF_TRAPNO) \<noteq> T_SYSCALL \<or> load32 (mem s) (tfa + TF_EAX) \<noteq> 15"
  shows "outstanding s' = outstanding s \<and> \<not> committing s'"
proof -
  have "outstanding s = n" using assms(1) by (simp add: ready_def counted_def)
  then show ?thesis using safe_trap [OF assms(1), of cr2 cpunum chars tfa] assms(2,3) by (auto simp: safe_def counted_def)
qed

theorem trap_balances_transactions_witness:
  "\<exists>s'. trap 0 0 [] 0x80200000 boot_user = OK s' \<and> outstanding s' = outstanding boot_user"
proof -
  have "load32 (mem boot_user) (0x80200000 + TF_EAX) = 14" by (simp add: boot_user_fields)
  then show ?thesis using boot_user_trap trap_balances_transactions [OF boot_user_ready] by fastforce
qed

text \<open>
  Property C34. An open that fails in create leaks its log operation.  With the empty path and
  O_CREATE any process makes open return -1 with one more operation outstanding; after three such
  calls on an idle log every further operation of the file system goes to sleep in begin_op, and as
  no operation is running nothing will wake it.
\<close>

theorem failed_open_blocks_file_system:
  fixes s :: "'z kerns_scheme"
  assumes cur: "curproc s = Some p" "cwd (proc_at s p) = Some c" and c: "c < length (icache s)" "1 \<le> i_ref (inode_at s c)"
    and idle: "\<not> committing s" "outstanding s = 0" "lh_n s = 0"
  shows "open_path [] O_CREATE s = OK (-1, s\<lparr>outstanding := 1\<rparr>) \<and>
    open_path [] O_CREATE (s\<lparr>outstanding := 1\<rparr>) = OK (-1, s\<lparr>outstanding := 2\<rparr>) \<and>
    open_path [] O_CREATE (s\<lparr>outstanding := 2\<rparr>) = OK (-1, s\<lparr>outstanding := 3\<rparr>) \<and>
    (\<forall>path mode. open_path path mode (s\<lparr>outstanding := 3\<rparr>) = Sleep ChLog)"
proof -
  have iput: "iput c (upd_inode t c (\<lambda>ip. ip\<lparr>i_ref := i_ref ip + 1\<rparr>)) = OK t" if "icache t = icache s" for t :: "'z kerns_scheme"
    using c that by (simp add: iput_def Let_def upd_inode_def)
  have create: "create [] type 0 0 t = OK (None, t)"
    if "icache t = icache s" "curproc t = Some p" "ptable t = ptable s" for t :: "'z kerns_scheme" and type
    using that cur(2) iput [OF that(1)]
    by (simp add: create_def nameiparent_def namex_def cur_def idup_def namex_loop.simps skipelem_def)
  have "open_path [] O_CREATE (s\<lparr>outstanding := k\<rparr>) = OK (-1, s\<lparr>outstanding := k + 1\<rparr>)" if "k \<le> 2" for k
    using that idle cur create by (simp add: open_path_def begin_op_def)
  from this [of 0] this [of 1] this [of 2] show ?thesis
    using idle by (simp add: open_path_def begin_op_def)
qed

theorem failed_open_blocks_file_system_witness:
  "open_path [] O_CREATE boot_user = OK (-1, boot_user\<lparr>outstanding := 1\<rparr>) \<and>
   open_path [47] 0 (boot_user\<lparr>outstanding := 3\<rparr>) = Sleep ChLog"
  using failed_open_blocks_file_system [of boot_user 0 0]
  by (simp add: boot_user_fields boot_procs_def mstate.defs del: replicate.simps replicate_Suc list_update.simps)

text \<open>
  Property C35. An exec that fails leaves the process as it was: with the result -1 the process table
  is unchanged but for processes woken up, and so are the open files and the log's count of
  operations.  An exec that succeeds changes the name, the page table and the size of the calling
  process and nothing else of these.
\<close>

theorem exec_failure_keeps_process:
  assumes "curproc s = Some p" and "exec console_devsw path argv s = OK (r, s')"
  shows "ftable s' = ftable s \<and> outstanding s' = outstanding s \<and> curproc s' = curproc s \<and>
    (if r < 0 then map calm (ptable s') = map calm (ptable s)
     else \<exists>nm pgd sz. map calm (ptable s') = map calm (ptable (upd_proc s p (\<lambda>q. q\<lparr>pname := nm, pgdir := pgd, psz := sz\<rparr>))))"
proof -
  have upd: "ftable (upd_proc s p g) = ftable s" "outstanding (upd_proc s p g) = outstanding s" "curproc (upd_proc s p g) = curproc s" for g
    by (simp_all add: upd_proc_def)
  show ?thesis
    using con.exec_safe [OF assms(1), of path argv] assms(2)
    by (cases "r < 0") (auto simp: safe_def exec_post_def keeps_def upd simp del: upd_proc_simps)
qed

theorem exec_failure_keeps_process_witness:
  "\<exists>s'. exec console_devsw [] [] boot_user = OK (-1, s') \<and> map calm (ptable s') = map calm (ptable boot_user)"
proof -
  have "\<exists>s'. exec console_devsw [] [] boot_user = OK (-1, s')"
    by (simp add: exec_def boot_user_fields begin_op_def namei_def namex_def cur_def boot_procs_def mstate.defs namex_loop.simps skipelem_def
      idup_def upd_inode_def ilock_def acquiresleep_def free_inode_def initsleeplock_def readi_def Let_def exec_bad_def iunlockput_def iunlock_def
      holdingsleep_def releasesleep_def wakeup_def wakeup1_def iput_def end_op_def commit_def del: replicate.simps replicate_Suc list_update.simps)
  then show ?thesis using exec_failure_keeps_process [of boot_user 0 "[]" "[]" "-1"] by (auto simp: boot_user_fields(1))
qed

end
