(* ===== verification/Kbd.thy ===== *)
theory Kbd
  imports Xv6_Prelude
begin

text \<open>
  The keyboard, kbd.c and kbd.h: the scan code tables and the decoder.  The decoder reads the status
  and the data port; the two bytes are arguments here, and its static variable \<open>shift\<close> is passed
  along.
\<close>

unbundle bit_operations_syntax

abbreviation (input) "K_SHIFT \<equiv> (1 :: u32)"
abbreviation (input) "K_CTL \<equiv> (2 :: u32)"
abbreviation (input) "K_CAPSLOCK \<equiv> (8 :: u32)"
abbreviation (input) "K_E0ESC \<equiv> (64 :: u32)"










subsection \<open>Modifier keys\<close>



































subsection \<open>Properties\<close>



end
