(* ===== verification/Vm_Space.thy ===== *)
theory Vm_Space
  imports Vm
begin

text \<open>
  Address spaces.  The entry the hardware finds for an address (\<open>lookup\<close>), the invariant of a page
  directory with its page tables beside the free list (\<open>space\<close>), the invariant of a process's address
  space (\<open>uspace\<close>), and what the routines of vm.c do to them.
\<close>

subsection \<open>Addresses of entries\<close>

lemma mask_ten: "(x :: u32) AND 0x3FF = take_bit 10 x"
  by (simp add: take_bit_eq_mask mask_eq_exp_minus_1)

lemma mask_twelve: "(x :: u32) AND 0xFFF = take_bit 12 x"
  by (simp add: take_bit_eq_mask mask_eq_exp_minus_1)

lemma unat_PDX: "unat (PDX va) < 1024"
  by (simp add: PDX_def mask_ten take_bit_eq_mod unat_mod)

lemma unat_PTX: "unat (PTX va) < 1024"
  by (simp add: PTX_def mask_ten take_bit_eq_mod unat_mod)

lemma unat_bound: "unat (x :: u32) < 4294967296"
  using unsigned_less [of x] by simp

lemma unat_entry:
  fixes p i :: u32
  assumes "p mod 4096 = 0" and "unat i < 1024"
  shows "unat (p + 4 * i) = unat p + 4 * unat i"
proof -
  obtain k where k: "unat p = 4096 * k" using assms(1) by (auto simp: unat_page_0)
  have "k < 1048576" using k unat_bound [of p] by simp
  then have "unat p + 4 * unat i < 4294967296" using k assms(2) by simp
  then show ?thesis using assms(2) by (simp add: unat_word_ariths)
qed

lemma word_gap:
  fixes x y :: u32
  assumes "unat x = 4 * m" "unat y = 4 * n" "m \<noteq> n"
  shows "4 \<le> unat (x - y)"
proof (cases "y \<le> x")
  case True
  then have "unat (x - y) = 4 * m - 4 * n" using assms(1,2) by (simp add: unat_sub)
  then show ?thesis using True assms by (simp add: word_le_nat_alt)
next
  case False
  then have "unat (x - y) = 4 * m + 4294967296 - 4 * n"
    using assms(1,2) by (simp add: unat_sub_if_size word_size word_le_nat_alt)
  moreover have "4 * n < 4294967296" using assms(2) unat_bound [of y] by simp
  then have "n < 1073741824" by simp
  ultimately show ?thesis by simp
qed

lemma entry_apart:
  fixes p i q j :: u32
  assumes "p mod 4096 = 0" "unat i < 1024" "q mod 4096 = 0" "unat j < 1024" "p \<noteq> q \<or> i \<noteq> j"
  shows "4 \<le> unat (p + 4 * i - (q + 4 * j))"
proof -
  obtain a b where ab: "unat p = 4096 * a" "unat q = 4096 * b"
    using assms(1,3) unfolding unat_page_0 dvd_def by blast
  let ?x = "p + 4 * i" and ?y = "q + 4 * j"
  have u: "unat ?x = 4 * (1024 * a + unat i)" "unat ?y = 4 * (1024 * b + unat j)"
    using unat_entry [of p i] unat_entry [of q j] assms ab by auto
  have ne: "1024 * a + unat i \<noteq> 1024 * b + unat j"
  proof
    assume eq: "1024 * a + unat i = 1024 * b + unat j"
    have "(1024 * a + unat i) div 1024 = a" "(1024 * b + unat j) div 1024 = b" using assms by simp_all
    with eq have "a = b" by simp
    with eq have "unat i = unat j" by simp
    with \<open>a = b\<close> ab assms(5) show False by (auto simp: word_unat_eq_iff)
  qed
  show ?thesis by (rule word_gap [OF u ne])
qed

lemma load_entry_store:
  assumes "p mod 4096 = 0" "unat i < 1024" "q mod 4096 = 0" "unat j < 1024"
  shows "load32 (store32 m (p + 4 * i) w) (q + 4 * j) =
    (if p = q \<and> i = j then w else load32 m (q + 4 * j))"
  using entry_apart [of p i q j] entry_apart [of q j p i] assms
  by (auto intro!: load32_store32_other)

lemma load_entry_memset:
  assumes "p mod 4096 = 0" "q mod 4096 = 0" "unat j < 1024"
  shows "load32 (memset m p 0 4096) (q + 4 * j) = (if p = q then 0 else load32 m (q + 4 * j))"
proof (cases "p = q")
  case True
  have "unat (4 * j) = 4 * unat j" using assms(3) by (simp add: unat_word_ariths)
  then show ?thesis using True assms(3) by (simp add: load32_memset_in)
next
  case False
  have 1: "4096 \<le> unat (q + 4 * j - p)"
    using page_disjoint [of q p "4 * j"] assms False by (simp add: unat_word_ariths)
  have "4 \<le> unat (p + 4 * 0 - (q + 4 * j))"
    by (rule entry_apart) (use assms False in auto)
  moreover have "unat (q + 4 * j - p) + unat (p - (q + 4 * j)) = 4294967296"
    by (rule unat_diff_swap) (use 1 in auto)
  ultimately have "unat (q + 4 * j - p) \<le> 4294967292" by simp
  then show ?thesis using 1 False by (simp add: load32_memset_other)
qed

lemma PGADDR_parts: "PGADDR (PDX va) (PTX va) (va AND 0xFFF) = va"
proof (rule bit_eqI)
  fix n assume "possible_bit TYPE(32 word) n"
  then have "n < 32" by simp
  consider "n < 12" | "12 \<le> n" "n < 22" | "22 \<le> n" by linarith
  then show "bit (PGADDR (PDX va) (PTX va) (va AND 0xFFF)) n = bit va n"
    using \<open>n < 32\<close>
    by cases (auto simp: PGADDR_def PDX_def PTX_def mask_ten mask_twelve bit_or_iff bit_push_bit_iff
      bit_drop_bit_eq bit_take_bit_iff)
qed

lemma PDX_PTX_inj:
  assumes "PDX va = PDX vb" "PTX va = PTX vb" "va mod 4096 = 0" "vb mod 4096 = 0"
  shows "va = vb"
proof -
  have off: "va AND 0xFFF = 0" "vb AND 0xFFF = 0"
    using assms(3,4) by (simp_all only: mod_page mask_twelve)
  have "va = PGADDR (PDX va) (PTX va) (va AND 0xFFF)" by (rule PGADDR_parts [symmetric])
  also have "\<dots> = PGADDR (PDX vb) (PTX vb) (vb AND 0xFFF)" by (simp only: assms(1,2) off)
  also have "\<dots> = vb" by (rule PGADDR_parts)
  finally show ?thesis .
qed

subsection \<open>Page directories\<close>

text \<open>The page table a directory entry points to, and whether the entry is present.\<close>

definition tab_present :: "mem \<Rightarrow> u32 \<Rightarrow> u32 \<Rightarrow> bool" where
  "tab_present m pgd d \<longleftrightarrow> load32 m (pgd + 4 * d) AND PTE_P \<noteq> 0"

definition tab :: "mem \<Rightarrow> u32 \<Rightarrow> u32 \<Rightarrow> u32" where
  "tab m pgd d = P2V (PTE_ADDR (load32 m (pgd + 4 * d)))"

definition tables :: "mem \<Rightarrow> u32 \<Rightarrow> u32 set" where
  "tables m pgd = {tab m pgd d | d. unat d < 1024 \<and> tab_present m pgd d}"

text \<open>The page table entry the hardware finds for an address: 0 where there is no page table.\<close>

definition lookup :: "mem \<Rightarrow> u32 \<Rightarrow> u32 \<Rightarrow> u32" where
  "lookup m pgd va = (if tab_present m pgd (PDX va) then load32 m (tab m pgd (PDX va) + 4 * PTX va) else 0)"

text \<open>
  The directory and its page tables are pages of their own: no table serves two entries, and none is
  the directory or free.
\<close>

definition space :: "'z mstate_scheme \<Rightarrow> u32 \<Rightarrow> u32 list \<Rightarrow> bool" where
  "space s pgd fl \<longleftrightarrow> free_list s fl \<and> KERNBASE < kend s \<and> page_ok (kend s) pgd \<and> pgd \<notin> set fl \<and>
     pgd \<notin> tables (mem s) pgd \<and> tables (mem s) pgd \<inter> set fl = {} \<and>
     (\<forall>p \<in> tables (mem s) pgd. page_ok (kend s) p) \<and>
     inj_on (tab (mem s) pgd) {d. unat d < 1024 \<and> tab_present (mem s) pgd d}"

lemma page_ok_aligned: "page_ok e p \<Longrightarrow> p mod 4096 = 0"
  by (simp add: page_ok_def)

lemma page_ok_nonzero: "page_ok e p \<Longrightarrow> KERNBASE \<le> e \<Longrightarrow> unat KERNBASE \<le> unat p"
  by (auto simp: page_ok_def word_le_nat_alt)

lemma tab_in_tables: "tab_present m pgd (PDX va) \<Longrightarrow> tab m pgd (PDX va) \<in> tables m pgd"
  unfolding tables_def using unat_PDX by blast

lemma entry_flags:
  assumes "(x :: u32) mod 4096 = 0" and "unat f < 4096"
  shows "PTE_ADDR (x OR f) = x" and "PTE_FLAGS (x OR f) = f"
proof -
  have x: "take_bit 12 x = 0" using assms(1) by (simp add: mod_page)
  have f: "take_bit 12 f = f"
    using assms(2) by (simp add: take_bit_eq_mod word_unat_eq_iff unat_mod)
  have bx: "\<not> bit x n" if "n < 12" for n
    using arg_cong [OF x, of "\<lambda>w. bit w n"] that by (simp add: bit_take_bit_iff)
  have bf: "\<not> bit f n" if "\<not> n < 12" for n
    using arg_cong [OF f, of "\<lambda>w. bit w n"] that by (simp add: bit_take_bit_iff)
  show "PTE_ADDR (x OR f) = x"
    by (rule bit_eqI) (use bx bf in \<open>auto simp: PTE_ADDR_def mask_page bit_and_iff bit_or_iff bit_not_iff bit_mask_iff\<close>)
  show "PTE_FLAGS (x OR f) = f"
    by (rule bit_eqI) (use bx bf in \<open>auto simp: PTE_FLAGS_def mask_page bit_and_iff bit_or_iff bit_mask_iff\<close>)
qed

lemma P2V_V2P [simp]: "P2V (V2P p) = p" "V2P (P2V p) = p"
  by (simp_all add: P2V_def V2P_def)

lemma V2P_aligned:
  assumes "p mod 4096 = 0"
  shows "V2P p mod 4096 = 0"
proof -
  obtain k where "unat p = 4096 * k" using assms unfolding unat_page_0 dvd_def by blast
  then have "unat (V2P p) = (if KERNBASE \<le> p then 4096 * (k - 524288) else 4096 * (k + 524288))"
    by (simp add: V2P_def unat_sub_if_size word_size word_le_nat_alt right_diff_distrib')
  then show ?thesis by (simp add: unat_page_0)
qed

lemma new_table_entry:
  assumes "p mod 4096 = 0"
  shows "PTE_ADDR (V2P p OR 7) = V2P p" and "(V2P p OR 7) AND PTE_P = 1"
proof -
  show "PTE_ADDR (V2P p OR 7) = V2P p" by (rule entry_flags [OF V2P_aligned [OF assms]]) simp
  have "odd (V2P p OR 7)" by (simp flip: bit_0 add: bit_or_iff)
  then show "(V2P p OR 7) AND PTE_P = 1" by (simp add: and_one_eq mod_2_eq_odd)
qed

subsection \<open>Writing within some pages\<close>

definition only_in :: "u32 set \<Rightarrow> mem \<Rightarrow> mem \<Rightarrow> bool" where
  "only_in P m m' \<longleftrightarrow> (\<forall>q a. q mod 4096 = 0 \<longrightarrow> q \<notin> P \<longrightarrow> in_page q a \<longrightarrow> m' a = m a)"

lemma only_in_refl [simp]: "only_in P m m"
  by (simp add: only_in_def)

lemma only_in_trans: "only_in P m m' \<Longrightarrow> only_in Q m' m'' \<Longrightarrow> P \<subseteq> R \<Longrightarrow> Q \<subseteq> R \<Longrightarrow> only_in R m m''"
  unfolding only_in_def by (metis subsetD)

lemma only_in_mono: "only_in P m m' \<Longrightarrow> P \<subseteq> R \<Longrightarrow> only_in R m m'"
  unfolding only_in_def by (metis subsetD)

lemma in_page_apart:
  assumes "q mod 4096 = 0" "p mod 4096 = 0" "q \<noteq> p" "in_page q a"
  shows "\<not> in_page p a"
  using in_page_other [of q p "a - q"] assms by (simp add: in_page_def)

lemma in_page_entry: "unat (i :: u32) < 1024 \<Longrightarrow> unat k < 4 \<Longrightarrow> in_page p (p + 4 * i + k)"
proof -
  assume i: "unat i < 1024" and k: "unat k < 4"
  have "unat (4 * i + k) = 4 * unat i + unat k" using i k by (simp add: unat_word_ariths)
  then show ?thesis using i k by (simp add: in_page_def add.assoc)
qed

lemma only_in_store:
  assumes "p \<in> P" "p mod 4096 = 0" "unat i < 1024"
  shows "only_in P m (store32 m (p + 4 * i) w)"
  unfolding only_in_def
proof (intro allI impI)
  fix q a assume q: "q mod 4096 = 0" "q \<notin> P" "in_page q a"
  have "\<not> unat (a - (p + 4 * i)) < 4"
  proof
    assume "unat (a - (p + 4 * i)) < 4"
    from in_page_entry [OF assms(3) this, of p] have "in_page p a" by simp
    then show False using in_page_apart [of q p a] q assms by auto
  qed
  then show "store32 m (p + 4 * i) w a = m a" by (rule store32_other)
qed

lemma only_in_memset:
  assumes "p \<in> P" "p mod 4096 = 0"
  shows "only_in P m (memset m p c 4096)"
  unfolding only_in_def
proof (intro allI impI)
  fix q a assume q: "q mod 4096 = 0" "q \<notin> P" "in_page q a"
  then have "\<not> in_page p a" using in_page_apart [of q p a] assms by auto
  then show "memset m p c 4096 a = m a" by (simp add: in_page_def memset_eq)
qed

lemma only_in_load:
  assumes "only_in P m m'" "q mod 4096 = 0" "q \<notin> P" "unat j < 1024"
  shows "load32 m' (q + 4 * j) = load32 m (q + 4 * j)"
  by (rule load32_cong) (use assms in_page_entry [of j _ q] in \<open>auto simp: only_in_def\<close>)

lemma only_in_free_list:
  assumes "only_in P (mem s) m'" "free_list s fl" "set fl \<inter> P = {}"
  shows "free_list (s\<lparr>mem := m'\<rparr>) fl"
proof (rule free_list_frame [OF assms(2)])
  fix a x assume x: "x \<in> set fl" "in_page x a"
  then have "x mod 4096 = 0" using assms(2) by (auto simp: free_list_def page_ok_def)
  then show "m' a = mem s a" using x assms(1,3) unfolding only_in_def by (metis disjoint_iff)
qed

subsection \<open>One entry\<close>

lemma spaceD:
  assumes "space s pgd fl"
  shows "free_list s fl" "KERNBASE \<le> kend s" "page_ok (kend s) pgd" "pgd \<notin> set fl" "pgd mod 4096 = 0"
    "pgd \<notin> tables (mem s) pgd" "tables (mem s) pgd \<inter> set fl = {}"
    "\<And>p. p \<in> tables (mem s) pgd \<Longrightarrow> page_ok (kend s) p"
    "\<And>p. p \<in> tables (mem s) pgd \<Longrightarrow> p mod 4096 = 0"
    "inj_on (tab (mem s) pgd) {d. unat d < 1024 \<and> tab_present (mem s) pgd d}" "KERNBASE < kend s"
  using assms unfolding space_def page_ok_def by auto

text \<open>Where the directory's page is left alone, so are its entries.\<close>

lemma directory_kept:
  assumes "only_in P m m'" "pgd mod 4096 = 0" "pgd \<notin> P" "unat d < 1024"
  shows "tab_present m' pgd d = tab_present m pgd d" and "tab m' pgd d = tab m pgd d"
  using only_in_load [OF assms] by (simp_all add: tab_present_def tab_def)

lemma tables_kept:
  assumes "only_in P m m'" "pgd mod 4096 = 0" "pgd \<notin> P"
  shows "tables m' pgd = tables m pgd"
  using directory_kept [OF assms] unfolding tables_def by (metis (no_types, lifting))

lemma space_kept:
  assumes "space s pgd fl" "only_in P (mem s) m'" "pgd \<notin> P" "set fl \<inter> P = {}"
  shows "space (s\<lparr>mem := m'\<rparr>) pgd fl" and "tables m' pgd = tables (mem s) pgd"
proof -
  note d = spaceD [OF assms(1)]
  note k = directory_kept [OF assms(2) d(5) assms(3)]
  show t: "tables m' pgd = tables (mem s) pgd" by (rule tables_kept [OF assms(2) d(5) assms(3)])
  have "{e. unat e < 1024 \<and> tab_present m' pgd e} = {e. unat e < 1024 \<and> tab_present (mem s) pgd e}"
    using k(1) by blast
  moreover have "inj_on (tab m' pgd) {e. unat e < 1024 \<and> tab_present (mem s) pgd e}"
    using d(10) k(2) by (auto simp: inj_on_def)
  ultimately show "space (s\<lparr>mem := m'\<rparr>) pgd fl"
    using only_in_free_list [OF assms(2) d(1) assms(4)] d t by (simp add: space_def)
qed

lemma lookup_kept:
  assumes "space s pgd fl" "only_in P (mem s) m'" "pgd \<notin> P" "tables (mem s) pgd \<inter> P = {}"
  shows "lookup m' pgd va = lookup (mem s) pgd va"
proof -
  note d = spaceD [OF assms(1)]
  note k = directory_kept [OF assms(2) d(5) assms(3) unat_PDX]
  show ?thesis
  proof (cases "tab_present (mem s) pgd (PDX va)")
    case True
    note t = tab_in_tables [OF True]
    have "load32 m' (tab (mem s) pgd (PDX va) + 4 * PTX va) = load32 (mem s) (tab (mem s) pgd (PDX va) + 4 * PTX va)"
      by (rule only_in_load [OF assms(2) d(9) [OF t] _ unat_PTX]) (use t assms(4) in auto)
    then show ?thesis using True k by (simp add: lookup_def)
  qed (simp add: lookup_def k)
qed

lemma store_entry:
  fixes w :: u32
  assumes "space s pgd fl" "tab_present (mem s) pgd (PDX a)"
  defines "m' \<equiv> store32 (mem s) (tab (mem s) pgd (PDX a) + 4 * PTX a) w"
  shows "space (s\<lparr>mem := m'\<rparr>) pgd fl" "tables m' pgd = tables (mem s) pgd"
    "only_in (tables (mem s) pgd) (mem s) m'"
    "lookup m' pgd va = (if PDX va = PDX a \<and> PTX va = PTX a then w else lookup (mem s) pgd va)"
proof -
  note d = spaceD [OF assms(1)]
  note t = tab_in_tables [OF assms(2)]
  show o: "only_in (tables (mem s) pgd) (mem s) m'"
    unfolding m'_def by (rule only_in_store [OF t d(9) [OF t] unat_PTX])
  show "space (s\<lparr>mem := m'\<rparr>) pgd fl" "tables m' pgd = tables (mem s) pgd"
    using space_kept [OF assms(1) o] d(6,7) by auto
  note k = directory_kept [OF o d(5,6)]
  show "lookup m' pgd va = (if PDX va = PDX a \<and> PTX va = PTX a then w else lookup (mem s) pgd va)"
  proof (cases "tab_present (mem s) pgd (PDX va)")
    case True
    note t' = tab_in_tables [OF True]
    have "tab (mem s) pgd (PDX a) = tab (mem s) pgd (PDX va) \<longleftrightarrow> PDX a = PDX va"
      using d(10) assms(2) True unat_PDX by (auto dest: inj_onD)
    then show ?thesis
      using True k [OF unat_PDX] load_entry_store [OF d(9) [OF t] unat_PTX d(9) [OF t'] unat_PTX]
      by (auto simp: lookup_def m'_def)
  next
    case False
    then show ?thesis using assms(2) k(1) [OF unat_PDX] by (auto simp: lookup_def)
  qed
qed

lemma add_table:
  assumes "space s pgd fl" "\<not> tab_present (mem s) pgd d" "unat d < 1024"
    and p: "page_ok (kend s) p" "p \<noteq> pgd" "p \<notin> tables (mem s) pgd" "p \<notin> set fl"
    and z: "\<And>j. unat j < 1024 \<Longrightarrow> load32 (mem s) (p + 4 * j) = 0"
  defines "m' \<equiv> store32 (mem s) (pgd + 4 * d) (V2P p OR 7)"
  shows "space (s\<lparr>mem := m'\<rparr>) pgd fl" "tables m' pgd = insert p (tables (mem s) pgd)"
    "tab_present m' pgd d" "tab m' pgd d = p" "lookup m' pgd va = lookup (mem s) pgd va"
proof -
  note sd = spaceD [OF assms(1)]
  have o: "only_in {pgd} (mem s) m'"
    unfolding m'_def by (rule only_in_store) (use sd assms(3) in auto)
  have e: "load32 m' (pgd + 4 * d') = (if d' = d then V2P p OR 7 else load32 (mem s) (pgd + 4 * d'))"
    if "unat d' < 1024" for d'
    unfolding m'_def using load_entry_store [OF sd(5) assms(3) sd(5) that] by auto
  have pres: "tab_present m' pgd d' \<longleftrightarrow> d' = d \<or> tab_present (mem s) pgd d'" if "unat d' < 1024" for d'
    using e [OF that] new_table_entry(2) [OF page_ok_aligned [OF p(1)]] by (simp add: tab_present_def)
  have tb: "tab m' pgd d' = (if d' = d then p else tab (mem s) pgd d')" if "unat d' < 1024" for d'
    using e [OF that] new_table_entry(1) [OF page_ok_aligned [OF p(1)]] by (simp add: tab_def)
  show pr: "tab_present m' pgd d" and tp: "tab m' pgd d = p" using pres tb assms(3) by auto
  show ts: "tables m' pgd = insert p (tables (mem s) pgd)"
  proof (rule set_eqI)
    fix x
    show "x \<in> tables m' pgd \<longleftrightarrow> x \<in> insert p (tables (mem s) pgd)"
      unfolding tables_def using pres tb assms(2,3) by (auto split: if_splits) (metis)+
  qed
  have "inj_on (tab m' pgd) {e. unat e < 1024 \<and> tab_present m' pgd e}"
  proof (rule inj_onI)
    fix x y assume xy: "x \<in> {e. unat e < 1024 \<and> tab_present m' pgd e}"
      "y \<in> {e. unat e < 1024 \<and> tab_present m' pgd e}" "tab m' pgd x = tab m' pgd y"
    have "tab (mem s) pgd e \<noteq> p" if "unat e < 1024" "tab_present (mem s) pgd e" for e
      using that p(3) unfolding tables_def by blast
    then show "x = y"
      using xy pres tb inj_onD [OF sd(10), of x y] by (auto split: if_splits)
  qed
  moreover have "free_list (s\<lparr>mem := m'\<rparr>) fl"
    by (rule only_in_free_list [OF o sd(1)]) (use sd(4) in auto)
  ultimately show "space (s\<lparr>mem := m'\<rparr>) pgd fl"
    using sd p ts by (auto simp: space_def)
  show "lookup m' pgd va = lookup (mem s) pgd va"
  proof (cases "PDX va = d")
    case True
    have "load32 m' (p + 4 * PTX va) = 0"
      using only_in_load [OF o page_ok_aligned [OF p(1)] _ unat_PTX] p(2) z [OF unat_PTX] by simp
    then show ?thesis using True pr tp assms(2) by (simp add: lookup_def)
  next
    case False
    have "load32 m' (tab (mem s) pgd (PDX va) + 4 * PTX va) = load32 (mem s) (tab (mem s) pgd (PDX va) + 4 * PTX va)"
      if "tab_present (mem s) pgd (PDX va)"
      by (rule only_in_load [OF o sd(9) [OF tab_in_tables [OF that]] _ unat_PTX])
         (use sd(6) tab_in_tables [OF that] in auto)
    then show ?thesis using False pres [OF unat_PDX] tb [OF unat_PDX] by (simp add: lookup_def)
  qed
qed

lemma walkpgdir_present:
  "tab_present (mem s) pgd (PDX va) \<Longrightarrow> walkpgdir pgd va al s = (tab (mem s) pgd (PDX va) + 4 * PTX va, s)"
  by (simp add: walkpgdir_def tab_present_def tab_def)

lemma walkpgdir_absent:
  "\<not> tab_present (mem s) pgd (PDX va) \<Longrightarrow> walkpgdir pgd va False s = (0, s)"
  by (simp add: walkpgdir_def tab_present_def)

lemma walkpgdir_full:
  "\<not> tab_present (mem s) pgd (PDX va) \<Longrightarrow> free_list s [] \<Longrightarrow> walkpgdir pgd va True s = (0, s)"
  using kalloc_free_list(1) [of s "[]"] by (simp add: walkpgdir_def tab_present_def)

lemma space_kalloc:
  assumes "space s pgd (p # ps)"
  shows "kalloc s = (p, s\<lparr>freelist := load32 (mem s) p\<rparr>)" "space (s\<lparr>freelist := load32 (mem s) p\<rparr>) pgd ps"
    "p \<notin> set ps" "page_ok (kend s) p" "p mod 4096 = 0" "p \<noteq> 0" "p \<noteq> pgd" "p \<notin> tables (mem s) pgd"
proof -
  note sd = spaceD [OF assms]
  show k: "kalloc s = (p, s\<lparr>freelist := load32 (mem s) p\<rparr>)" using kalloc_free_list(1) [OF sd(1)] by simp
  have "free_list (s\<lparr>freelist := load32 (mem s) p\<rparr>) ps" using kalloc_free_list(2) [OF sd(1)] k by simp
  then show "space (s\<lparr>freelist := load32 (mem s) p\<rparr>) pgd ps" using sd by (auto simp: space_def)
  show "p \<notin> set ps" "page_ok (kend s) p" "p mod 4096 = 0" "p \<noteq> pgd" "p \<notin> tables (mem s) pgd"
    using sd(1,4,7) by (auto simp: free_list_def page_ok_def)
  show "p \<noteq> 0" using page_ok_nonzero [of "kend s" p] sd(1,2) by (auto simp: free_list_def)
qed

lemma kfree_only_in:
  assumes "page_ok (kend s) v" "kfree s v = OK s'"
  shows "only_in {v} (mem s) (mem s')" "kend s' = kend s" "kdata s' = kdata s"
proof -
  obtain m' where m': "s' = s\<lparr>mem := m', freelist := v\<rparr>" "\<And>a. \<not> in_page v a \<Longrightarrow> m' a = mem s a"
    using kfree_page [OF assms(1)] assms(2) by auto
  show "only_in {v} (mem s) (mem s')"
    using m' in_page_apart [of _ v] page_ok_aligned [OF assms(1)] by (auto simp: only_in_def)
  show "kend s' = kend s" "kdata s' = kdata s" using m'(1) by simp_all
qed

lemma space_kfree:
  assumes "space s pgd fl" "page_ok (kend s) v" "v \<notin> insert pgd (tables (mem s) pgd \<union> set fl)"
  obtains s' where "kfree s v = OK s'" "space s' pgd (v # fl)" "only_in {v} (mem s) (mem s')"
    "tables (mem s') pgd = tables (mem s) pgd" "\<And>va. lookup (mem s') pgd va = lookup (mem s) pgd va"
    "kend s' = kend s" "kdata s' = kdata s"
proof -
  note sd = spaceD [OF assms(1)]
  obtain s' where s': "kfree s v = OK s'" "free_list s' (v # fl)"
    using kfree_free_list [OF sd(1) assms(2)] assms(3) by auto
  note o = kfree_only_in [OF assms(2) s'(1)]
  have "space (s\<lparr>mem := mem s'\<rparr>) pgd fl" "tables (mem s') pgd = tables (mem s) pgd"
    using space_kept [OF assms(1) o(1)] assms(3) by auto
  then have "space s' pgd (v # fl)" "tables (mem s') pgd = tables (mem s) pgd"
    using s'(2) o(2) assms(3) by (auto simp: space_def)
  moreover have "lookup (mem s') pgd va = lookup (mem s) pgd va" for va
    using lookup_kept [OF assms(1) o(1)] assms(3) by auto
  ultimately show thesis using that s'(1) o by blast
qed

lemma walkpgdir_new:
  assumes "space s pgd (p # ps)" "\<not> tab_present (mem s) pgd (PDX va)"
  obtains s' where "walkpgdir pgd va True s = (p + 4 * PTX va, s')" "space s' pgd ps"
    "tables (mem s') pgd = insert p (tables (mem s) pgd)" "tab_present (mem s') pgd (PDX va)"
    "tab (mem s') pgd (PDX va) = p" "\<And>v. lookup (mem s') pgd v = lookup (mem s) pgd v"
    "only_in {pgd, p} (mem s) (mem s')" "kend s' = kend s"
proof -
  note sd = spaceD [OF assms(1)]
  note k = space_kalloc(1) [OF assms(1)] and s1 = space_kalloc(2) [OF assms(1)]
    and f = space_kalloc(3,4,7,8) [OF assms(1)] and al = space_kalloc(5) [OF assms(1)] and p0 = space_kalloc(6) [OF assms(1)]
  let ?s1 = "s\<lparr>freelist := load32 (mem s) p\<rparr>"
  let ?m = "memset (mem s) p 0 4096"
  have o: "only_in {p} (mem s) ?m" by (rule only_in_memset) (use al in auto)
  then have o1: "only_in {p} (mem ?s1) ?m" by simp
  have s2: "space (?s1\<lparr>mem := ?m\<rparr>) pgd ps" "tables ?m pgd = tables (mem s) pgd"
    using space_kept [OF s1 o1] f by auto
  have l2: "lookup ?m pgd v = lookup (mem s) pgd v" for v
    using lookup_kept [OF s1 o1, of v] f by auto
  have np: "\<not> tab_present ?m pgd (PDX va)"
    using directory_kept(1) [OF o sd(5) _ unat_PDX] assms(2) f(3) by simp
  let ?s2 = "?s1\<lparr>mem := ?m\<rparr>"
  let ?m' = "store32 (mem ?s2) (pgd + 4 * PDX va) (V2P p OR 7)"
  have z: "load32 (mem ?s2) (p + 4 * j) = 0" if "unat j < 1024" for j
    using load_entry_memset [OF al al that] by simp
  have at: "space (?s2\<lparr>mem := ?m'\<rparr>) pgd ps" "tables ?m' pgd = insert p (tables ?m pgd)"
    "tab_present ?m' pgd (PDX va)" "tab ?m' pgd (PDX va) = p" "\<And>v. lookup ?m' pgd v = lookup ?m pgd v"
    using add_table [OF s2(1) _ unat_PDX _ f(3) _ f(1) z] np s2(2) f by auto
  show thesis
  proof (rule that [of "?s2\<lparr>mem := ?m'\<rparr>"])
    show "walkpgdir pgd va True s = (p + 4 * PTX va, ?s2\<lparr>mem := ?m'\<rparr>)"
      using assms(2) k p0 by (simp add: walkpgdir_def tab_present_def)
    show "only_in {pgd, p} (mem s) (mem (?s2\<lparr>mem := ?m'\<rparr>))"
      using only_in_trans [OF o only_in_store [of pgd "{pgd}" "PDX va"], of "{pgd, p}"] sd(5) unat_PDX by simp
  qed (use at s2(2) l2 in auto)
qed

subsection \<open>Pages of an address\<close>

lemma unat_PGROUNDDOWN: "unat (PGROUNDDOWN va) = 4096 * (unat va div 4096)"
proof -
  have "unat (PGROUNDDOWN va) = 4096 * (unat va div 4096) mod 4294967296"
    by (simp add: PGROUNDDOWN_shift unsigned_push_bit_eq unsigned_drop_bit_eq take_bit_eq_mod push_bit_eq_mult
      drop_bit_eq_div mult.commute unat_word_ariths unat_div mod_mult_right_eq)
  moreover have "4096 * (unat va div 4096) < 4294967296"
    using unat_bound [of va] times_div_less_eq_dividend [of 4096 "unat va"] by linarith
  ultimately show ?thesis by simp
qed

lemma PGROUNDDOWN_id:
  assumes "a mod 4096 = 0"
  shows "PGROUNDDOWN a = a"
  using assms unfolding unat_page_0 by (simp only: word_unat_eq_iff unat_PGROUNDDOWN dvd_mult_div_cancel)

lemma PDX_PGROUNDDOWN [simp]: "PDX (PGROUNDDOWN va) = PDX va"
  by (rule bit_eqI) (auto simp: PDX_def mask_ten PGROUNDDOWN_shift bit_take_bit_iff bit_drop_bit_eq bit_push_bit_iff)

lemma PTX_PGROUNDDOWN [simp]: "PTX (PGROUNDDOWN va) = PTX va"
  by (rule bit_eqI) (auto simp: PTX_def mask_ten PGROUNDDOWN_shift bit_take_bit_iff bit_drop_bit_eq bit_push_bit_iff)

lemma same_entry: "PDX va = PDX a \<and> PTX va = PTX a \<longleftrightarrow> PGROUNDDOWN va = PGROUNDDOWN a"
proof
  assume "PGROUNDDOWN va = PGROUNDDOWN a"
  then show "PDX va = PDX a \<and> PTX va = PTX a"
    using PDX_PGROUNDDOWN [of va] PTX_PGROUNDDOWN [of va] by simp
qed (simp add: PDX_PTX_inj PGROUNDDOWN_aligned)

lemma lookup_PGROUNDDOWN [simp]: "lookup m pgd (PGROUNDDOWN va) = lookup m pgd va"
  by (simp add: lookup_def)

text \<open>The addresses of \<open>n\<close> pages from a page boundary on.\<close>

definition pages_from :: "u32 \<Rightarrow> nat \<Rightarrow> u32 \<Rightarrow> bool" where
  "pages_from a n va \<longleftrightarrow> unat a \<le> unat va \<and> unat va < unat a + 4096 * n"

lemma pages_from_0 [simp]: "\<not> pages_from a 0 va"
  by (simp add: pages_from_def)

lemma pages_from_one:
  assumes "a mod 4096 = 0"
  shows "pages_from a (Suc 0) va \<longleftrightarrow> PGROUNDDOWN va = a"
proof -
  obtain k where k: "unat a = 4096 * k" using assms unfolding unat_page_0 dvd_def by blast
  have "4096 * k \<le> x \<and> x < 4096 * k + 4096 \<longleftrightarrow> x div 4096 = k" for x :: nat
    by (auto simp: div_nat_eqI)
  then show ?thesis by (auto simp: pages_from_def word_unat_eq_iff unat_PGROUNDDOWN k)
qed

lemma unat_add_page: "unat (a :: u32) + 4096 < 4294967296 \<Longrightarrow> unat (a + 4096) = unat a + 4096"
  by (simp add: unat_word_ariths)

lemma add_page_aligned: "(a :: u32) mod 4096 = 0 \<Longrightarrow> unat a + 4096 < 4294967296 \<Longrightarrow> (a + 4096) mod 4096 = 0"
  by (simp add: unat_page_0 unat_add_page)

lemma pages_from_Suc:
  assumes "a mod 4096 = 0" "unat a + 4096 < 4294967296"
  shows "pages_from a (Suc n) va \<longleftrightarrow> PGROUNDDOWN va = a \<or> pages_from (a + 4096) n va"
  unfolding pages_from_one [OF assms(1), symmetric]
  using unat_add_page [OF assms(2)] by (auto simp: pages_from_def)

lemma pages_from_next:
  assumes "a mod 4096 = 0" "unat a + 4096 < 4294967296" "pages_from (a + 4096) n va"
  shows "PGROUNDDOWN va \<noteq> a"
  unfolding pages_from_one [OF assms(1), symmetric]
  using unat_add_page [OF assms(2)] assms(3) by (auto simp: pages_from_def)

subsection \<open>Mapping\<close>

text \<open>
  What a mapping routine may do besides changing the entries it is asked to: take pages from the front
  of the free list and use them as page tables.
\<close>

definition grown :: "'z mstate_scheme \<Rightarrow> u32 list \<Rightarrow> u32 \<Rightarrow> 'z mstate_scheme \<Rightarrow> u32 list \<Rightarrow> bool" where
  "grown s fl pgd s' fl' \<longleftrightarrow> space s' pgd fl' \<and> kend s' = kend s \<and> kdata s' = kdata s \<and>
     (\<exists>used. fl = used @ fl' \<and> tables (mem s') pgd = tables (mem s) pgd \<union> set used) \<and>
     only_in (insert pgd (tables (mem s') pgd)) (mem s) (mem s')"

lemma grown_refl: "space s pgd fl \<Longrightarrow> grown s fl pgd s fl"
  by (simp add: grown_def)

lemma grown_trans:
  assumes "grown s fl pgd s1 fl1" "grown s1 fl1 pgd s2 fl2"
  shows "grown s fl pgd s2 fl2"
proof -
  obtain u v where uv: "fl = u @ fl1" "tables (mem s1) pgd = tables (mem s) pgd \<union> set u"
    "fl1 = v @ fl2" "tables (mem s2) pgd = tables (mem s1) pgd \<union> set v"
    using assms unfolding grown_def by blast
  have "only_in (insert pgd (tables (mem s2) pgd)) (mem s) (mem s2)"
    by (rule only_in_trans [of "insert pgd (tables (mem s1) pgd)" _ "mem s1" "insert pgd (tables (mem s2) pgd)"])
       (use assms uv(4) in \<open>auto simp: grown_def\<close>)
  moreover have "fl = (u @ v) @ fl2 \<and> tables (mem s2) pgd = tables (mem s) pgd \<union> set (u @ v)"
    using uv by auto
  ultimately show ?thesis using assms unfolding grown_def by metis
qed

text \<open>There are at most 1024 page tables, so mapping takes at most that many pages.\<close>

lemma card_entries: "finite {d :: u32. unat d < 1024}" "card {d :: u32. unat d < 1024} = 1024"
proof -
  have "bij_betw unat {d :: u32. unat d < 1024} {..<1024}"
    by (rule bij_betw_byWitness [where f' = word_of_nat]) (auto simp: unat_of_nat)
  then show "finite {d :: u32. unat d < 1024}" "card {d :: u32. unat d < 1024} = 1024"
    by (simp_all add: bij_betw_finite bij_betw_same_card)
qed

lemma tables_image: "tables m pgd = tab m pgd ` {d. unat d < 1024 \<and> tab_present m pgd d}"
  unfolding tables_def by blast

lemma tables_finite: "finite (tables m pgd)"
  unfolding tables_image by (rule finite_imageI, rule finite_subset [OF _ card_entries(1)]) auto

lemma card_tables: "card (tables m pgd) \<le> 1024"
proof -
  have "card (tables m pgd) \<le> card {d. unat d < 1024 \<and> tab_present m pgd d}"
    unfolding tables_image by (rule card_image_le, rule finite_subset [OF _ card_entries(1)]) auto
  also have "\<dots> \<le> card {d :: u32. unat d < 1024}" by (rule card_mono [OF card_entries(1)]) auto
  finally show ?thesis by (simp add: card_entries(2))
qed

lemma grown_length:
  assumes "grown s fl pgd s' fl'" "space s pgd fl"
  shows "length fl + card (tables (mem s) pgd) = length fl' + card (tables (mem s') pgd)"
proof -
  obtain u where u: "fl = u @ fl'" "tables (mem s') pgd = tables (mem s) pgd \<union> set u"
    using assms(1) unfolding grown_def by blast
  have "distinct u" "tables (mem s) pgd \<inter> set u = {}" using assms(2) u(1) by (auto simp: space_def free_list_def)
  then have "card (tables (mem s') pgd) = card (tables (mem s) pgd) + length u"
    unfolding u(2) by (simp add: card_Un_disjoint tables_finite distinct_card)
  then show ?thesis using u(1) by simp
qed

lemma table_entry_nonzero:
  assumes "page_ok e p" "KERNBASE \<le> e" "unat i < 1024"
  shows "p + 4 * i \<noteq> 0"
  using unat_entry [OF page_ok_aligned [OF assms(1)] assms(3)] page_ok_nonzero [OF assms(1,2)] by auto

lemma map_page_remap:
  assumes "space s pgd fl" "lookup (mem s) pgd a AND PTE_P \<noteq> 0"
  shows "map_page pgd a pa perm s = Panic ''remap''"
proof -
  have t: "tab_present (mem s) pgd (PDX a)" using assms(2) by (auto simp: lookup_def split: if_splits)
  note sd = spaceD [OF assms(1)]
  show ?thesis
    using assms(2) t table_entry_nonzero [OF sd(8) [OF tab_in_tables [OF t]] sd(2) unat_PTX]
    by (simp add: lookup_def map_page_def walkpgdir_present)
qed

lemma map_page_full:
  "space s pgd [] \<Longrightarrow> \<not> tab_present (mem s) pgd (PDX a) \<Longrightarrow> map_page pgd a pa perm s = OK (-1, s)"
  by (simp add: map_page_def walkpgdir_full spaceD(1))

text \<open>Setting the entry of a page whose table is there.\<close>

lemma map_page_present:
  assumes "space s pgd fl" "lookup (mem s) pgd a AND PTE_P = 0" "tab_present (mem s) pgd (PDX a)"
  obtains s' where "map_page pgd a pa perm s = OK (0, s')" "grown s fl pgd s' fl"
    "\<And>va. lookup (mem s') pgd va =
      (if PGROUNDDOWN va = PGROUNDDOWN a then pa OR perm OR PTE_P else lookup (mem s) pgd va)"
proof -
  note sd = spaceD [OF assms(1)]
  note t = tab_in_tables [OF assms(3)]
  let ?m = "store32 (mem s) (tab (mem s) pgd (PDX a) + 4 * PTX a) (pa OR perm OR PTE_P)"
  note se = store_entry [OF assms(1,3), of "pa OR perm OR PTE_P"]
  show thesis
  proof (rule that [of "s\<lparr>mem := ?m\<rparr>"])
    show "map_page pgd a pa perm s = OK (0, s\<lparr>mem := ?m\<rparr>)"
      using assms(2,3) table_entry_nonzero [OF sd(8) [OF t] sd(2) unat_PTX]
      by (simp add: map_page_def walkpgdir_present lookup_def)
    show "grown s fl pgd (s\<lparr>mem := ?m\<rparr>) fl"
      using se(1-3) by (auto simp: grown_def elim: only_in_mono)
  qed (simp add: se(4) same_entry)
qed

lemma map_page_maps:
  assumes "space s pgd fl" "lookup (mem s) pgd a AND PTE_P = 0" "fl \<noteq> [] \<or> tab_present (mem s) pgd (PDX a)"
  obtains s' fl' where "map_page pgd a pa perm s = OK (0, s')" "grown s fl pgd s' fl'"
    "\<And>va. lookup (mem s') pgd va =
      (if PGROUNDDOWN va = PGROUNDDOWN a then pa OR perm OR PTE_P else lookup (mem s) pgd va)"
proof (cases "tab_present (mem s) pgd (PDX a)")
  case True
  show thesis
    by (rule map_page_present [OF assms(1,2) True, of pa perm]) (rule that, assumption+)
next
  case False
  then obtain p ps where fl: "fl = p # ps" using assms(3) by (cases fl) auto
  obtain s1 where w: "walkpgdir pgd a True s = (p + 4 * PTX a, s1)" "space s1 pgd ps"
    "tables (mem s1) pgd = insert p (tables (mem s) pgd)" "tab_present (mem s1) pgd (PDX a)"
    "tab (mem s1) pgd (PDX a) = p" "\<And>v. lookup (mem s1) pgd v = lookup (mem s) pgd v"
    "only_in {pgd, p} (mem s) (mem s1)" "kend s1 = kend s"
    using walkpgdir_new [OF assms(1) [unfolded fl] False] by blast
  have "kdata s1 = kdata s"
    using w(1) False by (auto simp: walkpgdir_def tab_present_def kalloc_def Let_def split: if_splits)
  then have g: "grown s fl pgd s1 ps"
    using w fl by (auto simp: grown_def elim!: only_in_mono)
  have "map_page pgd a pa perm s = map_page pgd a pa perm s1"
    using w(1) walkpgdir_present [OF w(4), of True] w(5) by (simp add: map_page_def)
  moreover obtain s2 where s2: "map_page pgd a pa perm s1 = OK (0, s2)" "grown s1 ps pgd s2 ps"
    "\<And>va. lookup (mem s2) pgd va =
      (if PGROUNDDOWN va = PGROUNDDOWN a then pa OR perm OR PTE_P else lookup (mem s1) pgd va)"
    using map_page_present [OF w(2) _ w(4), of pa perm] assms(2) w(6) by auto
  ultimately show thesis
    by (intro that [of s2 ps] grown_trans [OF g]) (simp_all add: w(6))
qed

text \<open>
  What mapping \<open>n\<close> pages comes to: with enough memory every page is mapped; without, the call
  returns -1 and the free list is empty.  No other address is touched.
\<close>

definition mapped :: "'z mstate_scheme \<Rightarrow> u32 list \<Rightarrow> u32 \<Rightarrow> u32 \<Rightarrow> nat \<Rightarrow> u32 \<Rightarrow> u32 \<Rightarrow> int \<Rightarrow> 'z mstate_scheme \<Rightarrow> u32 list \<Rightarrow> bool" where
  "mapped s fl pgd a n pa perm r s' fl' \<longleftrightarrow> grown s fl pgd s' fl' \<and>
     (\<forall>va. \<not> pages_from a n va \<longrightarrow> lookup (mem s') pgd va = lookup (mem s) pgd va) \<and>
     (r = 0 \<and> (\<forall>va. pages_from a n va \<longrightarrow> lookup (mem s') pgd va = (pa + (PGROUNDDOWN va - a)) OR perm OR PTE_P)
      \<or> r = -1 \<and> fl' = [])"

lemma mapped_page:
  assumes "space s pgd fl" "a mod 4096 = 0" "lookup (mem s) pgd a AND PTE_P = 0"
  obtains r s' fl' where "map_page pgd a pa perm s = OK (r, s')" "mapped s fl pgd a (Suc 0) pa perm r s' fl'"
    "r \<noteq> 0 \<Longrightarrow> s' = s"
proof (cases "fl = [] \<and> \<not> tab_present (mem s) pgd (PDX a)")
  case True
  then show thesis
    using map_page_full [of s pgd a pa perm] assms(1)
    by (intro that [of "-1" s "[]"]) (auto simp: mapped_def intro!: grown_refl)
next
  case False
  then obtain s' fl' where "map_page pgd a pa perm s = OK (0, s')" "grown s fl pgd s' fl'"
    "\<And>va. lookup (mem s') pgd va =
      (if PGROUNDDOWN va = PGROUNDDOWN a then pa OR perm OR PTE_P else lookup (mem s) pgd va)"
    using map_page_maps [OF assms(1,3), of pa perm] by blast
  then show thesis
    by (intro that [of 0 s' fl'])
       (auto simp: mapped_def pages_from_one [OF assms(2)] PGROUNDDOWN_id [OF assms(2)])
qed

lemma mapped_step:
  assumes m1: "mapped s fl pgd a (Suc 0) pa perm 0 s1 fl1"
    and m2: "mapped s1 fl1 pgd (a + 4096) n (pa + 4096) perm r s' fl'"
    and a: "a mod 4096 = 0" "unat a + 4096 < 4294967296"
  shows "mapped s fl pgd a (Suc n) pa perm r s' fl'"
proof -
  note ps = pages_from_Suc [OF a, of n] and p1 = pages_from_one [OF a(1)]
  have nx: "\<not> pages_from (a + 4096) n va" if "PGROUNDDOWN va = a" for va
    using pages_from_next [OF a, of n va] that by blast
  have g: "grown s fl pgd s' fl'" using m1 m2 grown_trans unfolding mapped_def by blast
  have off: "pa + 4096 + (x - (a + 4096)) = pa + (x - a)" for x by simp
  have l1: "lookup (mem s1) pgd va = (if PGROUNDDOWN va = a then (pa + (PGROUNDDOWN va - a)) OR perm OR PTE_P else lookup (mem s) pgd va)" for va
    using m1 unfolding mapped_def p1 by auto
  have l2: "lookup (mem s') pgd va = lookup (mem s1) pgd va" if "\<not> pages_from (a + 4096) n va" for va
    using m2 that unfolding mapped_def by blast
  have l3: "lookup (mem s') pgd va = (pa + (PGROUNDDOWN va - a)) OR perm OR PTE_P" if "pages_from (a + 4096) n va" "r = 0" for va
    using m2 that unfolding mapped_def off by auto
  have "\<forall>va. \<not> pages_from a (Suc n) va \<longrightarrow> lookup (mem s') pgd va = lookup (mem s) pgd va"
    unfolding ps using l1 l2 by auto
  moreover have "\<forall>va. pages_from a (Suc n) va \<longrightarrow> lookup (mem s') pgd va = (pa + (PGROUNDDOWN va - a)) OR perm OR PTE_P" if "r = 0"
    unfolding ps using l1 l2 [OF nx] l3 that by metis
  moreover have "r = 0 \<or> r = -1 \<and> fl' = []"
    using m2 by (auto simp: mapped_def)
  ultimately show ?thesis using g unfolding mapped_def by blast
qed

lemma mappages_loop_maps:
  assumes "space s pgd fl" "a mod 4096 = 0" "unat a + 4096 * n < 4294967296"
    "\<And>va. pages_from a (Suc n) va \<Longrightarrow> lookup (mem s) pgd va AND PTE_P = 0"
  shows "\<exists>r s' fl'. mappages_loop n pgd a pa perm s = OK (r, s') \<and> mapped s fl pgd a (Suc n) pa perm r s' fl'"
  using assms
proof (induction n arbitrary: a pa s fl)
  case 0
  have "lookup (mem s) pgd a AND PTE_P = 0" by (rule "0.prems"(4)) (simp add: pages_from_def)
  then show ?case using mapped_page [OF "0.prems"(1,2), of pa perm] by (metis mappages_loop.simps(1))
next
  case (Suc n)
  have l: "unat a + 4096 < 4294967296" using Suc.prems(3) by simp
  have "lookup (mem s) pgd a AND PTE_P = 0" by (rule Suc.prems(4)) (simp add: pages_from_def)
  then obtain r s1 fl1 where m1: "map_page pgd a pa perm s = OK (r, s1)"
    "mapped s fl pgd a (Suc 0) pa perm r s1 fl1"
    using mapped_page [OF Suc.prems(1,2), of pa perm] by metis
  show ?case
  proof (cases "r = 0")
    case True
    have sp: "space s1 pgd fl1" using m1(2) by (simp add: mapped_def grown_def)
    have un: "lookup (mem s1) pgd va AND PTE_P = 0" if "pages_from (a + 4096) (Suc n) va" for va
      using m1(2) Suc.prems(4) [of va] that pages_from_Suc [OF Suc.prems(2) l, of "Suc n" va]
        pages_from_next [OF Suc.prems(2) l that] pages_from_one [OF Suc.prems(2), of va]
      unfolding mapped_def by auto
    have "unat (a + 4096) + 4096 * n < 4294967296" using unat_add_page [OF l] Suc.prems(3) by simp
    from Suc.IH [OF sp add_page_aligned [OF Suc.prems(2) l] this un, of "pa + 4096"]
    obtain r' s' fl' where "mappages_loop n pgd (a + 4096) (pa + 4096) perm s1 = OK (r', s')"
      "mapped s1 fl1 pgd (a + 4096) (Suc n) (pa + 4096) perm r' s' fl'" by blast
    then show ?thesis
      using m1 True mapped_step [OF m1(2) [unfolded True] _ Suc.prems(2) l, of "Suc n" r' s' fl'] by auto
  next
    case False
    then have "mappages_loop (Suc n) pgd a pa perm s = OK (r, s1)" "mapped s fl pgd a (Suc (Suc n)) pa perm r s1 fl1"
      using m1 pages_from_Suc [OF Suc.prems(2) l, of "Suc n"] unfolding mapped_def pages_from_one [OF Suc.prems(2)]
      by auto
    then show ?thesis by blast
  qed
qed

text \<open>The number of pages a range of bytes touches.\<close>

definition npages :: "u32 \<Rightarrow> u32 \<Rightarrow> nat" where
  "npages va sz = Suc ((unat va + unat sz - 1) div 4096 - unat va div 4096)"

lemma mappages_rounds:
  assumes "0 < unat sz" "unat va + unat sz \<le> 4294967296"
  shows "unat ((PGROUNDDOWN (va + sz - 1) - PGROUNDDOWN va) div 4096) =
    (unat va + unat sz - 1) div 4096 - unat va div 4096"
    and "unat (PGROUNDDOWN va) + 4096 * ((unat va + unat sz - 1) div 4096 - unat va div 4096) < 4294967296"
proof -
  let ?e = "va + (sz - 1)"
  have s1: "unat (sz - 1) = unat sz - 1"
    using assms(1) unat_sub [of 1 sz] by (simp add: word_le_nat_alt)
  then have e: "unat ?e = unat va + unat sz - 1"
    using assms by (simp add: unat_word_ariths)
  have le: "unat va div 4096 \<le> (unat va + unat sz - 1) div 4096"
    using assms(1) by (simp add: div_le_mono)
  have "PGROUNDDOWN va \<le> PGROUNDDOWN ?e"
    using le by (simp add: word_le_nat_alt unat_PGROUNDDOWN e)
  then have "unat (PGROUNDDOWN ?e - PGROUNDDOWN va) =
      4096 * ((unat va + unat sz - 1) div 4096) - 4096 * (unat va div 4096)"
    by (simp only: unat_sub unat_PGROUNDDOWN e)
  then show "unat ((PGROUNDDOWN (va + sz - 1) - PGROUNDDOWN va) div 4096) =
      (unat va + unat sz - 1) div 4096 - unat va div 4096"
    by (simp add: unat_div add_diff_eq flip: right_diff_distrib')
  have "4096 * ((unat va + unat sz - 1) div 4096) \<le> unat va + unat sz - 1"
    by (rule times_div_less_eq_dividend)
  then show "unat (PGROUNDDOWN va) + 4096 * ((unat va + unat sz - 1) div 4096 - unat va div 4096) < 4294967296"
    using le assms by (simp add: unat_PGROUNDDOWN flip: distrib_left)
qed

lemma mappages_maps:
  assumes "space s pgd fl" "0 < unat sz" "unat va + unat sz \<le> 4294967296"
    "\<And>v. pages_from (PGROUNDDOWN va) (npages va sz) v \<Longrightarrow> lookup (mem s) pgd v AND PTE_P = 0"
  obtains r s' fl' where "mappages pgd va sz pa perm s = OK (r, s')"
    "mapped s fl pgd (PGROUNDDOWN va) (npages va sz) pa perm r s' fl'"
  using mappages_loop_maps [OF assms(1) PGROUNDDOWN_aligned mappages_rounds(2) [OF assms(2,3)]
      assms(4) [unfolded npages_def], of pa perm] mappages_rounds(1) [OF assms(2,3)]
  by (auto simp: mappages_def Let_def npages_def)

lemma mappages_one:
  assumes "a mod 4096 = 0"
  shows "mappages pgd a 4096 pa perm s = map_page pgd a pa perm s"
proof -
  obtain k where k: "unat a = 4096 * k" using assms unfolding unat_page_0 dvd_def by blast
  have b: "k < 1048576" using k unat_bound [of a] by simp
  have "(4096 * k + 4095) div 4096 = k" by simp
  then have "unat ((PGROUNDDOWN (a + 4096 - 1) - PGROUNDDOWN a) div 4096) = 0"
    using mappages_rounds(1) [of 4096 a] k b by simp
  then show ?thesis by (simp add: mappages_def Let_def PGROUNDDOWN_id [OF assms])
qed

end
