(* ===== verification/Vm_User.thy ===== *)
theory Vm_User
  imports Vm_Space
begin

text \<open>
  The user half of an address space: which pages are there, that each has a page of memory of its
  own, and what growing, shrinking and copying an address space do to them.
\<close>

subsection \<open>User pages\<close>

definition uaddr :: "nat \<Rightarrow> u32" where
  "uaddr k = word_of_nat (4096 * k)"

definition upresent :: "mem \<Rightarrow> u32 \<Rightarrow> nat \<Rightarrow> bool" where
  "upresent m pgd k \<longleftrightarrow> lookup m pgd (uaddr k) AND PTE_P \<noteq> 0"

definition upage :: "mem \<Rightarrow> u32 \<Rightarrow> nat \<Rightarrow> u32" where
  "upage m pgd k = P2V (PTE_ADDR (lookup m pgd (uaddr k)))"

text \<open>
  The address space \<open>pgd\<close> has the user pages \<open>P\<close>: exactly these are present, and each has a page of
  memory that is no other user page, not the directory, no page table and not free.
\<close>

definition uspace :: "'z mstate_scheme \<Rightarrow> u32 \<Rightarrow> nat set \<Rightarrow> u32 list \<Rightarrow> bool" where
  "uspace s pgd P fl \<longleftrightarrow> space s pgd fl \<and> P \<subseteq> {..<524288} \<and>
     (\<forall>k < 524288. upresent (mem s) pgd k \<longleftrightarrow> k \<in> P) \<and>
     (\<forall>k \<in> P. page_ok (kend s) (upage (mem s) pgd k)) \<and> inj_on (upage (mem s) pgd) P \<and>
     (\<forall>k \<in> P. upage (mem s) pgd k \<notin> insert pgd (tables (mem s) pgd \<union> set fl))"

lemma unat_uaddr: "k < 1048576 \<Longrightarrow> unat (uaddr k) = 4096 * k"
  by (simp add: uaddr_def unat_of_nat del: of_nat_mult)

lemma uaddr_aligned: "k < 1048576 \<Longrightarrow> uaddr k mod 4096 = 0"
  by (simp add: unat_page_0 unat_uaddr)

lemma uaddr_page: "k < 1048576 \<Longrightarrow> PGROUNDDOWN (uaddr k) = uaddr k"
  by (simp add: PGROUNDDOWN_id uaddr_aligned)

lemma uaddr_inj: "uaddr j = uaddr k \<Longrightarrow> j < 1048576 \<Longrightarrow> k < 1048576 \<Longrightarrow> j = k"
  by (drule arg_cong [where f = unat]) (simp add: unat_uaddr)

lemma uaddr_Suc: "uaddr (Suc k) = uaddr k + 4096"
  by (simp add: uaddr_def)

lemma PGROUNDDOWN_uaddr: "PGROUNDDOWN va = uaddr (unat va div 4096)"
proof -
  have "unat va div 4096 < 1048576" using unat_bound [of va] by (simp add: less_mult_imp_div_less)
  then show ?thesis by (simp add: word_unat_eq_iff unat_PGROUNDDOWN unat_uaddr)
qed

lemma uspaceD:
  assumes "uspace s pgd P fl"
  shows "space s pgd fl" "P \<subseteq> {..<524288}" "\<And>k. k < 524288 \<Longrightarrow> upresent (mem s) pgd k \<longleftrightarrow> k \<in> P"
    "\<And>k. k \<in> P \<Longrightarrow> page_ok (kend s) (upage (mem s) pgd k)" "inj_on (upage (mem s) pgd) P"
    "\<And>k. k \<in> P \<Longrightarrow> upage (mem s) pgd k \<notin> insert pgd (tables (mem s) pgd \<union> set fl)"
    "\<And>k. k \<in> P \<Longrightarrow> k < 524288"
  using assms unfolding uspace_def by (auto dest: subsetD)

lemma upage_store:
  assumes "\<And>va. lookup m' pgd va = (if PGROUNDDOWN va = uaddr k then w else lookup m pgd va)"
    "j < 1048576" "k < 1048576"
  shows "upresent m' pgd j = (if j = k then w AND PTE_P \<noteq> 0 else upresent m pgd j)"
    and "upage m' pgd j = (if j = k then P2V (PTE_ADDR w) else upage m pgd j)"
  using assms uaddr_inj [of j k] by (auto simp: upresent_def upage_def uaddr_page)

lemma free_user_page:
  fixes s :: "'z mstate_scheme"
  assumes "uspace s pgd P fl" "k \<in> P"
  defines "pte \<equiv> tab (mem s) pgd (PDX (uaddr k)) + 4 * PTX (uaddr k)"
  obtains s1 s' where "kfree s (upage (mem s) pgd k) = OK s1" "s' = s1\<lparr>mem := store32 (mem s1) pte 0\<rparr>"
    "uspace s' pgd (P - {k}) (upage (mem s) pgd k # fl)"
    "\<And>va. lookup (mem s') pgd va = (if PGROUNDDOWN va = uaddr k then 0 else lookup (mem s) pgd va)"
    "only_in (insert (upage (mem s) pgd k) (tables (mem s) pgd)) (mem s) (mem s')"
    "tables (mem s') pgd = tables (mem s) pgd" "kend s' = kend s" "kdata s' = kdata s"
proof -
  note u = uspaceD [OF assms(1)]
  note sd = spaceD [OF u(1)]
  let ?v = "upage (mem s) pgd k"
  have k: "k < 1048576" using u(7) [OF assms(2)] by simp
  have tp: "tab_present (mem s) pgd (PDX (uaddr k))"
    using u(3) [OF u(7) [OF assms(2)]] assms(2) by (auto simp: upresent_def lookup_def split: if_splits)
  obtain s1 where s1: "kfree s ?v = OK s1" "space s1 pgd (?v # fl)" "only_in {?v} (mem s) (mem s1)"
    "tables (mem s1) pgd = tables (mem s) pgd" "\<And>va. lookup (mem s1) pgd va = lookup (mem s) pgd va"
    "kend s1 = kend s" "kdata s1 = kdata s"
    using space_kfree [OF u(1) u(4,6) [OF assms(2)]] by metis
  have "tab_present (mem s1) pgd (PDX (uaddr k))" "tab (mem s1) pgd (PDX (uaddr k)) = tab (mem s) pgd (PDX (uaddr k))"
    using directory_kept [OF s1(3) sd(5) _ unat_PDX, of "uaddr k"] tp u(6) [OF assms(2)] by auto
  note se = store_entry [OF s1(2) this(1), of 0, unfolded this(2), folded pte_def]
  let ?s' = "s1\<lparr>mem := store32 (mem s1) pte 0\<rparr>"
  have l: "lookup (mem ?s') pgd va = (if PGROUNDDOWN va = uaddr k then 0 else lookup (mem s) pgd va)" for va
    using se(4) [of va] s1(5) [of va] by (simp add: same_entry uaddr_page [OF k])
  note us = upage_store [OF l _ k]
  have "uspace ?s' pgd (P - {k}) (?v # fl)"
    unfolding uspace_def
  proof (intro conjI allI impI ballI)
    show "space ?s' pgd (?v # fl)" by (rule se(1))
    show "P - {k} \<subseteq> {..<524288}" using u(2) by blast
    show "upresent (mem ?s') pgd j \<longleftrightarrow> j \<in> P - {k}" if "j < 524288" for j
      using us(1) [of j] u(3) [OF that] that by simp
    have eq: "upage (mem ?s') pgd j = upage (mem s) pgd j" if "j \<in> P - {k}" for j
      using us(2) [of j] u(7) [of j] that by simp
    show "page_ok (kend ?s') (upage (mem ?s') pgd j)" if "j \<in> P - {k}" for j
      using eq [OF that] u(4) [of j] that s1(6) by simp
    show "inj_on (upage (mem ?s') pgd) (P - {k})"
      using u(5) eq by (auto simp: inj_on_def)
    have "upage (mem s) pgd j \<noteq> ?v" if "j \<in> P - {k}" for j
      using u(5) assms(2) that by (auto dest: inj_onD)
    then show "upage (mem ?s') pgd j \<notin> insert pgd (tables (mem ?s') pgd \<union> set (?v # fl))" if "j \<in> P - {k}" for j
      using eq [OF that] u(6) [of j] se(2) s1(4) that by simp
  qed
  moreover have "only_in (insert ?v (tables (mem s) pgd)) (mem s) (mem ?s')"
    using only_in_trans [OF s1(3) se(3)] s1(4) by auto
  ultimately show thesis using that [OF s1(1) refl] l se(2) s1(4,6,7) by simp
qed

subsection \<open>Shrinking\<close>

definition shrunk :: "'z mstate_scheme \<Rightarrow> u32 \<Rightarrow> nat set \<Rightarrow> u32 list \<Rightarrow> 'z mstate_scheme \<Rightarrow> nat set \<Rightarrow> u32 list \<Rightarrow> bool" where
  "shrunk s pgd P fl s' P' fl' \<longleftrightarrow> uspace s' pgd P' fl' \<and> P' \<subseteq> P \<and>
     set fl' = set fl \<union> upage (mem s) pgd ` (P - P') \<and>
     (\<forall>va. unat va div 4096 \<notin> P - P' \<longrightarrow> lookup (mem s') pgd va = lookup (mem s) pgd va) \<and>
     only_in (tables (mem s) pgd \<union> upage (mem s) pgd ` (P - P')) (mem s) (mem s') \<and>
     tables (mem s') pgd = tables (mem s) pgd \<and> kend s' = kend s \<and> kdata s' = kdata s"

lemma shrunk_refl: "uspace s pgd P fl \<Longrightarrow> shrunk s pgd P fl s P fl"
  by (simp add: shrunk_def)

lemma upage_kept:
  "lookup m' pgd (uaddr k) = lookup m pgd (uaddr k) \<Longrightarrow> upage m' pgd k = upage m pgd k"
  by (simp add: upage_def)

lemma uaddr_div: "k < 1048576 \<Longrightarrow> unat (uaddr k) div 4096 = k"
  by (simp add: unat_uaddr)

lemma shrunk_trans:
  assumes "shrunk s pgd P fl s1 P1 fl1" "shrunk s1 pgd P1 fl1 s2 P2 fl2" "uspace s pgd P fl"
  shows "shrunk s pgd P fl s2 P2 fl2"
proof -
  note a = assms(1) [unfolded shrunk_def] and b = assms(2) [unfolded shrunk_def]
  have sub: "P2 \<subseteq> P1" "P1 \<subseteq> P" using a b by auto
  then have d: "P - P2 = (P - P1) \<union> (P1 - P2)" by blast
  have up: "upage (mem s1) pgd k = upage (mem s) pgd k" if "k \<in> P1 - P2" for k
  proof (rule upage_kept)
    have "k < 524288" using uspaceD(2) [OF assms(3)] sub that by blast
    then show "lookup (mem s1) pgd (uaddr k) = lookup (mem s) pgd (uaddr k)"
      using a that uaddr_div [of k] by simp
  qed
  then have im: "upage (mem s1) pgd ` (P1 - P2) = upage (mem s) pgd ` (P1 - P2)" by (rule image_cong [OF refl])
  have "only_in (tables (mem s) pgd \<union> upage (mem s) pgd ` (P - P2)) (mem s) (mem s2)"
    by (rule only_in_trans [of "tables (mem s) pgd \<union> upage (mem s) pgd ` (P - P1)" _ "mem s1"
          "tables (mem s1) pgd \<union> upage (mem s1) pgd ` (P1 - P2)"])
       (use a b sub im in auto)
  moreover have "set fl2 = set fl \<union> upage (mem s) pgd ` (P - P2)"
    unfolding d image_Un im [symmetric] using a b by blast
  moreover have "\<forall>va. unat va div 4096 \<notin> P - P2 \<longrightarrow> lookup (mem s2) pgd va = lookup (mem s) pgd va"
    using a b unfolding d by simp
  ultimately show ?thesis using a b sub unfolding shrunk_def by auto
qed

lemma page_number: "k < 1048576 \<Longrightarrow> PGROUNDDOWN va = uaddr k \<longleftrightarrow> unat va div 4096 = k"
proof -
  assume k: "k < 1048576"
  have "unat va div 4096 < 1048576" using unat_bound [of va] by (simp add: less_mult_imp_div_less)
  then show ?thesis unfolding PGROUNDDOWN_uaddr using uaddr_inj [of "unat va div 4096" k] k by auto
qed

lemma shrunk_page:
  assumes "uspace s pgd P fl" "k \<in> P"
  defines "pte \<equiv> tab (mem s) pgd (PDX (uaddr k)) + 4 * PTX (uaddr k)"
  obtains s1 where "kfree s (upage (mem s) pgd k) = OK s1"
    "shrunk s pgd P fl (s1\<lparr>mem := store32 (mem s1) pte 0\<rparr>) (P - {k}) (upage (mem s) pgd k # fl)"
proof -
  obtain s1 s' where s': "kfree s (upage (mem s) pgd k) = OK s1" "s' = s1\<lparr>mem := store32 (mem s1) pte 0\<rparr>"
    "uspace s' pgd (P - {k}) (upage (mem s) pgd k # fl)"
    "\<And>va. lookup (mem s') pgd va = (if PGROUNDDOWN va = uaddr k then 0 else lookup (mem s) pgd va)"
    "only_in (insert (upage (mem s) pgd k) (tables (mem s) pgd)) (mem s) (mem s')"
    "tables (mem s') pgd = tables (mem s) pgd" "kend s' = kend s" "kdata s' = kdata s"
    using free_user_page [OF assms(1,2)] unfolding pte_def by metis
  have k: "k < 1048576" using uspaceD(7) [OF assms(1,2)] by simp
  have d: "P - (P - {k}) = {k}" using assms(2) by auto
  have "shrunk s pgd P fl s' (P - {k}) (upage (mem s) pgd k # fl)"
    unfolding shrunk_def d using s'(3,5-) s'(4) page_number [OF k] by (simp add: insert_commute)
  then show thesis using that s'(1,2) by blast
qed

text \<open>Where an address has no page table, the loop goes on behind the four megabytes of the table.\<close>

lemma unat_PDX_eq: "unat (PDX va) = unat va div 4194304"
proof -
  have "unat va div 4194304 < 1024" using unat_bound [of va] by (simp add: less_mult_imp_div_less)
  then show ?thesis
    by (simp add: PDX_def mask_ten unsigned_take_bit_eq unsigned_drop_bit_eq take_bit_eq_mod drop_bit_eq_div
      unat_mod unat_div)
qed

lemma next_table:
  assumes "j < 524288"
  shows "PGADDR (PDX (uaddr j) + 1) 0 0 = uaddr (1024 * Suc (j div 1024))"
proof -
  have p: "unat (PDX (uaddr j)) = j div 1024" using assms by (simp add: unat_PDX_eq unat_uaddr div_mult2_eq [symmetric])
  have b: "j div 1024 < 512" using assms by simp
  have "unat (PGADDR (PDX (uaddr j) + 1) 0 0) = 4194304 * Suc (j div 1024)"
    using p b by (simp add: PGADDR_def push_bit_eq_mult unat_word_ariths)
  moreover have "unat (uaddr (1024 * Suc (j div 1024))) = 4194304 * Suc (j div 1024)"
    using b by (subst unat_uaddr) auto
  ultimately show ?thesis by (simp only: word_unat_eq_iff)
qed

lemma no_table_no_page:
  assumes "uspace s pgd P fl" "\<not> tab_present (mem s) pgd (PDX (uaddr j))" "j < 524288"
    "j \<le> k" "k < 1024 * Suc (j div 1024)"
  shows "k \<notin> P"
proof
  assume "k \<in> P"
  then have k: "k < 524288" "upresent (mem s) pgd k" using uspaceD(3,7) [OF assms(1)] by auto
  have "k div 1024 = j div 1024" using assms(4,5) by (simp add: div_nat_eqI)
  then have "PDX (uaddr k) = PDX (uaddr j)"
    using k(1) assms(3) by (simp add: word_unat_eq_iff unat_PDX_eq unat_uaddr div_mult2_eq [symmetric])
  then show False using k(2) assms(2) by (simp add: upresent_def lookup_def)
qed

definition upages :: "u32 \<Rightarrow> nat" where
  "upages sz = (unat sz + 4095) div 4096"

lemma uaddr_less: "j < 1048576 \<Longrightarrow> uaddr j < sz \<longleftrightarrow> j < upages sz"
  by (auto simp: word_less_nat_alt unat_uaddr upages_def)

lemma user_entry:
  assumes "uspace s pgd P fl" "j < 524288" "tab_present (mem s) pgd (PDX (uaddr j))"
  defines "pte \<equiv> tab (mem s) pgd (PDX (uaddr j)) + 4 * PTX (uaddr j)"
  shows "pte \<noteq> 0" "load32 (mem s) pte AND PTE_P \<noteq> 0 \<longleftrightarrow> j \<in> P" "load32 (mem s) pte = lookup (mem s) pgd (uaddr j)"
proof -
  note u = uspaceD [OF assms(1)]
  note sd = spaceD [OF u(1)]
  show "pte \<noteq> 0"
    unfolding pte_def by (rule table_entry_nonzero [OF sd(8) [OF tab_in_tables [OF assms(3)]] sd(2) unat_PTX])
  show "load32 (mem s) pte = lookup (mem s) pgd (uaddr j)" using assms(3) by (simp add: lookup_def pte_def)
  then show "load32 (mem s) pte AND PTE_P \<noteq> 0 \<longleftrightarrow> j \<in> P" using u(3) [OF assms(2)] by (simp add: upresent_def)
qed

lemma upage_addr_nonzero:
  assumes "uspace s pgd P fl" "j \<in> P"
  shows "PTE_ADDR (lookup (mem s) pgd (uaddr j)) \<noteq> 0"
proof
  assume "PTE_ADDR (lookup (mem s) pgd (uaddr j)) = 0"
  then have "upage (mem s) pgd j = KERNBASE" by (simp add: upage_def P2V_def)
  then show False
    using uspaceD(4) [OF assms] spaceD(11) [OF uspaceD(1) [OF assms(1)]] by (auto simp: page_ok_def)
qed

lemma deallocuvm_round:
  assumes "uspace s pgd P fl" "j < upages oldsz" "j < 524288"
  obtains s1 P1 fl1 j1 where "deallocuvm_loop pgd (uaddr j) oldsz s = deallocuvm_loop pgd (uaddr j1) oldsz s1"
    "shrunk s pgd P fl s1 P1 fl1" "j < j1" "j1 \<le> 524288" "P - {j..<e} = P1 - {j1..<e} \<or> e \<le> j"
proof (cases "tab_present (mem s) pgd (PDX (uaddr j))")
  case False
  let ?j1 = "1024 * Suc (j div 1024)"
  have j1: "j < ?j1" "?j1 \<le> 524288" using assms(3) by (simp_all add: dividend_less_times_div)
  have "\<not> uaddr ?j1 \<le> uaddr j" using j1 by (simp add: word_le_nat_alt unat_uaddr)
  then have "deallocuvm_loop pgd (uaddr j) oldsz s = deallocuvm_loop pgd (uaddr ?j1) oldsz s"
    using assms(2,3) False
    by (subst deallocuvm_loop.simps) (simp add: uaddr_less walkpgdir_absent next_table Let_def)
  moreover have "P - {j..<e} = P - {?j1..<e}"
    using no_table_no_page [OF assms(1) False assms(3)] j1 by auto
  ultimately show thesis using that [of ?j1 s P fl] shrunk_refl [OF assms(1)] j1 by blast
next
  case True
  note ue = user_entry [OF assms(1,3) True]
  let ?pte = "tab (mem s) pgd (PDX (uaddr j)) + 4 * PTX (uaddr j)"
  have nx: "\<not> uaddr j + 4096 \<le> uaddr j"
    using assms(3) by (simp add: word_le_nat_alt unat_uaddr flip: uaddr_Suc)
  show thesis
  proof (cases "j \<in> P")
    case jP: True
    obtain s1 where s1: "kfree s (upage (mem s) pgd j) = OK s1"
      "shrunk s pgd P fl (s1\<lparr>mem := store32 (mem s1) ?pte 0\<rparr>) (P - {j}) (upage (mem s) pgd j # fl)"
      using shrunk_page [OF assms(1) jP] by blast
    have "deallocuvm_loop pgd (uaddr j) oldsz s =
        deallocuvm_loop pgd (uaddr (Suc j)) oldsz (s1\<lparr>mem := store32 (mem s1) ?pte 0\<rparr>)"
      using assms(2,3) ue jP upage_addr_nonzero [OF assms(1) jP] s1(1) nx
      by (subst deallocuvm_loop.simps)
         (simp add: uaddr_less walkpgdir_present [OF True] uaddr_Suc upage_def)
    moreover have "P - {j..<e} = P - {j} - {Suc j..<e} \<or> e \<le> j"
      by auto
    ultimately show ?thesis using that s1(2) assms(3) by (meson Suc_leI lessI)
  next
    case False
    have "deallocuvm_loop pgd (uaddr j) oldsz s = deallocuvm_loop pgd (uaddr (Suc j)) oldsz s"
      using assms(2,3) ue False nx
      by (subst deallocuvm_loop.simps) (simp add: uaddr_less walkpgdir_present [OF True] uaddr_Suc)
    moreover have "P - {j..<e} = P - {Suc j..<e}"
      using False by (auto simp: not_less_eq_eq le_antisym)
    ultimately show ?thesis using that [of "Suc j" s P fl] shrunk_refl [OF assms(1)] assms(3) by simp
  qed
qed

lemma deallocuvm_loop_shrinks:
  assumes "uspace s pgd P fl" "unat oldsz \<le> 2147483648" "j \<le> 524288"
  shows "\<exists>s' fl'. deallocuvm_loop pgd (uaddr j) oldsz s = OK s' \<and> shrunk s pgd P fl s' (P - {j..<upages oldsz}) fl'"
  using assms
proof (induction "524288 - j" arbitrary: j s P fl rule: less_induct)
  case less
  show ?case
  proof (cases "j < upages oldsz")
    case False
    then have "deallocuvm_loop pgd (uaddr j) oldsz s = OK s"
      using less.prems(3) by (subst deallocuvm_loop.simps) (simp add: uaddr_less)
    then show ?thesis using False shrunk_refl [OF less.prems(1)] by auto
  next
    case True
    have "upages oldsz \<le> 524288" using less.prems(2) by (simp add: upages_def)
    then have j: "j < 524288" using True by simp
    obtain s1 P1 fl1 j1 where r: "deallocuvm_loop pgd (uaddr j) oldsz s = deallocuvm_loop pgd (uaddr j1) oldsz s1"
      "shrunk s pgd P fl s1 P1 fl1" "j < j1" "j1 \<le> 524288" "P - {j..<upages oldsz} = P1 - {j1..<upages oldsz}"
      using deallocuvm_round [OF less.prems(1) True j, of "upages oldsz"] True by (metis not_le)
    have "uspace s1 pgd P1 fl1" using r(2) by (simp add: shrunk_def)
    moreover have "524288 - j1 < 524288 - j" using r(3) j by simp
    ultimately obtain s' fl' where "deallocuvm_loop pgd (uaddr j1) oldsz s1 = OK s'"
      "shrunk s1 pgd P1 fl1 s' (P1 - {j1..<upages oldsz}) fl'"
      using less.hyps [of j1 s1 P1 fl1] r(4) less.prems(2) by blast
    then show ?thesis using r shrunk_trans [OF r(2) _ less.prems(1)] by metis
  qed
qed

lemma PGROUNDUP_uaddr: "unat sz \<le> 2147483648 \<Longrightarrow> PGROUNDUP sz = uaddr (upages sz)"
proof -
  assume "unat sz \<le> 2147483648"
  then have "unat (sz + 4095) = unat sz + 4095" by (simp add: unat_word_ariths)
  then show ?thesis
    using PGROUNDDOWN_uaddr [of "sz + 4095"] by (simp add: PGROUNDUP_def PGROUNDDOWN_def upages_def add.commute)
qed

lemma deallocuvm_shrinks:
  assumes "uspace s pgd P fl" "newsz < oldsz" "unat oldsz \<le> 2147483648"
  obtains s' fl' where "deallocuvm pgd oldsz newsz s = OK (newsz, s')"
    "shrunk s pgd P fl s' (P - {upages newsz..<upages oldsz}) fl'"
proof -
  have n: "unat newsz \<le> 2147483648" using assms(2,3) by (simp add: word_less_nat_alt)
  then have "upages newsz \<le> 524288" by (simp add: upages_def)
  then obtain s' fl' where "deallocuvm_loop pgd (uaddr (upages newsz)) oldsz s = OK s'"
    "shrunk s pgd P fl s' (P - {upages newsz..<upages oldsz}) fl'"
    using deallocuvm_loop_shrinks [OF assms(1,3), of "upages newsz"] by blast
  moreover have "\<not> oldsz \<le> newsz" using assms(2) by simp
  ultimately show thesis using that by (simp add: deallocuvm_def PGROUNDUP_uaddr [OF n])
qed

subsection \<open>Growing\<close>

text \<open>An address space is left alone by writes that stay out of its pages.\<close>

definition owned :: "mem \<Rightarrow> u32 \<Rightarrow> nat set \<Rightarrow> u32 set" where
  "owned m pgd P = insert pgd (tables m pgd \<union> upage m pgd ` P)"

lemma uspace_owned_free: "uspace s pgd P fl \<Longrightarrow> owned (mem s) pgd P \<inter> set fl = {}"
  using spaceD(4,7) [OF uspaceD(1)] uspaceD(6) by (fastforce simp: owned_def)

lemma uspace_kept:
  assumes "uspace s pgd P fl" "only_in Q (mem s) (mem s')" "free_list s' fl'" "owned (mem s) pgd P \<inter> set fl' = {}" "kend s' = kend s"
    "Q \<inter> owned (mem s) pgd P = {}"
  shows "uspace s' pgd P fl'" "tables (mem s') pgd = tables (mem s) pgd"
    "lookup (mem s') pgd va = lookup (mem s) pgd va"
proof -
  note u = uspaceD [OF assms(1)]
  note sd = spaceD [OF u(1)]
  have q: "pgd \<notin> Q" "tables (mem s) pgd \<inter> Q = {}" using assms(6) by (auto simp: owned_def)
  note k = directory_kept [OF assms(2) sd(5) q(1)]
  show t: "tables (mem s') pgd = tables (mem s) pgd" by (rule tables_kept [OF assms(2) sd(5) q(1)])
  have l: "lookup (mem s') pgd va = lookup (mem s) pgd va" for va by (rule lookup_kept [OF u(1) assms(2) q])
  then show "lookup (mem s') pgd va = lookup (mem s) pgd va" .
  have e: "{d. unat d < 1024 \<and> tab_present (mem s') pgd d} = {d. unat d < 1024 \<and> tab_present (mem s) pgd d}"
    using k(1) by blast
  have "inj_on (tab (mem s') pgd) {d. unat d < 1024 \<and> tab_present (mem s') pgd d}"
    unfolding e using sd(10) k(2) by (auto simp: inj_on_def)
  then have sp: "space s' pgd fl'" using sd t assms(3-5) by (auto simp: space_def owned_def)
  have "upresent (mem s') pgd = upresent (mem s) pgd" "upage (mem s') pgd = upage (mem s) pgd"
    by (simp_all add: fun_eq_iff upresent_def upage_def l)
  then show "uspace s' pgd P fl'" using sp t assms(1,4,5) by (auto simp: uspace_def owned_def)
qed

text \<open>Taking a page for a user's memory, and filling it.\<close>

lemma uspace_take:
  assumes "uspace s pgd P (p # ps)" "only_in {p} (mem s) m1"
  shows "uspace (s\<lparr>freelist := load32 (mem s) p, mem := m1\<rparr>) pgd P ps"
    "tables m1 pgd = tables (mem s) pgd" "lookup m1 pgd va = lookup (mem s) pgd va"
    "p \<notin> insert pgd (tables m1 pgd \<union> set ps \<union> upage m1 pgd ` P)"
proof -
  note u = uspaceD [OF assms(1)]
  note k = space_kalloc [OF u(1)]
  let ?s1 = "s\<lparr>freelist := load32 (mem s) p, mem := m1\<rparr>"
  have up: "p \<notin> upage (mem s) pgd ` P" using u(6) by auto
  have f: "free_list ?s1 ps"
    using only_in_free_list [of "{p}" "s\<lparr>freelist := load32 (mem s) p\<rparr>" m1 ps] assms(2) spaceD(1) [OF k(2)] k(3) by simp
  have q: "{p} \<inter> owned (mem s) pgd P = {}" "owned (mem s) pgd P \<inter> set ps = {}"
    using uspace_owned_free [OF assms(1)] by auto
  note kp = uspace_kept [OF assms(1), of "{p}" ?s1 ps, OF _ f q(2) _ q(1)]
  show "uspace ?s1 pgd P ps" using kp(1) assms(2) by auto
  show t: "tables m1 pgd = tables (mem s) pgd" using kp(2) assms(2) by auto
  have l: "lookup m1 pgd va = lookup (mem s) pgd va" for va using kp(3) assms(2) by auto
  then show "lookup m1 pgd va = lookup (mem s) pgd va" .
  have "upage m1 pgd = upage (mem s) pgd" by (simp add: fun_eq_iff upage_def l)
  then show "p \<notin> insert pgd (tables m1 pgd \<union> set ps \<union> upage m1 pgd ` P)" using k up t by auto
qed

lemma user_flags:
  assumes "(p :: u32) mod 4096 = 0" "unat perm < 4096"
  shows "P2V (PTE_ADDR (V2P p OR perm OR PTE_P)) = p" "PTE_FLAGS (V2P p OR perm OR PTE_P) = perm OR PTE_P"
    "(V2P p OR perm OR PTE_P) AND PTE_P \<noteq> 0"
proof -
  have "take_bit 12 perm = perm" using assms(2) by (simp add: take_bit_eq_mod word_unat_eq_iff unat_mod)
  then have t: "take_bit 12 (perm OR 1) = perm OR 1" by (simp add: take_bit_or)
  have "unat (perm OR 1) mod 4096 = unat (perm OR 1)"
    using arg_cong [OF t, of unat] by (simp add: take_bit_eq_mod unat_mod)
  then have "unat (perm OR 1) < 4096" using mod_less_divisor [of 4096 "unat (perm OR 1)"] by simp
  note e = entry_flags [OF V2P_aligned [OF assms(1)] this]
  show "P2V (PTE_ADDR (V2P p OR perm OR PTE_P)) = p" "PTE_FLAGS (V2P p OR perm OR PTE_P) = perm OR PTE_P"
    using e by (simp_all add: or.assoc)
  have "odd (V2P p OR perm OR PTE_P)" by (simp flip: bit_0 add: bit_or_iff)
  then show "(V2P p OR perm OR PTE_P) AND PTE_P \<noteq> 0" by (simp add: and_one_eq mod_2_eq_odd)
qed

lemma map_user_page:
  assumes "uspace s pgd P fl" "page_ok (kend s) p" "k < 524288" "k \<notin> P" "unat perm < 4096"
    "p \<notin> insert pgd (tables (mem s) pgd \<union> set fl \<union> upage (mem s) pgd ` P)"
  obtains (ok) s' fl' where "mappages pgd (uaddr k) 4096 (V2P p) perm s = OK (0, s')"
      "uspace s' pgd (insert k P) fl'" "grown s fl pgd s' fl'"
      "\<And>va. lookup (mem s') pgd va = (if unat va div 4096 = k then V2P p OR perm OR PTE_P else lookup (mem s) pgd va)"
  | (full) "mappages pgd (uaddr k) 4096 (V2P p) perm s = OK (-1, s)" "fl = []"
proof -
  note u = uspaceD [OF assms(1)]
  have k: "k < 1048576" using assms(3) by simp
  have "lookup (mem s) pgd (uaddr k) AND PTE_P = 0" using u(3) [OF assms(3)] assms(4) by (simp add: upresent_def)
  then obtain r s' fl' where m: "map_page pgd (uaddr k) (V2P p) perm s = OK (r, s')"
    "mapped s fl pgd (uaddr k) (Suc 0) (V2P p) perm r s' fl'" "r \<noteq> 0 \<Longrightarrow> s' = s"
    using mapped_page [OF u(1) uaddr_aligned [OF k], of "V2P p" perm] by metis
  note one = mappages_one [OF uaddr_aligned [OF k], of pgd "V2P p" perm s]
  show thesis
  proof (cases "r = 0")
    case False
    then have "r = -1" "fl' = []" "s' = s" "grown s fl pgd s' fl'" using m by (auto simp: mapped_def)
    moreover from this have "fl = []" using grown_length [of s fl pgd s' fl'] u(1) by simp
    ultimately show ?thesis using full one m(1) by simp
  next
    case True
    have g: "grown s fl pgd s' fl'" using m(2) by (simp add: mapped_def)
    have l: "lookup (mem s') pgd va = (if PGROUNDDOWN va = uaddr k then V2P p OR perm OR PTE_P else lookup (mem s) pgd va)" for va
      using m(2) True unfolding mapped_def pages_from_one [OF uaddr_aligned [OF k]] by auto
    note us = upage_store [OF l _ k] and f = user_flags [OF page_ok_aligned [OF assms(2)] assms(5)]
    obtain used where used: "fl = used @ fl'" "tables (mem s') pgd = tables (mem s) pgd \<union> set used"
      using g unfolding grown_def by blast
    have sp: "space s' pgd fl'" and ke: "kend s' = kend s" using g by (simp_all add: grown_def)
    have up: "upage (mem s') pgd j = (if j = k then p else upage (mem s) pgd j)" if "j < 524288" for j
      using us(2) [of j] f(1) that by simp
    have "uspace s' pgd (insert k P) fl'"
      unfolding uspace_def
    proof (intro conjI allI impI ballI)
      show "insert k P \<subseteq> {..<524288}" using u(2) assms(3) by auto
      show "upresent (mem s') pgd j \<longleftrightarrow> j \<in> insert k P" if "j < 524288" for j
        using us(1) [of j] f(3) u(3) [OF that] that by simp
      show "page_ok (kend s') (upage (mem s') pgd j)" if "j \<in> insert k P" for j
        using up [of j] u(4,7) [of j] that assms(2,3) ke by auto
      show "inj_on (upage (mem s') pgd) (insert k P)"
      proof (rule inj_onI)
        fix i j assume ij: "i \<in> insert k P" "j \<in> insert k P" "upage (mem s') pgd i = upage (mem s') pgd j"
        have "i < 524288" "j < 524288" using ij(1,2) u(7) assms(3) by auto
        moreover have "upage (mem s) pgd x \<noteq> p" if "x \<in> P" for x using assms(6) that by blast
        ultimately show "i = j"
          using ij up [of i] up [of j] inj_onD [OF u(5), of i j] by (auto split: if_splits)
      qed
      show "upage (mem s') pgd j \<notin> insert pgd (tables (mem s') pgd \<union> set fl')" if "j \<in> insert k P" for j
        using up [of j] u(6,7) [of j] that assms(3,6) used by (auto split: if_splits)
    qed (rule sp)
    then show ?thesis using ok [of s' fl'] one m(1) True g l page_number [OF k] by simp
  qed
qed

text \<open>
  The address space has grown from the pages \<open>P\<close> to the pages \<open>P'\<close>: the new pages are writable by the
  user and come from the free list; what else was taken from there are page tables.
\<close>

definition grew :: "'z mstate_scheme \<Rightarrow> u32 \<Rightarrow> nat set \<Rightarrow> u32 list \<Rightarrow> 'z mstate_scheme \<Rightarrow> nat set \<Rightarrow> u32 list \<Rightarrow> bool" where
  "grew s pgd P fl s' P' fl' \<longleftrightarrow> uspace s' pgd P' fl' \<and> P \<subseteq> P' \<and>
     (\<exists>used. fl = used @ fl' \<and> tables (mem s) pgd \<subseteq> tables (mem s') pgd \<and>
        tables (mem s') pgd \<union> upage (mem s') pgd ` (P' - P) = tables (mem s) pgd \<union> set used) \<and>
     (\<forall>va. unat va div 4096 \<notin> P' - P \<longrightarrow> lookup (mem s') pgd va = lookup (mem s) pgd va) \<and>
     only_in (insert pgd (tables (mem s) pgd \<union> set fl)) (mem s) (mem s') \<and>
     (\<forall>k \<in> P' - P. lookup (mem s') pgd (uaddr k) = V2P (upage (mem s') pgd k) OR (PTE_W OR PTE_U) OR PTE_P) \<and>
     (\<forall>k \<in> P' - P. \<forall>a. in_page (upage (mem s') pgd k) a \<longrightarrow> mem s' a = 0) \<and>
     kend s' = kend s \<and> kdata s' = kdata s"

lemma grew_refl: "uspace s pgd P fl \<Longrightarrow> grew s pgd P fl s P fl"
  by (simp add: grew_def)

lemma only_in_page: "only_in Q m m' \<Longrightarrow> q mod 4096 = 0 \<Longrightarrow> q \<notin> Q \<Longrightarrow> in_page q a \<Longrightarrow> m' a = m a"
  by (auto simp: only_in_def)

lemma grew_trans:
  assumes "grew s pgd P fl s1 P1 fl1" "grew s1 pgd P1 fl1 s2 P2 fl2"
  shows "grew s pgd P fl s2 P2 fl2"
proof -
  note a = assms(1) [unfolded grew_def] and b = assms(2) [unfolded grew_def]
  have us: "uspace s1 pgd P1 fl1" "uspace s2 pgd P2 fl2" using a b by auto
  note u = uspaceD [OF us(1)]
  have sub: "P \<subseteq> P1" "P1 \<subseteq> P2" using a b by auto
  then have d: "P2 - P = (P1 - P) \<union> (P2 - P1)" by blast
  have lk: "lookup (mem s2) pgd (uaddr k) = lookup (mem s1) pgd (uaddr k)" if "k \<in> P1" for k
    using b that uaddr_div [of k] u(7) [of k] by auto
  then have up: "upage (mem s2) pgd k = upage (mem s1) pgd k" if "k \<in> P1" for k using that by (simp add: upage_def)
  obtain v where v: "fl = v @ fl1" "tables (mem s) pgd \<subseteq> tables (mem s1) pgd"
      "tables (mem s1) pgd \<union> upage (mem s1) pgd ` (P1 - P) = tables (mem s) pgd \<union> set v"
    using a by blast
  obtain w where w: "fl1 = w @ fl2" "tables (mem s1) pgd \<subseteq> tables (mem s2) pgd"
      "tables (mem s2) pgd \<union> upage (mem s2) pgd ` (P2 - P1) = tables (mem s1) pgd \<union> set w"
    using b by blast
  have im: "upage (mem s2) pgd ` (P2 - P) = upage (mem s1) pgd ` (P1 - P) \<union> upage (mem s2) pgd ` (P2 - P1)"
    unfolding d image_Un using up by (auto simp: image_iff)
  have un: "tables (mem s2) pgd \<union> upage (mem s2) pgd ` (P2 - P) = tables (mem s) pgd \<union> set (v @ w)"
    unfolding im using v(3) w(2,3) by auto
  have oi: "only_in (insert pgd (tables (mem s) pgd \<union> set fl)) (mem s) (mem s2)"
    by (rule only_in_trans [of "insert pgd (tables (mem s) pgd \<union> set fl)" _ "mem s1"
          "insert pgd (tables (mem s1) pgd \<union> set fl1)"]) (use a b v in auto)
  have z: "mem s2 x = 0" if k: "k \<in> P2 - P" and x: "in_page (upage (mem s2) pgd k) x" for k x
  proof (cases "k \<in> P1")
    case True
    then have m: "upage (mem s1) pgd k \<notin> insert pgd (tables (mem s1) pgd \<union> set fl1)"
        "upage (mem s1) pgd k mod 4096 = 0"
      using u(6) [of k] page_ok_aligned [OF u(4)] by auto
    have "mem s2 x = mem s1 x"
      by (rule only_in_page [of "insert pgd (tables (mem s1) pgd \<union> set fl1)" _ _ "upage (mem s1) pgd k"])
         (use b m x up [OF True] in auto)
    moreover have "mem s1 x = 0" using a k True x up [OF True] by auto
    ultimately show ?thesis by simp
  qed (use b k x in auto)
  have fl: "lookup (mem s2) pgd (uaddr k) = V2P (upage (mem s2) pgd k) OR (PTE_W OR PTE_U) OR PTE_P" if "k \<in> P2 - P" for k
    using a b that lk [of k] up [of k] by (cases "k \<in> P1") auto
  show ?thesis
    unfolding grew_def
  proof (intro conjI exI [of _ "v @ w"] allI impI ballI)
    show "lookup (mem s2) pgd va = lookup (mem s) pgd va" if "unat va div 4096 \<notin> P2 - P" for va
      using a b that unfolding d by simp
    show "fl = (v @ w) @ fl2" "tables (mem s) pgd \<subseteq> tables (mem s2) pgd" using v w by auto
    show "P \<subseteq> P2" using sub by blast
    show "kend s2 = kend s" "kdata s2 = kdata s" using a b by simp_all
  qed (fact us(2) un oi | rule fl, assumption | rule z, assumption+)+
qed

lemma grew_page:
  assumes "uspace s pgd P (p # ps)" "k < 524288" "k \<notin> P"
  defines "s1 \<equiv> s\<lparr>freelist := load32 (mem s) p, mem := memset (mem s) p 0 4096\<rparr>"
  obtains (ok) s' fl' where "mappages pgd (uaddr k) 4096 (V2P p) (PTE_W OR PTE_U) s1 = OK (0, s')"
      "grew s pgd P (p # ps) s' (insert k P) fl'"
      "length (p # ps) + card (tables (mem s) pgd) = Suc (length fl' + card (tables (mem s') pgd))"
  | (full) "mappages pgd (uaddr k) 4096 (V2P p) (PTE_W OR PTE_U) s1 = OK (-1, s1)" "ps = []"
proof -
  note u = uspaceD [OF assms(1)]
  note ka = space_kalloc [OF u(1)]
  have k: "k < 1048576" using assms(2) by simp
  have oi: "only_in {p} (mem s) (memset (mem s) p 0 4096)" by (rule only_in_memset) (use ka in auto)
  note t = uspace_take [OF assms(1) oi, folded s1_def]
  have m1: "mem s1 = memset (mem s) p 0 4096" "kend s1 = kend s" "kdata s1 = kdata s" by (simp_all add: s1_def)
  have pk: "page_ok (kend s1) p" using ka(4) m1 by simp
  have pn: "p \<notin> insert pgd (tables (mem s1) pgd \<union> set ps \<union> upage (mem s1) pgd ` P)" using t(4) m1 by simp
  have perm: "unat (PTE_W OR PTE_U) < 4096" by simp
  show thesis
  proof (cases rule: map_user_page [OF t(1) pk assms(2,3) perm pn, case_names ok full])
    case full
    then show ?thesis using that(2) by blast
  next
    case (ok s' fl')
    obtain used where used: "ps = used @ fl'" "tables (mem s') pgd = tables (mem s) pgd \<union> set used"
      using ok(3) t(2) m1 unfolding grown_def by auto
    have lk: "lookup (mem s') pgd (uaddr k) = V2P p OR (PTE_W OR PTE_U) OR PTE_P"
      using ok(4) [of "uaddr k"] uaddr_div [OF k] by simp
    then have up: "upage (mem s') pgd k = p" using user_flags(1) [OF ka(5) perm] by (simp add: upage_def)
    have d: "insert k P - P = {k}" using assms(3) by auto
    have oi2: "only_in (insert pgd (tables (mem s') pgd)) (mem s1) (mem s')" using ok(3) by (simp add: grown_def)
    have z: "mem s' a = 0" if "in_page p a" for a
    proof -
      have "mem s' a = mem s1 a"
        by (rule only_in_page [OF oi2 ka(5) _ that]) (use ka(3,7,8) used in auto)
      then show ?thesis using that m1 by (simp add: memset_eq in_page_def)
    qed
    have o3: "only_in (insert pgd (tables (mem s) pgd \<union> set (p # ps))) (mem s) (mem s')"
      by (rule only_in_trans [OF oi oi2 [unfolded m1(1)]]) (use used in auto)
    have "grew s pgd P (p # ps) s' (insert k P) fl'"
      unfolding grew_def d
    proof (intro conjI exI [of _ "p # used"] allI impI ballI)
      show "tables (mem s') pgd \<union> upage (mem s') pgd ` {k} = tables (mem s) pgd \<union> set (p # used)"
        using up used by auto
      show "lookup (mem s') pgd va = lookup (mem s) pgd va" if "unat va div 4096 \<notin> {k}" for va
        using ok(4) [of va] that t(3) [of va] m1 by simp
      show "lookup (mem s') pgd (uaddr j) = V2P (upage (mem s') pgd j) OR (PTE_W OR PTE_U) OR PTE_P" if "j \<in> {k}" for j
        using lk up that by simp
      show "mem s' a = 0" if "j \<in> {k}" "in_page (upage (mem s') pgd j) a" for j a
        using z up that by simp
      show "kend s' = kend s" "kdata s' = kdata s" using ok(3) m1 by (simp_all add: grown_def)
    qed (use ok(2) used o3 in auto)
    moreover have "length ps + card (tables (mem s) pgd) = length fl' + card (tables (mem s') pgd)"
      using grown_length [OF ok(3) uspaceD(1) [OF t(1)]] t(2) m1 by simp
    ultimately show ?thesis using that(1) ok(1) by simp
  qed
qed

lemma uspace_kfree:
  assumes "uspace s pgd P fl" "page_ok (kend s) v" "v \<notin> insert pgd (tables (mem s) pgd \<union> set fl \<union> upage (mem s) pgd ` P)"
  obtains s' where "kfree s v = OK s'" "uspace s' pgd P (v # fl)" "only_in {v} (mem s) (mem s')"
    "tables (mem s') pgd = tables (mem s) pgd" "\<And>va. lookup (mem s') pgd va = lookup (mem s) pgd va"
    "kend s' = kend s" "kdata s' = kdata s"
proof -
  note u = uspaceD [OF assms(1)]
  obtain s' where s': "kfree s v = OK s'" "space s' pgd (v # fl)" "only_in {v} (mem s) (mem s')"
    "tables (mem s') pgd = tables (mem s) pgd" "\<And>va. lookup (mem s') pgd va = lookup (mem s) pgd va"
    "kend s' = kend s" "kdata s' = kdata s"
    using space_kfree [OF u(1) assms(2)] assms(3) by blast
  have "upresent (mem s') pgd = upresent (mem s) pgd" "upage (mem s') pgd = upage (mem s) pgd"
    by (simp_all add: fun_eq_iff upresent_def upage_def s'(5))
  then have "uspace s' pgd P (v # fl)" using assms s' by (auto simp: uspace_def)
  then show thesis using that s' by blast
qed

text \<open>
  A call that ran out of memory has undone what it did: the pages from \<open>n\<close> on are gone, and every page
  that was free or held one of them is free again or a page table.
\<close>

definition undone :: "'z mstate_scheme \<Rightarrow> u32 \<Rightarrow> nat \<Rightarrow> nat \<Rightarrow> nat \<Rightarrow> u32 list \<Rightarrow> 'z mstate_scheme \<Rightarrow> u32 list \<Rightarrow> bool" where
  "undone s pgd n k N fl s' fl' \<longleftrightarrow> uspace s' pgd {..<n} fl' \<and>
     (\<forall>va. unat va div 4096 \<notin> {n..<N} \<longrightarrow> lookup (mem s') pgd va = lookup (mem s) pgd va) \<and>
     tables (mem s') pgd \<union> set fl' = tables (mem s) pgd \<union> set fl \<union> upage (mem s) pgd ` {n..<k} \<and>
     only_in (insert pgd (tables (mem s) pgd \<union> set fl \<union> upage (mem s) pgd ` {n..<k})) (mem s) (mem s') \<and>
     length fl + card (tables (mem s) pgd) \<le> N - k + 1024 \<and> kend s' = kend s \<and> kdata s' = kdata s"

lemma undone_start:
  assumes "uspace s pgd {..<k} fl" "newsz > oldsz" "unat newsz \<le> 2147483648"
    "upages oldsz \<le> k" "k < upages newsz" "length fl \<le> 1"
  obtains s' fl' where "deallocuvm pgd newsz oldsz s = OK (oldsz, s')"
    "undone s pgd (upages oldsz) k (upages newsz) fl s' fl'"
proof -
  let ?n = "upages oldsz" and ?N = "upages newsz"
  obtain s' fl' where s': "deallocuvm pgd newsz oldsz s = OK (oldsz, s')"
    "shrunk s pgd {..<k} fl s' ({..<k} - {?n..<?N}) fl'"
    using deallocuvm_shrinks [OF assms(1-3)] by blast
  have d: "{..<k} - {?n..<?N} = {..<?n}" "{..<k} - {..<?n} = {?n..<k}" using assms(4,5) by auto
  have "undone s pgd ?n k ?N fl s' fl'"
    using s'(2) assms(5,6) card_tables [of "mem s" pgd] unfolding d shrunk_def undone_def d
    by (auto elim!: only_in_mono)
  then show thesis using that s'(1) by blast
qed

lemma undone_step:
  assumes g: "grew s pgd {..<k} fl s1 {..<Suc k} fl1" and u: "undone s1 pgd n (Suc k) N fl1 s' fl'"
    and k: "n \<le> k" "k < N" "uspace s pgd {..<k} fl"
    and l: "length fl + card (tables (mem s) pgd) = Suc (length fl1 + card (tables (mem s1) pgd))"
  shows "undone s pgd n k N fl s' fl'"
proof -
  note a = g [unfolded grew_def] and b = u [unfolded undone_def]
  have d: "{..<Suc k} - {..<k} = {k}" by auto
  obtain used where used: "fl = used @ fl1" "tables (mem s) pgd \<subseteq> tables (mem s1) pgd"
    "insert (upage (mem s1) pgd k) (tables (mem s1) pgd) = tables (mem s) pgd \<union> set used"
    using a unfolding d by auto
  have "upage (mem s1) pgd j = upage (mem s) pgd j" if "j \<in> {n..<k}" for j
    by (rule upage_kept) (use a uaddr_div [of j] uspaceD(7) [OF k(3), of j] that in auto)
  then have im: "upage (mem s1) pgd ` {n..<Suc k} = insert (upage (mem s1) pgd k) (upage (mem s) pgd ` {n..<k})"
    using k(1) by (simp add: atLeastLessThanSuc)
  have st: "tables (mem s1) pgd \<union> set fl1 \<union> upage (mem s1) pgd ` {n..<Suc k} =
      tables (mem s) pgd \<union> set fl \<union> upage (mem s) pgd ` {n..<k}"
    unfolding im using used by auto
  show ?thesis
    unfolding undone_def
  proof (intro conjI allI impI)
    show "lookup (mem s') pgd va = lookup (mem s) pgd va" if "unat va div 4096 \<notin> {n..<N}" for va
      using a b that k(1,2) unfolding d by auto
    show "tables (mem s') pgd \<union> set fl' = tables (mem s) pgd \<union> set fl \<union> upage (mem s) pgd ` {n..<k}"
      using b st by simp
    show "only_in (insert pgd (tables (mem s) pgd \<union> set fl \<union> upage (mem s) pgd ` {n..<k})) (mem s) (mem s')"
      by (rule only_in_trans [of "insert pgd (tables (mem s) pgd \<union> set fl)" _ "mem s1"
            "insert pgd (tables (mem s1) pgd \<union> set fl1 \<union> upage (mem s1) pgd ` {n..<Suc k})"])
         (use a b st in auto)
    show "length fl + card (tables (mem s) pgd) \<le> N - k + 1024"
    proof -
      have "length fl1 + card (tables (mem s1) pgd) \<le> N - Suc k + 1024" using b by blast
      then show ?thesis using l k(2) by linarith
    qed
  qed (use a b in simp_all)
qed

lemma undone_free:
  assumes "undone s1 pgd n k N [] s2 fl2" "p \<notin> insert pgd (tables (mem s1) pgd \<union> upage (mem s1) pgd ` {..<k})"
    "page_ok (kend s1) p" "n \<le> k" "k < N" "uspace s pgd {..<k} [p]"
    "tables (mem s1) pgd = tables (mem s) pgd" "\<And>va. lookup (mem s1) pgd va = lookup (mem s) pgd va"
    "only_in {p} (mem s) (mem s1)" "kend s1 = kend s" "kdata s1 = kdata s"
  obtains s' where "kfree s2 p = OK s'" "undone s pgd n k N [p] s' (p # fl2)"
proof -
  note b = assms(1) [unfolded undone_def]
  have up: "upage (mem s1) pgd = upage (mem s) pgd" by (simp add: fun_eq_iff upage_def assms(8))
  have "upage (mem s2) pgd j = upage (mem s1) pgd j" if "j < n" for j
    by (rule upage_kept) (use b that uaddr_div [of j] uspaceD(7) [OF assms(6), of j] assms(4) in auto)
  then have im: "upage (mem s2) pgd ` {..<n} \<subseteq> upage (mem s1) pgd ` {..<k}" using assms(4) by force
  have "upage (mem s1) pgd ` {n..<k} \<subseteq> upage (mem s1) pgd ` {..<k}" by auto
  then have pn: "p \<notin> insert pgd (tables (mem s2) pgd \<union> set fl2 \<union> upage (mem s2) pgd ` {..<n})"
    using assms(2) b im by auto
  obtain s' where s': "kfree s2 p = OK s'" "uspace s' pgd {..<n} (p # fl2)" "only_in {p} (mem s2) (mem s')"
    "tables (mem s') pgd = tables (mem s2) pgd" "\<And>va. lookup (mem s') pgd va = lookup (mem s2) pgd va"
    "kend s' = kend s2" "kdata s' = kdata s2"
    using uspace_kfree [OF _ _ pn] b assms(3) by metis
  let ?Q = "insert pgd (tables (mem s) pgd \<union> set [p] \<union> upage (mem s) pgd ` {n..<k})"
  have "only_in ?Q (mem s) (mem s2)"
    by (rule only_in_trans [OF assms(9)]) (use b assms(7) up in auto)
  then have o: "only_in ?Q (mem s) (mem s')" by (rule only_in_trans [OF _ s'(3)]) auto
  have "undone s pgd n k N [p] s' (p # fl2)"
    unfolding undone_def
  proof (intro conjI allI impI)
    show "lookup (mem s') pgd va = lookup (mem s) pgd va" if "unat va div 4096 \<notin> {n..<N}" for va
      using b s'(5) that assms(8) by auto
    show "tables (mem s') pgd \<union> set (p # fl2) = tables (mem s) pgd \<union> set [p] \<union> upage (mem s) pgd ` {n..<k}"
      using b s'(4) up assms(7) by auto
    show "length [p] + card (tables (mem s) pgd) \<le> N - k + 1024"
      using card_tables [of "mem s" pgd] assms(5) by simp
  qed (use s' b assms o in simp_all)
  then show thesis using that s'(1) by blast
qed

lemma allocuvm_loop_grows:
  assumes "uspace s pgd {..<k} fl" "upages oldsz \<le> k" "k \<le> upages newsz" "unat newsz \<le> 2147483648"
  shows "\<exists>r s' fl'. allocuvm_loop pgd (uaddr k) oldsz newsz s = OK (r, s') \<and>
    (r = newsz \<and> grew s pgd {..<k} fl s' {..<upages newsz} fl' \<or>
     r = 0 \<and> undone s pgd (upages oldsz) k (upages newsz) fl s' fl')"
  using assms
proof (induction "upages newsz - k" arbitrary: k s fl)
  case 0
  then have "k = upages newsz" by simp
  moreover have "upages newsz \<le> 524288" using "0.prems"(4) by (simp add: upages_def)
  ultimately show ?case
    using grew_refl [OF "0.prems"(1)] by (subst allocuvm_loop.simps) (auto simp: uaddr_less)
next
  case (Suc d)
  then have kN: "k < upages newsz" by simp
  moreover have "upages newsz \<le> 524288" using Suc.prems(4) by (simp add: upages_def)
  ultimately have k: "k < 524288" by simp
  then have lt: "uaddr k < newsz" using kN by (simp add: uaddr_less)
  have sz: "newsz > oldsz"
  proof -
    have "upages oldsz < upages newsz" using kN Suc.prems(2) by simp
    then have "\<not> unat newsz \<le> unat oldsz"
      using div_le_mono [of "unat newsz + 4095" "unat oldsz + 4095" 4096] unfolding upages_def by linarith
    then show ?thesis by (simp add: word_less_nat_alt)
  qed
  note u = uspaceD [OF Suc.prems(1)]
  show ?case
  proof (cases fl)
    case Nil
    have ka: "kalloc s = (0, s)" using kalloc_free_list(1) [OF spaceD(1) [OF u(1)]] Nil by simp
    obtain s' fl' where "deallocuvm pgd newsz oldsz s = OK (oldsz, s')"
      "undone s pgd (upages oldsz) k (upages newsz) fl s' fl'"
      using undone_start [OF Suc.prems(1) sz Suc.prems(4,2) kN] Nil by (metis le0 list.size(3))
    then show ?thesis using lt ka by (subst allocuvm_loop.simps) auto
  next
    case (Cons p ps)
    note us = Suc.prems(1) [unfolded Cons]
    note ka = space_kalloc [OF uspaceD(1) [OF us]]
    have nk: "k \<notin> {..<k}" by simp
    let ?s1 = "s\<lparr>freelist := load32 (mem s) p, mem := memset (mem s) p 0 4096\<rparr>"
    show ?thesis
    proof (cases rule: grew_page [OF us k nk, case_names ok full])
      case (ok s1 fl1)
      have nx: "\<not> uaddr k + 4096 \<le> uaddr k" using k by (simp add: word_le_nat_alt unat_uaddr flip: uaddr_Suc)
      have st: "allocuvm_loop pgd (uaddr k) oldsz newsz s = allocuvm_loop pgd (uaddr (Suc k)) oldsz newsz s1"
        using lt ka(1,6) ok(1) nx by (subst allocuvm_loop.simps) (simp add: uaddr_Suc)
      have g: "grew s pgd {..<k} fl s1 {..<Suc k} fl1" using ok(2) Cons by (simp add: lessThan_Suc)
      then have "uspace s1 pgd {..<Suc k} fl1" by (simp add: grew_def)
      moreover have "d = upages newsz - Suc k" "upages oldsz \<le> Suc k" "Suc k \<le> upages newsz"
        using Suc.hyps(2) Suc.prems(2) kN by simp_all
      ultimately obtain r s' fl' where r: "allocuvm_loop pgd (uaddr (Suc k)) oldsz newsz s1 = OK (r, s')"
        "r = newsz \<and> grew s1 pgd {..<Suc k} fl1 s' {..<upages newsz} fl' \<or>
         r = 0 \<and> undone s1 pgd (upages oldsz) (Suc k) (upages newsz) fl1 s' fl'"
        using Suc.hyps(1) [of "Suc k" s1 fl1] Suc.prems(4) by blast
      then show ?thesis
        using st grew_trans [OF g] undone_step [OF g _ Suc.prems(2) kN Suc.prems(1)] ok(3) Cons by metis
    next
      case full
      have oi: "only_in {p} (mem s) (memset (mem s) p 0 4096)" by (rule only_in_memset) (use ka in auto)
      note t = uspace_take [OF us oi]
      have "uspace ?s1 pgd {..<k} []" using t(1) full(2) by simp
      then obtain s2 fl2 where s2: "deallocuvm pgd newsz oldsz ?s1 = OK (oldsz, s2)"
        "undone ?s1 pgd (upages oldsz) k (upages newsz) [] s2 fl2"
        using undone_start [OF _ sz Suc.prems(4,2) kN] by (metis le0 list.size(3))
      obtain s' where "kfree s2 p = OK s'" "undone s pgd (upages oldsz) k (upages newsz) [p] s' (p # fl2)"
        using undone_free [OF s2(2) _ _ Suc.prems(2) kN us [unfolded full(2)]] t ka oi by auto
      then show ?thesis
        using lt ka(1,6) full s2(1) Cons by (subst allocuvm_loop.simps) auto
    qed
  qed
qed

subsection \<open>The memory a process sees\<close>

definition umem :: "mem \<Rightarrow> u32 \<Rightarrow> u32 \<Rightarrow> u8 option" where
  "umem m pgd va =
     (let e = lookup m pgd va
      in if e AND PTE_P = 0 then None else Some (m (P2V (PTE_ADDR e) + (va AND 0xFFF))))"

lemma umem_page:
  "umem m pgd va = (if upresent m pgd (unat va div 4096) then Some (m (upage m pgd (unat va div 4096) + (va AND 0xFFF))) else None)"
proof -
  have "lookup m pgd va = lookup m pgd (uaddr (unat va div 4096))"
    unfolding PGROUNDDOWN_uaddr [symmetric] by simp
  then show ?thesis by (simp add: umem_def upresent_def upage_def Let_def)
qed

lemma in_page_offset: "in_page p (p + (va AND 0xFFF))"
proof -
  have "unat (va AND 0xFFF) < 4096" by (simp add: mask_twelve take_bit_eq_mod unat_mod)
  then show ?thesis by (simp add: in_page_def)
qed

lemma user_page_number: "unat (va :: u32) < 2147483648 \<Longrightarrow> unat va div 4096 < 524288"
  by (simp add: less_mult_imp_div_less)

text \<open>Pages whose entry is kept and that are not written to show the same bytes.\<close>

lemma umem_kept:
  assumes "uspace s pgd P fl" "only_in Q (mem s) (mem s')" "unat va < 2147483648"
    "lookup (mem s') pgd va = lookup (mem s) pgd va"
    "unat va div 4096 \<in> P \<Longrightarrow> upage (mem s) pgd (unat va div 4096) \<notin> Q"
  shows "umem (mem s') pgd va = umem (mem s) pgd va"
proof -
  let ?k = "unat va div 4096"
  note u = uspaceD [OF assms(1)]
  note k = user_page_number [OF assms(3)]
  have l: "lookup (mem s') pgd (uaddr ?k) = lookup (mem s) pgd (uaddr ?k)"
    unfolding PGROUNDDOWN_uaddr [symmetric] using assms(4) by simp
  show ?thesis
  proof (cases "?k \<in> P")
    case True
    have "mem s' (upage (mem s) pgd ?k + (va AND 0xFFF)) = mem s (upage (mem s) pgd ?k + (va AND 0xFFF))"
      by (rule only_in_page [OF assms(2) page_ok_aligned [OF u(4) [OF True]] assms(5) [OF True] in_page_offset])
    then show ?thesis unfolding umem_page using l by (simp add: upresent_def upage_def)
  next
    case False
    then have "\<not> upresent (mem s) pgd ?k" using u(3) [OF k] by simp
    then show ?thesis unfolding umem_page using l by (simp add: upresent_def)
  qed
qed

lemma grew_umem:
  assumes "grew s pgd P fl s' P' fl'" "uspace s pgd P fl" "unat va < 2147483648"
  shows "umem (mem s') pgd va = (if unat va div 4096 \<in> P' - P then Some 0 else umem (mem s) pgd va)"
proof (cases "unat va div 4096 \<in> P' - P")
  case True
  note g = assms(1) [unfolded grew_def]
  have "upresent (mem s') pgd (unat va div 4096)"
    using uspaceD(3) [of s' pgd P' fl', OF _ user_page_number [OF assms(3)]] g True by blast
  moreover have "mem s' (upage (mem s') pgd (unat va div 4096) + (va AND 0xFFF)) = 0"
    using g True in_page_offset by blast
  ultimately show ?thesis using True by (simp add: umem_page)
next
  case False
  then have "lookup (mem s') pgd va = lookup (mem s) pgd va" using assms(1) unfolding grew_def by blast
  then show ?thesis
    using False umem_kept [OF assms(2) _ assms(3), of _ s'] uspaceD(6) [OF assms(2)] assms(1)
    unfolding grew_def by auto
qed

lemma shrunk_umem:
  assumes "shrunk s pgd P fl s' P' fl'" "uspace s pgd P fl" "unat va < 2147483648"
  shows "umem (mem s') pgd va = (if unat va div 4096 \<in> P - P' then None else umem (mem s) pgd va)"
proof (cases "unat va div 4096 \<in> P - P'")
  case True
  have "\<not> upresent (mem s') pgd (unat va div 4096)"
    using uspaceD(3) [of s' pgd P' fl', OF _ user_page_number [OF assms(3)]] assms(1) True
    unfolding shrunk_def by blast
  then show ?thesis using True by (simp add: umem_page)
next
  case False
  note g = assms(1) [unfolded shrunk_def] and u = uspaceD [OF assms(2)]
  have "lookup (mem s') pgd va = lookup (mem s) pgd va" using g False by blast
  moreover have "upage (mem s) pgd k \<notin> tables (mem s) pgd \<union> upage (mem s) pgd ` (P - P')" if "k \<in> P" "k \<notin> P - P'" for k
    using u(6) [of k] u(5) that by (auto dest: inj_onD)
  ultimately show ?thesis
    using False umem_kept [OF assms(2) _ assms(3), of _ s'] g by (metis (no_types, lifting))
qed

lemma undone_umem:
  assumes "undone s pgd n n N fl s' fl'" "uspace s pgd {..<n} fl" "unat va < 2147483648"
  shows "umem (mem s') pgd va = umem (mem s) pgd va"
proof (cases "unat va div 4096 \<in> {n..<N}")
  case True
  have "\<not> upresent (mem s') pgd (unat va div 4096)"
    using uspaceD(3) [of s' pgd "{..<n}" fl', OF _ user_page_number [OF assms(3)]] assms(1) True
    unfolding undone_def by auto
  moreover have "\<not> upresent (mem s) pgd (unat va div 4096)"
    using uspaceD(3) [OF assms(2) user_page_number [OF assms(3)]] True by auto
  ultimately show ?thesis by (simp add: umem_page)
next
  case False
  then have "lookup (mem s') pgd va = lookup (mem s) pgd va" using assms(1) unfolding undone_def by blast
  then show ?thesis
    using False umem_kept [OF assms(2) _ assms(3), of _ s'] uspaceD(6) [OF assms(2)] assms(1)
    unfolding undone_def by auto
qed

end
