(* ===== verification/Vm_Fork.thy ===== *)
theory Vm_Fork
  imports Vm_User
begin

text \<open>
  New address spaces: the kernel's half of every one of them (setupkvm) and the copy that fork makes
  of its parent's memory (copyuvm).
\<close>

subsection \<open>The kernel half\<close>

text \<open>The entry of every address in a new page directory, from the table kmap.\<close>

definition kentry :: "'z mstate_scheme \<Rightarrow> u32 \<Rightarrow> u32" where
  "kentry s va =
     (let p = PGROUNDDOWN va
      in if va < KERNBASE then 0
         else if va < KERNLINK then V2P p OR PTE_W OR PTE_P
         else if va < kdata s then V2P p OR 0 OR PTE_P
         else if va < P2V PHYSTOP then V2P p OR PTE_W OR PTE_P
         else if va < DEVSPACE then 0
         else p OR PTE_W OR PTE_P)"

lemma npages_aligned:
  assumes "va mod 4096 = 0" "sz mod 4096 = 0" "0 < unat sz"
  shows "pages_from (PGROUNDDOWN va) (npages va sz) v \<longleftrightarrow> unat va \<le> unat v \<and> unat v < unat va + unat sz"
proof -
  obtain j k where jk: "unat va = 4096 * j" "unat sz = 4096 * k"
    using assms(1,2) unfolding unat_page_0 dvd_def by blast
  then have k: "0 < k" using assms(3) by simp
  have "(4096 * j + 4096 * k - 1) div 4096 = j + k - 1"
    using k by (intro div_nat_eqI) auto
  then have "npages va sz = k" using k by (simp add: npages_def jk)
  then show ?thesis by (simp add: pages_from_def PGROUNDDOWN_id [OF assms(1)] jk)
qed

lemma map_range:
  assumes "space s pgd fl" "va mod 4096 = 0" "sz mod 4096 = 0" "0 < unat sz" "unat va + unat sz \<le> 4294967296"
    "\<And>v. unat va \<le> unat v \<Longrightarrow> unat v < unat va + unat sz \<Longrightarrow> lookup (mem s) pgd v = 0"
  obtains (ok) s' fl' where "mappages pgd va sz pa perm s = OK (0, s')" "grown s fl pgd s' fl'"
    "\<And>v. lookup (mem s') pgd v = (if unat va \<le> unat v \<and> unat v < unat va + unat sz
       then (pa + (PGROUNDDOWN v - va)) OR perm OR PTE_P else lookup (mem s) pgd v)"
  | (full) s' where "mappages pgd va sz pa perm s = OK (-1, s')" "grown s fl pgd s' []"
proof -
  note pa = npages_aligned [OF assms(2-4)]
  have un: "lookup (mem s) pgd v AND PTE_P = 0" if "pages_from (PGROUNDDOWN va) (npages va sz) v" for v
    using that assms(6) unfolding pa by simp
  obtain r s' fl' where m: "mappages pgd va sz pa perm s = OK (r, s')"
      "mapped s fl pgd (PGROUNDDOWN va) (npages va sz) pa perm r s' fl'"
    using mappages_maps [OF assms(1,4,5) un] by blast
  show thesis
  proof (cases "r = 0")
    case True
    show ?thesis
      by (rule ok [of s' fl']) (use m True in \<open>auto simp: mapped_def PGROUNDDOWN_id [OF assms(2)] pa [unfolded PGROUNDDOWN_id [OF assms(2)]]\<close>)
  next
    case False
    then have "r = -1" "fl' = []" "grown s fl pgd s' fl'" using m(2) by (auto simp: mapped_def)
    then show ?thesis using full m(1) by simp
  qed
qed

lemma new_directory:
  assumes "free_list s (pgd # ps)" "KERNBASE < kend s"
  defines "s1 \<equiv> s\<lparr>freelist := load32 (mem s) pgd, mem := memset (mem s) pgd 0 4096\<rparr>"
  shows "kalloc s = (pgd, s\<lparr>freelist := load32 (mem s) pgd\<rparr>)" "pgd \<noteq> 0" "space s1 pgd ps"
    "tables (mem s1) pgd = {}" "lookup (mem s1) pgd va = 0" "only_in {pgd} (mem s) (mem s1)"
proof -
  show k: "kalloc s = (pgd, s\<lparr>freelist := load32 (mem s) pgd\<rparr>)" using kalloc_free_list(1) [OF assms(1)] by simp
  have p: "page_ok (kend s) pgd" "pgd \<notin> set ps" using assms(1) by (auto simp: free_list_def)
  note al = page_ok_aligned [OF p(1)]
  show "pgd \<noteq> 0" using page_ok_nonzero [OF p(1) less_imp_le [OF assms(2)]] by auto
  show o: "only_in {pgd} (mem s) (mem s1)" unfolding s1_def using only_in_memset [of pgd "{pgd}"] al by simp
  have "free_list (s\<lparr>freelist := load32 (mem s) pgd\<rparr>) ps" using kalloc_free_list(2) [OF assms(1)] k by simp
  then have f: "free_list s1 ps"
    using only_in_free_list [of "{pgd}" "s\<lparr>freelist := load32 (mem s) pgd\<rparr>" "mem s1" ps] o p(2)
    by (simp add: s1_def)
  have np: "\<not> tab_present (mem s1) pgd d" if "unat d < 1024" for d
    using load_entry_memset [OF al al that] by (simp add: tab_present_def s1_def)
  then show t: "tables (mem s1) pgd = {}" unfolding tables_def by blast
  show "lookup (mem s1) pgd va = 0" using np [OF unat_PDX] by (simp add: lookup_def)
  have "{d. unat d < 1024 \<and> tab_present (mem s1) pgd d} = {}" using np by blast
  then have "inj_on (tab (mem s1) pgd) {d. unat d < 1024 \<and> tab_present (mem s1) pgd d}" by (simp only: inj_on_empty)
  then show "space s1 pgd ps"
    using f t p assms(2) by (simp add: space_def s1_def)
qed

text \<open>The first entries of the table map the addresses below \<open>lim\<close>.\<close>

definition kmapped :: "'z mstate_scheme \<Rightarrow> u32 \<Rightarrow> nat \<Rightarrow> bool" where
  "kmapped s pgd lim \<longleftrightarrow> (\<forall>va. lookup (mem s) pgd va = (if unat va < lim then kentry s va else 0))"

lemma kentry_cong: "kdata s' = kdata s \<Longrightarrow> kentry s' = kentry s"
  by (simp add: kentry_def fun_eq_iff Let_def)

lemma kmapped_range:
  assumes "space s pgd fl" "kmapped s pgd lim" "lim \<le> unat va" "va mod 4096 = 0" "sz mod 4096 = 0" "0 < unat sz"
    "unat va + unat sz \<le> 4294967296"
    "\<And>v. lim \<le> unat v \<Longrightarrow> unat v < unat va \<Longrightarrow> kentry s v = 0"
    "\<And>v. unat va \<le> unat v \<Longrightarrow> unat v < unat va + unat sz \<Longrightarrow> kentry s v = (pa + (PGROUNDDOWN v - va)) OR perm OR PTE_P"
  obtains (ok) s' fl' where "mappages pgd va sz pa perm s = OK (0, s')" "grown s fl pgd s' fl'"
    "kmapped s' pgd (unat va + unat sz)"
  | (full) s' where "mappages pgd va sz pa perm s = OK (-1, s')" "grown s fl pgd s' []"
proof -
  have un: "lookup (mem s) pgd v = 0" if "unat va \<le> unat v" "unat v < unat va + unat sz" for v
    using assms(2,3) that by (simp add: kmapped_def)
  show thesis
  proof (rule map_range [OF assms(1,4-7), of pa perm])
    fix s' assume "mappages pgd va sz pa perm s = OK (-1, s')" "grown s fl pgd s' []"
    then show thesis by (rule that(2))
  next
    fix s' fl'
    assume ok: "mappages pgd va sz pa perm s = OK (0, s')" "grown s fl pgd s' fl'"
      "\<And>v. lookup (mem s') pgd v = (if unat va \<le> unat v \<and> unat v < unat va + unat sz
         then (pa + (PGROUNDDOWN v - va)) OR perm OR PTE_P else lookup (mem s) pgd v)"
    have kd: "kentry s' = kentry s" using ok(2) by (intro kentry_cong) (simp add: grown_def)
    have "kmapped s' pgd (unat va + unat sz)"
      unfolding kmapped_def kd
    proof
      fix v :: u32
      consider "unat v < lim" | "lim \<le> unat v" "unat v < unat va" | "unat va \<le> unat v" "unat v < unat va + unat sz"
        | "unat va + unat sz \<le> unat v" by linarith
      then show "lookup (mem s') pgd v = (if unat v < unat va + unat sz then kentry s v else 0)"
        using assms(2,3,8,9) ok(3) [of v] unfolding kmapped_def by cases auto
    qed
    then show thesis using that(1) ok by blast
  qed (rule un)
qed

lemma kend_ranges:
  assumes "kdata s mod 4096 = 0" "KERNLINK < kdata s" "kdata s < P2V PHYSTOP"
  shows "unat (V2P (kdata s) - V2P KERNLINK) = unat (kdata s) - 0x80100000"
    "unat (PHYSTOP - V2P (kdata s)) = 0x8E000000 - unat (kdata s)"
    "(V2P (kdata s) - V2P KERNLINK) mod 4096 = 0" "(PHYSTOP - V2P (kdata s)) mod 4096 = 0"
proof -
  have b: "0x80100000 < unat (kdata s)" "unat (kdata s) < 0x8E000000"
    using assms(2,3) by (simp_all add: word_less_nat_alt P2V_def)
  have "V2P (kdata s) - V2P KERNLINK = kdata s - 0x80100000" by (simp add: V2P_def)
  then show 1: "unat (V2P (kdata s) - V2P KERNLINK) = unat (kdata s) - 0x80100000"
    using unat_sub [of "0x80100000" "kdata s"] b by (simp add: word_le_nat_alt)
  have e: "PHYSTOP - V2P (kdata s) = 0x8E000000 - kdata s" by (simp add: V2P_def)
  show 2: "unat (PHYSTOP - V2P (kdata s)) = 0x8E000000 - unat (kdata s)"
    unfolding e using unat_sub [of "kdata s" "0x8E000000"] b by (simp add: word_le_nat_alt)
  obtain k where "unat (kdata s) = 4096 * k" using assms(1) unfolding unat_page_0 dvd_def by blast
  then have "unat (kdata s) - 0x80100000 = 4096 * (k - 0x80100)" "0x8E000000 - unat (kdata s) = 4096 * (0x8E000 - k)"
    by simp_all
  then show "(V2P (kdata s) - V2P KERNLINK) mod 4096 = 0" "(PHYSTOP - V2P (kdata s)) mod 4096 = 0"
    unfolding unat_page_0 1 2 by simp_all
qed

lemma page_bound: "va mod 4096 = 0 \<Longrightarrow> v < (va :: u32) \<longleftrightarrow> PGROUNDDOWN v < va"
proof -
  assume "va mod 4096 = 0"
  then obtain k where "unat va = 4096 * k" unfolding unat_page_0 dvd_def by blast
  then show ?thesis by (auto simp: word_less_nat_alt unat_PGROUNDDOWN)
qed

text \<open>The entries of a table, in ascending order from \<open>lim\<close> on, describe \<open>kentry\<close>.\<close>

primrec kchain :: "'z mstate_scheme \<Rightarrow> nat \<Rightarrow> kmap_entry list \<Rightarrow> bool" where
  "kchain s lim [] \<longleftrightarrow> (\<forall>v. lim \<le> unat v \<longrightarrow> kentry s v = 0)"
| "kchain s lim (k # ks) \<longleftrightarrow>
     (let va = k_virt k; sz = k_end k - k_start k
      in lim \<le> unat va \<and> va mod 4096 = 0 \<and> sz mod 4096 = 0 \<and> 0 < unat sz \<and> unat va + unat sz \<le> 4294967296 \<and>
         (\<forall>v. lim \<le> unat v \<longrightarrow> unat v < unat va \<longrightarrow> kentry s v = 0) \<and>
         (\<forall>v. unat va \<le> unat v \<longrightarrow> unat v < unat va + unat sz \<longrightarrow>
            kentry s v = (k_start k + (PGROUNDDOWN v - va)) OR k_perm k OR PTE_P) \<and>
         kchain s (unat va + unat sz) ks)"

lemma map_kernel_chain:
  assumes "space s pgd fl" "kmapped s pgd lim" "kchain s lim ks"
  shows "(\<exists>s' fl'. map_kernel pgd ks s = OK (0, s') \<and> grown s fl pgd s' fl' \<and> (\<forall>va. lookup (mem s') pgd va = kentry s va)) \<or>
    (\<exists>s'. map_kernel pgd ks s = OK (-1, s') \<and> grown s fl pgd s' [])"
  using assms
proof (induction ks arbitrary: s fl lim)
  case Nil
  then have "\<forall>va. lookup (mem s) pgd va = kentry s va" by (simp add: kmapped_def)
  then show ?case using grown_refl [OF Nil.prems(1)] by auto
next
  case (Cons k ks)
  let ?va = "k_virt k" and ?sz = "k_end k - k_start k"
  note c = Cons.prems(3) [simplified kchain.simps Let_def]
  show ?case
  proof (rule kmapped_range [OF Cons.prems(1,2), of ?va ?sz "k_start k" "k_perm k"])
    fix s1 fl1
    assume m: "mappages pgd ?va ?sz (k_start k) (k_perm k) s = OK (0, s1)" "grown s fl pgd s1 fl1"
      "kmapped s1 pgd (unat ?va + unat ?sz)"
    then have sp: "space s1 pgd fl1" and kd: "kdata s1 = kdata s" by (simp_all add: grown_def)
    have ch: "kchain s1 l xs = kchain s l xs" for l xs
      by (induction xs arbitrary: l) (simp_all add: kentry_cong [OF kd])
    show ?thesis
      using Cons.IH [OF sp m(3)] c grown_trans [OF m(2)] m(1) unfolding ch kentry_cong [OF kd] by auto
  next
    fix s1 assume "mappages pgd ?va ?sz (k_start k) (k_perm k) s = OK (-1, s1)" "grown s fl pgd s1 []"
    then show ?thesis by auto
  qed (use c in auto)
qed

lemma kchain_kmap:
  assumes "kdata s mod 4096 = 0" "KERNLINK < kdata s" "kdata s < P2V PHYSTOP"
  shows "kchain s 0x80000000 (kmap s)"
proof -
  note r = kend_ranges [OF assms]
  have b: "0x80100000 < unat (kdata s)" "unat (kdata s) < 0x8E000000"
    using assms(2,3) by (simp_all add: word_less_nat_alt P2V_def)
  have e: "kentry s v = (let p = PGROUNDDOWN v in if unat v < 0x80000000 then 0
      else if unat v < 0x80100000 then V2P p OR PTE_W OR PTE_P
      else if unat v < unat (kdata s) then V2P p OR 0 OR PTE_P
      else if unat v < 0x8E000000 then V2P p OR PTE_W OR PTE_P
      else if unat v < 0xFE000000 then 0 else p OR PTE_W OR PTE_P)" for v
    by (simp add: kentry_def word_less_nat_alt P2V_def cong: if_cong)
  show ?thesis
    unfolding kmap_def kchain.simps Let_def kmap_entry.simps r
    by (intro conjI allI impI)
       (use b r assms in \<open>simp_all add: e Let_def V2P_def not_le [THEN iffD2, OF unat_bound] cong: if_cong\<close>)
qed

lemma map_kernel_maps:
  assumes "space s pgd fl" "tables (mem s) pgd = {}" "kdata s mod 4096 = 0" "KERNLINK < kdata s" "kdata s < P2V PHYSTOP"
  shows "(\<exists>s' fl'. map_kernel pgd (kmap s) s = OK (0, s') \<and> grown s fl pgd s' fl' \<and> (\<forall>va. lookup (mem s') pgd va = kentry s va)) \<or>
    (\<exists>s'. map_kernel pgd (kmap s) s = OK (-1, s') \<and> grown s fl pgd s' [])"
proof (rule map_kernel_chain [OF assms(1) _ kchain_kmap [OF assms(3-5)]])
  have "\<not> tab_present (mem s) pgd (PDX va)" for va using assms(2) tab_in_tables [of "mem s" pgd va] by auto
  then show "kmapped s pgd 0x80000000" by (auto simp: kmapped_def lookup_def kentry_def word_less_nat_alt Let_def)
qed

text \<open>A new address space: no user page, the kernel half as the table says, of pages that were free.\<close>

definition fresh_space :: "'z mstate_scheme \<Rightarrow> u32 list \<Rightarrow> u32 \<Rightarrow> 'z mstate_scheme \<Rightarrow> u32 list \<Rightarrow> bool" where
  "fresh_space s fl d s' fl' \<longleftrightarrow> uspace s' d {} fl' \<and>
     (\<exists>used. fl = used @ fl' \<and> insert d (tables (mem s') d) = set used) \<and>
     (\<forall>va. lookup (mem s') d va = kentry s va)"

definition setup_post :: "'z mstate_scheme \<Rightarrow> u32 list \<Rightarrow> u32 \<Rightarrow> 'z mstate_scheme \<Rightarrow> u32 list \<Rightarrow> bool" where
  "setup_post s fl d s' fl' \<longleftrightarrow> free_list s' fl' \<and> only_in (set fl) (mem s) (mem s') \<and>
     kend s' = kend s \<and> kdata s' = kdata s \<and>
     (if d = 0 then fl' = [] \<and> length fl \<le> 1025 else fresh_space s fl d s' fl')"

lemma kentry_user: "unat va < 2147483648 \<Longrightarrow> kentry s va = 0"
  by (simp add: kentry_def word_less_nat_alt)

lemma fresh_uspace:
  assumes "space s d fl" "\<And>va. lookup (mem s) d va = kentry s0 va"
  shows "uspace s d {} fl"
proof -
  have "\<not> upresent (mem s) d k" if "k < 524288" for k
    using assms(2) [of "uaddr k"] kentry_user [of "uaddr k" s0] unat_uaddr [of k] that by (simp add: upresent_def)
  then show ?thesis using assms(1) by (simp add: uspace_def)
qed

lemma setupkvm_maps:
  assumes "free_list s fl" "KERNBASE < kend s" "kdata s mod 4096 = 0" "KERNLINK < kdata s" "kdata s < P2V PHYSTOP"
  shows "\<exists>d s' fl'. setupkvm s = OK (d, s') \<and> setup_post s fl d s' fl'"
proof (cases fl)
  case Nil
  then have "kalloc s = (0, s)" using kalloc_free_list(1) [OF assms(1)] by simp
  then have "setupkvm s = OK (0, s)" by (simp add: setupkvm_def)
  moreover have "setup_post s fl 0 s fl" using assms(1) Nil by (simp add: setup_post_def)
  ultimately show ?thesis by blast
next
  case (Cons pgd ps)
  let ?s1 = "s\<lparr>freelist := load32 (mem s) pgd, mem := memset (mem s) pgd 0 4096\<rparr>"
  note n = new_directory [OF assms(1) [unfolded Cons] assms(2)]
  have kd: "kentry ?s1 = kentry s" by (rule kentry_cong) simp
  have su: "setupkvm s = kbind (map_kernel pgd (kmap ?s1) ?s1) (\<lambda>(r, s). OK (if r < 0 then 0 else pgd, s))"
    using n(1,2) by (simp add: setupkvm_def P2V_def Let_def)
  have g: "free_list s' fl'" "only_in (set fl) (mem s) (mem s')" "kend s' = kend s" "kdata s' = kdata s"
      "\<exists>used. fl = used @ fl' \<and> insert pgd (tables (mem s') pgd) = set used"
    if g: "grown ?s1 ps pgd s' fl'" for s' fl'
  proof -
    obtain used where used: "ps = used @ fl'" "tables (mem s') pgd = set used"
      using g n(4) by (auto simp: grown_def)
    show "only_in (set fl) (mem s) (mem s')"
      by (rule only_in_trans [OF n(6), of "insert pgd (tables (mem s') pgd)"])
         (use g used Cons in \<open>auto simp: grown_def\<close>)
    have "fl = (pgd # used) @ fl' \<and> insert pgd (tables (mem s') pgd) = set (pgd # used)"
      using used Cons by simp
    then show "\<exists>used. fl = used @ fl' \<and> insert pgd (tables (mem s') pgd) = set used" by blast
    show "free_list s' fl'" using g spaceD(1) [of s' pgd fl'] by (simp add: grown_def)
    show "kend s' = kend s" "kdata s' = kdata s" using g by (simp_all add: grown_def)
  qed
  from map_kernel_maps [OF n(3,4)] assms(3-5)
  consider (ok) s' fl' where "map_kernel pgd (kmap ?s1) ?s1 = OK (0, s')" "grown ?s1 ps pgd s' fl'"
      "\<forall>va. lookup (mem s') pgd va = kentry s va"
    | (full) s' where "map_kernel pgd (kmap ?s1) ?s1 = OK (-1, s')" "grown ?s1 ps pgd s' []"
    unfolding kd by auto
  then show ?thesis
  proof cases
    case ok
    have "uspace s' pgd {} fl'" by (rule fresh_uspace [of _ _ _ s]) (use ok in \<open>auto simp: grown_def\<close>)
    then have "setup_post s fl pgd s' fl'"
      using g [OF ok(2)] n(2) ok(3) by (simp add: setup_post_def fresh_space_def)
    then show ?thesis using su ok(1) by auto
  next
    case full
    have "length ps \<le> 1024"
      using grown_length [OF full(2) n(3)] card_tables [of "mem s'" pgd] by simp
    then have "setup_post s fl 0 s' []" using g [OF full(2)] Cons by (simp add: setup_post_def)
    then show ?thesis using su full(1) by auto
  qed
qed

subsection \<open>Freeing an address space\<close>

lemma kfree_page_ok:
  assumes "free_list s fl" "page_ok (kend s) v" "v \<notin> set fl"
  obtains s' where "kfree s v = OK s'" "free_list s' (v # fl)" "only_in {v} (mem s) (mem s')"
    "kend s' = kend s" "kdata s' = kdata s"
  using kfree_free_list [OF assms] kfree_only_in [OF assms(2)] by metis

definition table_of :: "(nat \<Rightarrow> u32) \<Rightarrow> nat \<Rightarrow> u32" where
  "table_of e i = P2V (PTE_ADDR (e i))"

definition entries :: "(nat \<Rightarrow> u32) \<Rightarrow> nat list \<Rightarrow> nat set" where
  "entries e is = {i \<in> set is. e i AND PTE_P \<noteq> 0}"

lemma free_tables:
  assumes "distinct is" "\<forall>i \<in> set is. i < 1024" "free_list s fl" "d mod 4096 = 0"
    "\<And>i. i < 1024 \<Longrightarrow> load32 (mem s) (d + 4 * word_of_nat i) = e i"
    "inj_on (table_of e) (entries e is)"
    "\<forall>i \<in> entries e is. page_ok (kend s) (table_of e i) \<and> table_of e i \<noteq> d \<and> table_of e i \<notin> set fl"
  shows "\<exists>s' fl'. kfor (freevm_entry d) is s = OK s' \<and> free_list s' fl' \<and> kend s' = kend s \<and> kdata s' = kdata s \<and>
    set fl' = set fl \<union> table_of e ` entries e is \<and> only_in (table_of e ` entries e is) (mem s) (mem s')"
  using assms
proof (induction "is" arbitrary: s fl)
  case Nil
  then show ?case by (auto simp: entries_def)
next
  case (Cons i "is")
  have l: "load32 (mem s) (d + 4 * word_of_nat i) = e i" by (rule Cons.prems(5)) (use Cons.prems(2) in simp)
  show ?case
  proof (cases "e i AND PTE_P = 0")
    case True
    then have e: "entries e (i # is) = entries e is" by (auto simp: entries_def)
    show ?thesis
      using Cons.IH [OF _ _ Cons.prems(3-5)] Cons.prems(1,2,6,7) True l unfolding e
      by (simp add: freevm_entry_def)
  next
    case False
    let ?t = "table_of e i"
    have e: "entries e (i # is) = insert i (entries e is)" "i \<notin> entries e is"
      using False Cons.prems(1) by (auto simp: entries_def)
    have t: "page_ok (kend s) ?t" "?t \<noteq> d" "?t \<notin> set fl" using Cons.prems(7) e by auto
    obtain s1 where s1: "kfree s ?t = OK s1" "free_list s1 (?t # fl)" "only_in {?t} (mem s) (mem s1)"
      "kend s1 = kend s" "kdata s1 = kdata s"
      using kfree_page_ok [OF Cons.prems(3) t(1,3)] by blast
    have ne: "?t \<noteq> table_of e j" if "j \<in> entries e is" for j
      using Cons.prems(6) e that by (auto simp: inj_on_def)
    have ld: "load32 (mem s1) (d + 4 * word_of_nat j) = e j" if "j < 1024" for j
    proof -
      have "unat (word_of_nat j :: u32) < 1024" using that by (simp add: unat_of_nat)
      then show ?thesis using only_in_load [OF s1(3) Cons.prems(4)] t(2) Cons.prems(5) [OF that] by auto
    qed
    have "\<exists>s' fl'. kfor (freevm_entry d) is s1 = OK s' \<and> free_list s' fl' \<and> kend s' = kend s1 \<and> kdata s' = kdata s1 \<and>
        set fl' = set (?t # fl) \<union> table_of e ` entries e is \<and> only_in (table_of e ` entries e is) (mem s1) (mem s')"
      by (rule Cons.IH [OF _ _ s1(2) Cons.prems(4) ld])
         (use Cons.prems(1,2,6,7) e ne s1(4) in \<open>auto simp: inj_on_def\<close>)
    then obtain s' fl' where s': "kfor (freevm_entry d) is s1 = OK s'" "free_list s' fl'" "kend s' = kend s" "kdata s' = kdata s"
      "set fl' = set (?t # fl) \<union> table_of e ` entries e is" "only_in (table_of e ` entries e is) (mem s1) (mem s')"
      using s1(4,5) by auto
    have "only_in (table_of e ` entries e (i # is)) (mem s) (mem s')"
      unfolding e by (rule only_in_trans [OF s1(3) s'(6)]) auto
    moreover have "freevm_entry d i s = OK s1" using l False s1(1) by (simp add: freevm_entry_def table_of_def)
    ultimately show ?thesis using s' unfolding e by auto
  qed
qed

lemma freevm_frees:
  assumes "uspace s d P fl"
  defines "X \<equiv> owned (mem s) d P"
  obtains s' fl' where "freevm d s = OK s'" "free_list s' fl'" "set fl' = set fl \<union> X" "only_in X (mem s) (mem s')"
    "kend s' = kend s" "kdata s' = kdata s"
proof -
  note u = uspaceD [OF assms(1)]
  note sd = spaceD [OF u(1)]
  have P: "P - {upages 0..<upages 0x80000000} = {}" using u(2) by (auto simp: upages_def)
  obtain s1 fl1 where s1: "deallocuvm d 0x80000000 0 s = OK (0, s1)" "shrunk s d P fl s1 {} fl1"
    using deallocuvm_shrinks [OF assms(1), of 0 "0x80000000"] P by auto
  note g = s1(2) [unfolded shrunk_def]
  have us1: "uspace s1 d {} fl1" using g by blast
  note sd1 = spaceD [OF uspaceD(1) [OF us1]]
  define e where "e = (\<lambda>i. load32 (mem s1) (d + 4 * word_of_nat i))"
  have wn: "unat (word_of_nat i :: u32) = i" if "i < 1024" for i using that by (simp add: unat_of_nat)
  have te: "table_of e i = tab (mem s1) d (word_of_nat i)" "(e i AND PTE_P \<noteq> 0) = tab_present (mem s1) d (word_of_nat i)" for i
    by (simp_all add: table_of_def e_def tab_def tab_present_def)
  have ent: "entries e [0..<1024] = {i. i < 1024 \<and> tab_present (mem s1) d (word_of_nat i)}"
    by (auto simp: entries_def te)
  have ts: "table_of e ` entries e [0..<1024] = tables (mem s1) d"
  proof (rule set_eqI, rule iffI)
    fix x assume "x \<in> table_of e ` entries e [0..<1024]"
    then show "x \<in> tables (mem s1) d" unfolding ent tables_def using wn by (auto simp: te)
  next
    fix x assume "x \<in> tables (mem s1) d"
    then obtain k where k: "x = tab (mem s1) d k" "unat k < 1024" "tab_present (mem s1) d k"
      unfolding tables_def by blast
    then have "unat k \<in> entries e [0..<1024]" "table_of e (unat k) = x" unfolding ent by (simp_all add: te)
    then show "x \<in> table_of e ` entries e [0..<1024]" by blast
  qed
  have inj: "inj_on (table_of e) (entries e [0..<1024])"
  proof (rule inj_onI)
    fix x y assume xy: "x \<in> entries e [0..<1024]" "y \<in> entries e [0..<1024]" "table_of e x = table_of e y"
    then have "word_of_nat x = (word_of_nat y :: u32)"
      using inj_onD [OF sd1(10), of "word_of_nat x" "word_of_nat y"] unfolding ent by (simp add: te wn)
    then show "x = y" using wn [of x] wn [of y] xy(1,2) unfolding ent by (metis (no_types, lifting) mem_Collect_eq)
  qed
  have "\<exists>s2 fl2. kfor (freevm_entry d) [0..<1024] s1 = OK s2 \<and> free_list s2 fl2 \<and> kend s2 = kend s1 \<and> kdata s2 = kdata s1 \<and>
      set fl2 = set fl1 \<union> table_of e ` entries e [0..<1024] \<and> only_in (table_of e ` entries e [0..<1024]) (mem s1) (mem s2)"
  proof (rule free_tables [OF _ _ sd1(1,5) _ inj])
    have "table_of e i \<in> tables (mem s1) d" if "i \<in> entries e [0..<1024]" for i using ts that by blast
    then show "\<forall>i \<in> entries e [0..<1024]. page_ok (kend s1) (table_of e i) \<and> table_of e i \<noteq> d \<and> table_of e i \<notin> set fl1"
      using sd1(6-8) by (metis disjoint_iff)
  qed (simp_all add: e_def)
  then obtain s2 fl2 where s2: "kfor (freevm_entry d) [0..<1024] s1 = OK s2" "free_list s2 fl2" "kend s2 = kend s" "kdata s2 = kdata s"
    "set fl2 = set fl1 \<union> tables (mem s) d" "only_in (tables (mem s) d) (mem s1) (mem s2)"
    unfolding ts using g by auto
  have "page_ok (kend s2) d" "d \<notin> set fl2" using sd1(3,4,6) s2(3,5) g by auto
  then obtain s3 where s3: "kfree s2 d = OK s3" "free_list s3 (d # fl2)" "only_in {d} (mem s2) (mem s3)"
    "kend s3 = kend s2" "kdata s3 = kdata s2"
    using kfree_page_ok [OF s2(2)] by blast
  have "only_in X (mem s) (mem s2)"
    by (rule only_in_trans [of "tables (mem s) d \<union> upage (mem s) d ` P" _ "mem s1"])
       (use g s2(6) in \<open>auto simp: X_def owned_def\<close>)
  then have o: "only_in X (mem s) (mem s3)" by (rule only_in_trans [OF _ s3(3)]) (auto simp: X_def owned_def)
  have "d \<noteq> 0" using page_ok_nonzero [OF sd(3,2)] by auto
  then have "freevm d s = OK s3" using s1(1) s2(1) s3(1) by (simp add: freevm_def)
  moreover have "set (d # fl2) = set fl \<union> X" using s2(5) g by (auto simp: X_def owned_def)
  ultimately show thesis using that s3(2,4,5) s2(3,4) o by auto
qed

subsection \<open>Copying an address space\<close>

text \<open>Parent and child side by side: the child has copies of the first \<open>k\<close> pages.\<close>

definition copying :: "'z mstate_scheme \<Rightarrow> u32 \<Rightarrow> nat \<Rightarrow> u32 \<Rightarrow> nat \<Rightarrow> u32 list \<Rightarrow> bool" where
  "copying s pgd n d k fl \<longleftrightarrow> uspace s pgd {..<n} fl \<and> uspace s d {..<k} fl \<and>
     owned (mem s) pgd {..<n} \<inter> owned (mem s) d {..<k} = {} \<and>
     (\<forall>j < k. PTE_FLAGS (lookup (mem s) d (uaddr j)) = PTE_FLAGS (lookup (mem s) pgd (uaddr j)) \<and>
        (\<forall>i. unat i < 4096 \<longrightarrow> mem s (upage (mem s) d j + i) = mem s (upage (mem s) pgd j + i)))"

lemma page_ok_bound: "page_ok e p \<Longrightarrow> KERNBASE \<le> e \<Longrightarrow> unat p < 0x8E000000"
proof -
  assume p: "page_ok e p" "KERNBASE \<le> e"
  then have "0x80000000 \<le> p" by (auto simp: page_ok_def)
  then have "unat (V2P p) = unat p - 0x80000000" unfolding V2P_def by (simp add: unat_sub)
  moreover have "unat (V2P p) < 234881024" using p(1) by (simp add: page_ok_def word_less_nat_alt)
  ultimately show ?thesis by linarith
qed

lemma memmove_page:
  assumes "page_ok e p" "page_ok e q" "KERNBASE \<le> e"
  shows "only_in {p} m (memmove m p q 4096)" "unat i < 4096 \<Longrightarrow> memmove m p q 4096 (p + i) = m (q + i)"
proof -
  have e: "memmove m p q 4096 = (\<lambda>a. if in_page p a then m (q + (a - p)) else m a)"
    using memmove_eq [of q 4096 p m] page_ok_bound [OF assms(1,3)] page_ok_bound [OF assms(2,3)]
    by (simp add: in_page_def)
  show "only_in {p} m (memmove m p q 4096)"
    unfolding only_in_def e using in_page_apart [of _ p] page_ok_aligned [OF assms(1)] by auto
  show "memmove m p q 4096 (p + i) = m (q + i)" if "unat i < 4096"
    unfolding e using that by (simp add: in_page_def)
qed

lemma page_bytes_kept:
  assumes "only_in Q m m'" "q mod 4096 = 0" "q \<notin> Q" "unat i < 4096"
  shows "m' (q + i) = m (q + i)"
  by (rule only_in_page [OF assms(1-3)]) (use assms(4) in \<open>simp add: in_page_def\<close>)

lemma flags_bound: "unat (PTE_FLAGS e) < 4096"
  by (simp add: PTE_FLAGS_def mask_twelve take_bit_eq_mod unat_mod)

lemma flags_present: "e AND PTE_P \<noteq> 0 \<Longrightarrow> PTE_FLAGS e OR PTE_P = PTE_FLAGS e"
proof -
  assume "e AND PTE_P \<noteq> 0"
  then have "bit e 0" by (simp add: and_one_eq bit_0 mod_2_eq_odd)
  then show ?thesis
    by (intro bit_eqI) (auto simp: PTE_FLAGS_def mask_twelve bit_or_iff bit_take_bit_iff bit_1_iff)
qed

lemma copy_page:
  assumes c: "copying s pgd n d k (m # ps)" and k: "k < n"
  defines "q \<equiv> upage (mem s) pgd k"
  defines "s1 \<equiv> s\<lparr>freelist := load32 (mem s) m, mem := memmove (mem s) m q 4096\<rparr>"
    and "flags \<equiv> PTE_FLAGS (lookup (mem s) pgd (uaddr k))"
  obtains (ok) s2 fl2 where "mappages d (uaddr k) 4096 (V2P m) flags s1 = OK (0, s2)" "copying s2 pgd n d (Suc k) fl2"
      "only_in (owned (mem s) d {..<k} \<union> set (m # ps)) (mem s) (mem s2)"
      "owned (mem s2) d {..<Suc k} \<union> set fl2 = owned (mem s) d {..<k} \<union> set (m # ps)"
      "length (m # ps) + card (tables (mem s) d) = Suc (length fl2 + card (tables (mem s2) d))"
      "\<And>va. unat va div 4096 \<noteq> k \<Longrightarrow> lookup (mem s2) d va = lookup (mem s) d va"
      "kend s2 = kend s" "kdata s2 = kdata s"
  | (full) "mappages d (uaddr k) 4096 (V2P m) flags s1 = OK (-1, s1)" "ps = []"
      "uspace s1 d {..<k} []" "owned (mem s1) d {..<k} = owned (mem s) d {..<k}" "only_in {m} (mem s) (mem s1)"
      "kend s1 = kend s" "kdata s1 = kdata s"
proof -
  have up: "uspace s pgd {..<n} (m # ps)" and ud: "uspace s d {..<k} (m # ps)"
    and dj: "owned (mem s) pgd {..<n} \<inter> owned (mem s) d {..<k} = {}"
    using c by (auto simp: copying_def)
  note u = uspaceD [OF up] and v = uspaceD [OF ud]
  note ka = space_kalloc [OF u(1)] and sd = spaceD [OF u(1)]
  have kn: "k < 524288" using u(7) [of k] k by simp
  have pq: "page_ok (kend s) q" "q \<in> owned (mem s) pgd {..<n}" using u(4) [of k] k by (auto simp: q_def owned_def)
  have oi: "only_in {m} (mem s) (memmove (mem s) m q 4096)" by (rule memmove_page(1) [OF ka(4) pq(1) sd(2)])
  note tp = uspace_take [OF up oi, folded s1_def] and td = uspace_take [OF ud oi, folded s1_def]
  have m1: "mem s1 = memmove (mem s) m q 4096" "kend s1 = kend s" "kdata s1 = kdata s" by (simp_all add: s1_def)
  have upe: "upage (mem s1) pgd = upage (mem s) pgd" "upage (mem s1) d = upage (mem s) d"
    by (simp_all add: fun_eq_iff upage_def m1 tp(3) td(3))
  have o1: "owned (mem s1) pgd {..<n} = owned (mem s) pgd {..<n}" "owned (mem s1) d {..<k} = owned (mem s) d {..<k}"
    unfolding owned_def upe using tp(2) td(2) by (simp_all add: m1)
  have pk: "page_ok (kend s1) m" using ka(4) m1 by simp
  have mn: "m \<notin> insert d (tables (mem s1) d \<union> set ps \<union> upage (mem s1) d ` {..<k})" using td(4) m1 by simp
  have nk: "k \<notin> {..<k}" by simp
  have pr: "lookup (mem s) pgd (uaddr k) AND PTE_P \<noteq> 0" using u(3) [OF kn] k by (simp add: upresent_def)
  show thesis
  proof (cases rule: map_user_page [OF td(1) pk kn nk flags_bound mn, of "lookup (mem s) pgd (uaddr k)", folded flags_def, case_names ok full])
    case full
    then show ?thesis using that(2) td(1) o1(2) oi m1 by simp
  next
    case (ok s2 fl2)
    obtain used where used: "ps = used @ fl2" "tables (mem s2) d = tables (mem s) d \<union> set used"
      using ok(3) td(2) m1 unfolding grown_def by auto
    have oi2: "only_in (insert d (tables (mem s2) d)) (mem s1) (mem s2)" and ke: "kend s2 = kend s" "kdata s2 = kdata s"
      using ok(3) m1 by (simp_all add: grown_def)
    have Q: "insert d (tables (mem s2) d) \<subseteq> owned (mem s) d {..<k} \<union> set ps" using used by (auto simp: owned_def)
    have free: "owned (mem s) pgd {..<n} \<inter> set (m # ps) = {}" "owned (mem s) d {..<k} \<inter> set (m # ps) = {}"
      using uspace_owned_free [OF up] uspace_owned_free [OF ud] .
    have f2: "free_list s2 fl2" using spaceD(1) [OF uspaceD(1) [OF ok(2)]] .
    have p2: "uspace s2 pgd {..<n} fl2" "tables (mem s2) pgd = tables (mem s) pgd"
        "lookup (mem s2) pgd va = lookup (mem s) pgd va" for va
    proof -
      have "owned (mem s1) pgd {..<n} \<inter> set fl2 = {}" "kend s2 = kend s1"
        "insert d (tables (mem s2) d) \<inter> owned (mem s1) pgd {..<n} = {}"
        unfolding o1 using free used(1) Q dj ke m1 by auto
      note kp = uspace_kept [OF tp(1) oi2 f2 this]
      show "uspace s2 pgd {..<n} fl2" by (rule kp(1))
      show "tables (mem s2) pgd = tables (mem s) pgd" using kp(2) tp(2) m1 by simp
      show "lookup (mem s2) pgd va = lookup (mem s) pgd va" using kp(3) tp(3) m1 by simp
    qed
    have upp: "upage (mem s2) pgd = upage (mem s) pgd" by (simp add: fun_eq_iff upage_def p2(3))
    have ld: "lookup (mem s2) d va = (if unat va div 4096 = k then V2P m OR flags OR PTE_P else lookup (mem s) d va)" for va
      using ok(4) [of va] td(3) [of va] m1 by simp
    have fl: "PTE_FLAGS (V2P m OR flags OR PTE_P) = flags" "P2V (PTE_ADDR (V2P m OR flags OR PTE_P)) = m"
      unfolding flags_def
      by (rule trans [OF user_flags(2) [OF ka(5) flags_bound] flags_present [OF pr]])
         (rule user_flags(1) [OF ka(5) flags_bound])
    have upd: "upage (mem s2) d j = (if j = k then m else upage (mem s) d j)" if "j \<le> k" for j
      using ld [of "uaddr j"] uaddr_div [of j] that kn fl(2) by (simp add: upage_def)
    have od: "owned (mem s2) d {..<Suc k} = insert m (owned (mem s) d {..<k} \<union> set used)"
      using used upd by (auto simp: owned_def lessThan_Suc)
    have bytes: "mem s2 (x + i) = mem s1 (x + i)" if "x mod 4096 = 0" "x \<notin> insert d (tables (mem s2) d)" "unat i < 4096" for x i
      by (rule page_bytes_kept [OF oi2 that])
    have same: "mem s2 (upage (mem s2) d j + i) = mem s2 (upage (mem s2) pgd j + i)" if j: "j < Suc k" and i: "unat i < 4096" for j i
    proof -
      have pj: "upage (mem s) pgd j mod 4096 = 0" "upage (mem s) pgd j \<in> owned (mem s) pgd {..<n}"
        using page_ok_aligned [OF u(4) [of j]] j k by (auto simp: owned_def)
      then have "upage (mem s) pgd j \<notin> insert d (tables (mem s2) d)" "upage (mem s) pgd j \<notin> {m}"
        using Q dj free by auto
      then have pp: "mem s2 (upage (mem s) pgd j + i) = mem s (upage (mem s) pgd j + i)"
        using bytes [OF pj(1) _ i] page_bytes_kept [OF oi pj(1) _ i] m1 by simp
      show ?thesis
      proof (cases "j = k")
        case True
        have "m \<notin> insert d (tables (mem s2) d)" using mn used td(2) m1 by auto
        then have "mem s2 (m + i) = mem s (q + i)"
          using bytes [OF ka(5) _ i] memmove_page(2) [OF ka(4) pq(1) sd(2) i] m1 by simp
        then show ?thesis using True upd [of k] pp by (simp add: upp q_def)
      next
        case False
        then have jk: "j < k" using j by simp
        have dj': "upage (mem s) d j mod 4096 = 0" "upage (mem s) d j \<in> owned (mem s) d {..<k}"
          "upage (mem s) d j \<notin> insert d (tables (mem s) d \<union> set (m # ps))"
          using page_ok_aligned [OF v(4) [of j]] v(6) [of j] jk by (auto simp: owned_def)
        then have "upage (mem s) d j \<notin> insert d (tables (mem s2) d)" "upage (mem s) d j \<notin> {m}"
          using used by auto
        then have "mem s2 (upage (mem s) d j + i) = mem s (upage (mem s) d j + i)"
          using bytes [OF dj'(1) _ i] page_bytes_kept [OF oi dj'(1) _ i] m1 by simp
        then show ?thesis using c jk i pp upd [of j] by (simp add: upp copying_def)
      qed
    qed
    have "copying s2 pgd n d (Suc k) fl2"
      unfolding copying_def
    proof (intro conjI allI impI)
      show "uspace s2 d {..<Suc k} fl2" using ok(2) by (simp add: lessThan_Suc)
      have "owned (mem s2) pgd {..<n} = owned (mem s) pgd {..<n}" by (simp add: owned_def p2(2) upp)
      then show "owned (mem s2) pgd {..<n} \<inter> owned (mem s2) d {..<Suc k} = {}"
        unfolding od using free dj used(1) by auto
      show "PTE_FLAGS (lookup (mem s2) d (uaddr j)) = PTE_FLAGS (lookup (mem s2) pgd (uaddr j))" if "j < Suc k" for j
        using c that ld [of "uaddr j"] uaddr_div [of j] kn fl(1) p2(3) by (auto simp: copying_def flags_def less_Suc_eq)
    qed (use p2(1) same in auto)
    moreover have "only_in (owned (mem s) d {..<k} \<union> set (m # ps)) (mem s) (mem s2)"
      by (rule only_in_trans [OF oi oi2 [unfolded m1(1)]]) (use Q in auto)
    moreover have "length ps + card (tables (mem s) d) = length fl2 + card (tables (mem s2) d)"
      using grown_length [OF ok(3) uspaceD(1) [OF td(1)]] td(2) m1 by simp
    moreover have "owned (mem s2) d {..<Suc k} \<union> set fl2 = owned (mem s) d {..<k} \<union> set (m # ps)"
      unfolding od using used(1) by auto
    ultimately show ?thesis using that(1) [OF ok(1)] ld ke by simp
  qed
qed

definition copy_post :: "'z mstate_scheme \<Rightarrow> u32 \<Rightarrow> nat \<Rightarrow> u32 \<Rightarrow> nat \<Rightarrow> u32 list \<Rightarrow> u32 \<Rightarrow> 'z mstate_scheme \<Rightarrow> u32 list \<Rightarrow> bool" where
  "copy_post s pgd n d k fl r s' fl' \<longleftrightarrow> free_list s' fl' \<and> kend s' = kend s \<and> kdata s' = kdata s \<and>
     only_in (owned (mem s) d {..<k} \<union> set fl) (mem s) (mem s') \<and> set fl' \<subseteq> owned (mem s) d {..<k} \<union> set fl \<and>
     (r = 0 \<and> length fl + card (tables (mem s) d) \<le> n - k + 1024 \<or>
      r = d \<and> copying s' pgd n d n fl' \<and> owned (mem s') d {..<n} \<union> set fl' = owned (mem s) d {..<k} \<union> set fl \<and>
      (\<forall>va. n \<le> unat va div 4096 \<longrightarrow> lookup (mem s') d va = lookup (mem s) d va))"

lemma copy_step:
  assumes "copy_post s2 pgd n d (Suc k) fl2 r s' fl'" "k < n"
    "only_in (owned (mem s) d {..<k} \<union> set fl) (mem s) (mem s2)"
    "owned (mem s2) d {..<Suc k} \<union> set fl2 = owned (mem s) d {..<k} \<union> set fl"
    "length fl + card (tables (mem s) d) = Suc (length fl2 + card (tables (mem s2) d))"
    "\<And>va. unat va div 4096 \<noteq> k \<Longrightarrow> lookup (mem s2) d va = lookup (mem s) d va"
    "kend s2 = kend s" "kdata s2 = kdata s"
  shows "copy_post s pgd n d k fl r s' fl'"
proof -
  note b = assms(1) [unfolded copy_post_def assms(4)]
  have "only_in (owned (mem s) d {..<k} \<union> set fl) (mem s) (mem s')"
    by (rule only_in_trans [OF assms(3)]) (use b in auto)
  moreover have "length fl + card (tables (mem s) d) \<le> n - k + 1024"
    if "length fl2 + card (tables (mem s2) d) \<le> n - Suc k + 1024"
    using that assms(2,5) by linarith
  ultimately show ?thesis using b assms(2,6-8) unfolding copy_post_def by auto
qed

lemma copy_failed:
  assumes "uspace s1 d {..<k} []" "owned (mem s1) d {..<k} = owned (mem s) d {..<k}"
    "only_in (owned (mem s) d {..<k} \<union> set fl) (mem s) (mem s1)" "kend s1 = kend s" "kdata s1 = kdata s"
    "length fl \<le> 1" "k < n"
  obtains s' fl' where "freevm d s1 = OK s'" "copy_post s pgd n d k fl 0 s' fl'"
proof -
  obtain s' fl' where f: "freevm d s1 = OK s'" "free_list s' fl'" "set fl' = set [] \<union> owned (mem s1) d {..<k}"
    "only_in (owned (mem s1) d {..<k}) (mem s1) (mem s')" "kend s' = kend s1" "kdata s' = kdata s1"
    using freevm_frees [OF assms(1)] by blast
  have "only_in (owned (mem s) d {..<k} \<union> set fl) (mem s) (mem s')"
    by (rule only_in_trans [OF assms(3) f(4)]) (use assms(2) in auto)
  then have "copy_post s pgd n d k fl 0 s' fl'"
    using f assms(2,4-7) card_tables [of "mem s" d] by (auto simp: copy_post_def)
  then show thesis using that f(1) by blast
qed

lemma copyuvm_loop_copies:
  assumes "copying s pgd n d k fl" "k \<le> n" "n = upages sz"
  shows "\<exists>r s' fl'. copyuvm_loop pgd d (uaddr k) sz s = OK (r, s') \<and> copy_post s pgd n d k fl r s' fl'"
  using assms
proof (induction "n - k" arbitrary: k s fl)
  case 0
  then have kn: "k = n" by simp
  have up: "uspace s pgd {..<n} fl" using "0.prems"(1) by (simp add: copying_def)
  have "n \<le> 524288" using uspaceD(2) [OF up] by (auto simp: subset_iff not_less [symmetric])
  then have "copyuvm_loop pgd d (uaddr k) sz s = OK (d, s)"
    using kn "0.prems"(3) by (subst copyuvm_loop.simps) (simp add: uaddr_less)
  moreover have "copy_post s pgd n d k fl d s fl"
    using "0.prems"(1) kn spaceD(1) [OF uspaceD(1) [OF up]] by (simp add: copy_post_def)
  ultimately show ?case by blast
next
  case (Suc x)
  then have kn: "k < n" by simp
  have up: "uspace s pgd {..<n} fl" and ud: "uspace s d {..<k} fl" using Suc.prems(1) by (simp_all add: copying_def)
  note u = uspaceD [OF up]
  have k: "k < 524288" using u(7) [of k] kn by simp
  have lt: "uaddr k < sz" using kn Suc.prems(3) k by (simp add: uaddr_less)
  have tp: "tab_present (mem s) pgd (PDX (uaddr k))"
    using u(3) [OF k] kn by (auto simp: upresent_def lookup_def split: if_splits)
  note ue = user_entry [OF up k tp]
  note w = walkpgdir_present [OF tp, of False]
  show ?case
  proof (cases fl)
    case Nil
    have ka: "kalloc s = (0, s)" using kalloc_free_list(1) [OF spaceD(1) [OF u(1)]] Nil by simp
    obtain s' fl' where "freevm d s = OK s'" "copy_post s pgd n d k fl 0 s' fl'"
      using copy_failed [of s d k s fl n] ud Nil kn by auto
    then show ?thesis
      using lt ka w ue kn by (subst copyuvm_loop.simps) (auto simp: Let_def)
  next
    case (Cons m ps)
    note c = Suc.prems(1) [unfolded Cons]
    note ka = space_kalloc [OF u(1) [unfolded Cons]]
    show ?thesis
    proof (cases rule: copy_page [OF c kn, case_names ok full])
      case (ok s2 fl2)
      have nx: "\<not> uaddr k + 4096 \<le> uaddr k" using k by (simp add: word_le_nat_alt unat_uaddr flip: uaddr_Suc)
      have st: "copyuvm_loop pgd d (uaddr k) sz s = copyuvm_loop pgd d (uaddr (Suc k)) sz s2"
        using lt ka(1,6) w ue kn ok(1) nx
        by (subst copyuvm_loop.simps) (simp add: Let_def upage_def uaddr_Suc)
      have "x = n - Suc k" "Suc k \<le> n" using Suc.hyps(2) kn by simp_all
      with Suc.hyps(1) [OF _ ok(2)] Suc.prems(3)
      obtain r s' fl' where r: "copyuvm_loop pgd d (uaddr (Suc k)) sz s2 = OK (r, s')"
        "copy_post s2 pgd n d (Suc k) fl2 r s' fl'" by blast
      have "copy_post s pgd n d k (m # ps) r s' fl'" by (rule copy_step [OF r(2) kn ok(3-8)])
      then show ?thesis using st r(1) Cons by auto
    next
      case full
      obtain s' fl' where "freevm d (s\<lparr>freelist := load32 (mem s) m,
          mem := memmove (mem s) m (upage (mem s) pgd k) 4096\<rparr>) = OK s'" "copy_post s pgd n d k fl 0 s' fl'"
        using copy_failed [OF full(3,4) only_in_mono [OF full(5)] full(6,7), of fl n] Cons full(2) kn by auto
      then show ?thesis
        using lt ka(1,6) w ue kn full(1)
        by (subst copyuvm_loop.simps) (auto simp: Let_def upage_def)
    qed
  qed
qed

lemma copying_umem:
  assumes "copying s pgd n d n fl" "unat va < 2147483648"
  shows "umem (mem s) d va = umem (mem s) pgd va"
    and "unat va div 4096 < n \<Longrightarrow> PTE_FLAGS (lookup (mem s) d va) = PTE_FLAGS (lookup (mem s) pgd va)"
proof -
  let ?k = "unat va div 4096"
  have up: "uspace s pgd {..<n} fl" and ud: "uspace s d {..<n} fl" using assms(1) by (simp_all add: copying_def)
  note k = user_page_number [OF assms(2)]
  have "upresent (mem s) d ?k = upresent (mem s) pgd ?k" "upresent (mem s) pgd ?k \<longleftrightarrow> ?k < n"
    using uspaceD(3) [OF up k] uspaceD(3) [OF ud k] by simp_all
  moreover have "unat (va AND 0xFFF) < 4096" by (simp add: mask_twelve take_bit_eq_mod unat_mod)
  ultimately show "umem (mem s) d va = umem (mem s) pgd va"
    unfolding umem_page using assms(1) by (simp add: copying_def)
  have l: "lookup (mem s) x va = lookup (mem s) x (uaddr ?k)" for x
    unfolding PGROUNDDOWN_uaddr [symmetric] by simp
  show "PTE_FLAGS (lookup (mem s) d va) = PTE_FLAGS (lookup (mem s) pgd va)" if "?k < n"
    unfolding l [of d] l [of pgd] using assms(1) that by (simp add: copying_def)
qed

text \<open>Another address space is not affected by work on free pages.\<close>

lemma uspace_aside:
  assumes "uspace s pgd P fl" "only_in Q (mem s) (mem s')" "free_list s' fl'" "kend s' = kend s"
    "owned (mem s) pgd P \<inter> (Q \<union> set fl') = {}"
  shows "uspace s' pgd P fl'" "owned (mem s') pgd P = owned (mem s) pgd P"
    "lookup (mem s') pgd va = lookup (mem s) pgd va"
    "unat va < 2147483648 \<Longrightarrow> umem (mem s') pgd va = umem (mem s) pgd va"
proof -
  note k = uspace_kept [OF assms(1-3) _ assms(4)]
  have d: "owned (mem s) pgd P \<inter> set fl' = {}" "Q \<inter> owned (mem s) pgd P = {}" using assms(5) by auto
  show "uspace s' pgd P fl'" by (rule k(1) [OF d])
  have l: "lookup (mem s') pgd v = lookup (mem s) pgd v" for v by (rule k(3) [OF d])
  then show "lookup (mem s') pgd va = lookup (mem s) pgd va" .
  have "upage (mem s') pgd = upage (mem s) pgd" by (simp add: fun_eq_iff upage_def l)
  then show "owned (mem s') pgd P = owned (mem s) pgd P" using k(2) [OF d] by (simp add: owned_def)
  show "umem (mem s') pgd va = umem (mem s) pgd va" if "unat va < 2147483648"
    by (rule umem_kept [OF assms(1,2) that l]) (use d(2) in \<open>auto simp: owned_def\<close>)
qed

lemma fresh_copying:
  assumes "uspace s pgd {..<n} fl" "setup_post s fl d s1 fl1" "d \<noteq> 0"
  shows "copying s1 pgd n d 0 fl1" "length fl = Suc (length fl1 + card (tables (mem s1) d))"
    "owned (mem s1) d {} \<union> set fl1 = set fl"
proof -
  note p = assms(2) [unfolded setup_post_def] and o = uspace_owned_free [OF assms(1)]
  have fr: "fresh_space s fl d s1 fl1" using p assms(3) by simp
  then obtain used where used: "fl = used @ fl1" "insert d (tables (mem s1) d) = set used" and ud: "uspace s1 d {} fl1"
    unfolding fresh_space_def by blast
  have "uspace s1 pgd {..<n} fl1" "owned (mem s1) pgd {..<n} = owned (mem s) pgd {..<n}"
    using uspace_aside(1,2) [OF assms(1), of "set fl" s1 fl1] p o used by auto
  then show "copying s1 pgd n d 0 fl1" using ud used o by (auto simp: copying_def owned_def)
  have "distinct used" using spaceD(1) [OF uspaceD(1) [OF assms(1)]] used(1) by (simp add: free_list_def)
  then have "length used = card (insert d (tables (mem s1) d))" using used(2) by (simp add: distinct_card)
  then show "length fl = Suc (length fl1 + card (tables (mem s1) d))"
    using used(1) spaceD(6) [OF uspaceD(1) [OF ud]] tables_finite by simp
  show "owned (mem s1) d {} \<union> set fl1 = set fl" using used by (simp add: owned_def)
qed

definition copied :: "'z mstate_scheme \<Rightarrow> u32 \<Rightarrow> nat \<Rightarrow> u32 list \<Rightarrow> u32 \<Rightarrow> 'z mstate_scheme \<Rightarrow> u32 list \<Rightarrow> bool" where
  "copied s pgd n fl d s' fl' \<longleftrightarrow> uspace s' d {..<n} fl' \<and>
     owned (mem s') pgd {..<n} \<inter> owned (mem s') d {..<n} = {} \<and>
     (\<forall>va. unat va < 2147483648 \<longrightarrow> umem (mem s') d va = umem (mem s) pgd va) \<and>
     (\<forall>va. unat va div 4096 < n \<longrightarrow> PTE_FLAGS (lookup (mem s') d va) = PTE_FLAGS (lookup (mem s) pgd va)) \<and>
     (\<forall>va. 2147483648 \<le> unat va \<longrightarrow> lookup (mem s') d va = kentry s va)"

lemma copyuvm_copies:
  assumes up: "uspace s pgd {..<upages sz} fl"
    and kd: "kdata s mod 4096 = 0" "KERNLINK < kdata s" "kdata s < P2V PHYSTOP"
  shows "\<exists>d s' fl'. copyuvm pgd sz s = OK (d, s') \<and> uspace s' pgd {..<upages sz} fl' \<and>
    only_in (set fl) (mem s) (mem s') \<and> kend s' = kend s \<and> kdata s' = kdata s \<and> set fl' \<subseteq> set fl \<and>
    (if d = 0 then length fl \<le> upages sz + 1025
     else copied s pgd (upages sz) fl d s' fl' \<and> owned (mem s') d {..<upages sz} \<subseteq> set fl)"
proof -
  let ?n = "upages sz"
  have f: "free_list s fl" "KERNBASE < kend s" using spaceD(1,11) [OF uspaceD(1) [OF up]] .
  have o: "owned (mem s) pgd {..<?n} \<inter> set fl = {}" by (rule uspace_owned_free [OF up])
  obtain d s1 fl1 where s1: "setupkvm s = OK (d, s1)" "setup_post s fl d s1 fl1"
    using setupkvm_maps [OF f kd] by blast
  show ?thesis
  proof (cases "d = 0")
    case True
    then have "uspace s1 pgd {..<?n} []" using uspace_aside(1) [OF up, of "set fl" s1 "[]"] s1(2) o by (auto simp: setup_post_def)
    then show ?thesis using True s1 by (auto simp: copyuvm_def setup_post_def)
  next
    case False
    note c = fresh_copying [OF up s1(2) False]
    have z: "uaddr 0 = 0" by (simp add: uaddr_def)
    obtain r s' fl' where r: "copyuvm_loop pgd d 0 sz s1 = OK (r, s')" "copy_post s1 pgd ?n d 0 fl1 r s' fl'"
      using copyuvm_loop_copies [OF c(1) _ refl] by (auto simp: z)
    have l0: "owned (mem s1) d {..<0} \<union> set fl1 = set fl" using c(3) by simp
    note b = r(2) [unfolded copy_post_def l0]
    have p: "free_list s1 fl1" "only_in (set fl) (mem s) (mem s1)" "kend s1 = kend s" "kdata s1 = kdata s"
      "\<forall>va. lookup (mem s1) d va = kentry s va"
      using s1(2) False by (simp_all add: setup_post_def fresh_space_def)
    have oi: "only_in (set fl) (mem s) (mem s')" by (rule only_in_trans [OF p(2)]) (use b in auto)
    have ke: "kend s' = kend s" "kdata s' = kdata s" using b p by simp_all
    have fl': "free_list s' fl'" "owned (mem s) pgd {..<?n} \<inter> (set fl \<union> set fl') = {}" using b o by auto
    have up': "uspace s' pgd {..<?n} fl'" "\<And>va. unat va < 2147483648 \<Longrightarrow> umem (mem s') pgd va = umem (mem s) pgd va"
      "\<And>va. lookup (mem s') pgd va = lookup (mem s) pgd va"
      using uspace_aside [OF up oi fl'(1) ke(1) fl'(2)] by auto
    have res: "copyuvm pgd sz s = OK (r, s')" using s1(1) False r(1) by (simp add: copyuvm_def)
    show ?thesis
    proof (cases "r = 0")
      case True
      then have "length fl1 + card (tables (mem s1) d) \<le> ?n - 0 + 1024" using b False by auto
      then show ?thesis using res up'(1) b oi ke True c(2) by auto
    next
      case rn: False
      then have cp: "r = d" "copying s' pgd ?n d ?n fl'" "\<forall>va. ?n \<le> unat va div 4096 \<longrightarrow> lookup (mem s') d va = lookup (mem s1) d va"
        using b by auto
      have n: "?n \<le> 524288" using uspaceD(2) [OF up] by (auto simp: subset_iff not_less [symmetric])
      have "copied s pgd ?n fl d s' fl'"
        unfolding copied_def
      proof (intro conjI allI impI)
        show "uspace s' d {..<?n} fl'" "owned (mem s') pgd {..<?n} \<inter> owned (mem s') d {..<?n} = {}"
          using cp(2) by (simp_all add: copying_def)
        show "umem (mem s') d va = umem (mem s) pgd va" if "unat va < 2147483648" for va
          using copying_umem(1) [OF cp(2) that] up'(2) [OF that] by simp
        show "PTE_FLAGS (lookup (mem s') d va) = PTE_FLAGS (lookup (mem s) pgd va)" if "unat va div 4096 < ?n" for va
          using copying_umem(2) [OF cp(2) _ that] up'(3) that n by simp
        show "lookup (mem s') d va = kentry s va" if "2147483648 \<le> unat va" for va
          using cp(3) p(5) div_le_mono [OF that, of 4096] n by simp
      qed
      moreover have "owned (mem s') d {..<?n} \<subseteq> set fl" using b rn by auto
      ultimately show ?thesis using res up'(1) b oi ke cp(1) False by auto
    qed
  qed
qed

end
