(* ===== verification/Process_Space.thy ===== *)
theory Process_Space
  imports Vm_Fork Outcomes Proc_Life
begin

text \<open>
  The memory of processes: how growproc, fork and wait of proc.c change the address spaces, on top of
  what vm.c does to page tables.
\<close>

subsection \<open>What virtual memory leaves alone\<close>

definition beside :: "'z mstate_scheme \<Rightarrow> 'z mstate_scheme \<Rightarrow> bool" where
  "beside s0 s \<longleftrightarrow> s\<lparr>mem := mem s0, freelist := freelist s0\<rparr> = s0"

lemma beside_refl [simp]: "beside s s"
  by (simp add: beside_def)

interpretation same_vm: memory_frame "beside s0" for s0
  by unfold_locales (simp_all add: beside_def)

lemma safe_result: "r = OK x \<Longrightarrow> safe r Q \<Longrightarrow> Q x"
  by (simp add: safe_def)

lemma vm_beside:
  "allocuvm pgd a b s = OK (r, s') \<Longrightarrow> beside s s'"
  "deallocuvm pgd a b s = OK (r, s') \<Longrightarrow> beside s s'"
  "copyuvm pgd a s = OK (r, s') \<Longrightarrow> beside s s'"
  "freevm pgd s = OK s' \<Longrightarrow> beside s s'"
  "kfree s a = OK s' \<Longrightarrow> beside s s'"
  using safe_result [OF _ same_vm.kept_allocuvm [OF beside_refl]] safe_result [OF _ same_vm.kept_deallocuvm [OF beside_refl]]
    safe_result [OF _ same_vm.kept_copyuvm [OF beside_refl]] safe_result [OF _ same_vm.kept_freevm [OF beside_refl]]
    safe_result [OF _ same_vm.kept_kfree [OF beside_refl]]
  by auto

lemma beside_procs:
  fixes s :: "'z procs_scheme"
  assumes "beside s0 s"
  shows "ptable s = ptable s0" "nextpid s = nextpid s0" "curproc s = curproc s0" "initproc s = initproc s0"
proof -
  have e: "s\<lparr>mem := mem s0, freelist := freelist s0\<rparr> = s0" using assms by (simp add: beside_def)
  show "ptable s = ptable s0" using arg_cong [OF e, of ptable] by simp
  show "nextpid s = nextpid s0" using arg_cong [OF e, of nextpid] by simp
  show "curproc s = curproc s0" using arg_cong [OF e, of curproc] by simp
  show "initproc s = initproc s0" using arg_cong [OF e, of initproc] by simp
qed

lemma beside_fils:
  fixes s :: "'z fils_scheme"
  assumes "beside s0 s"
  shows "ftable s = ftable s0" "icache s = icache s0"
proof -
  have e: "s\<lparr>mem := mem s0, freelist := freelist s0\<rparr> = s0" using assms by (simp add: beside_def)
  show "ftable s = ftable s0" using arg_cong [OF e, of ftable] by simp
  show "icache s = icache s0" using arg_cong [OF e, of icache] by simp
qed

text \<open>An address space depends on nothing but the memory, its free list and the end of the kernel.\<close>

lemma free_list_cong: "mem s' = mem s \<Longrightarrow> freelist s' = freelist s \<Longrightarrow> kend s' = kend s \<Longrightarrow> free_list s' fl = free_list s fl"
  by (simp add: free_list_def)

lemma uspace_cong: "mem s' = mem s \<Longrightarrow> freelist s' = freelist s \<Longrightarrow> kend s' = kend s \<Longrightarrow> uspace s' pgd P fl = uspace s pgd P fl"
  by (simp add: uspace_def space_def free_list_cong [of s' s])

subsection \<open>Growing and shrinking\<close>

lemma switchuvm_ok:
  assumes "kstack (proc_at s i) \<noteq> 0" "pgdir (proc_at s i) \<noteq> 0"
  shows "switchuvm s (Some i) = OK (s\<lparr>ts_esp0 := kstack (proc_at s i) + 4096, cr3 := V2P (pgdir (proc_at s i))\<rparr>)"
  using assms by (simp add: switchuvm_def)

lemma unat_resized:
  assumes "- int (unat (sz :: u32)) \<le> n" "int (unat sz) + n < 2147483648"
  shows "int (unat (sz + word_of_int n)) = int (unat sz) + n"
proof -
  have "int (unat (sz + word_of_int n)) = (int (unat sz) + n) mod 4294967296"
    by (simp add: uint_word_ariths uint_word_of_int flip: uint_nat) (simp add: mod_simps)
  then show ?thesis using assms by simp
qed

text \<open>The bytes a process sees after its size has changed from \<open>m\<close> to \<open>n\<close> pages.\<close>

definition resized :: "mem \<Rightarrow> u32 \<Rightarrow> nat \<Rightarrow> mem \<Rightarrow> nat \<Rightarrow> bool" where
  "resized m0 pgd m m1 n \<longleftrightarrow> (\<forall>va. unat va < 2147483648 \<longrightarrow>
     umem m1 pgd va = (if unat va div 4096 < min m n then umem m0 pgd va
                       else if unat va div 4096 < n then Some 0 else None))"

lemma grew_length:
  assumes "grew s pgd P fl s' P' fl'" "uspace s pgd P fl" "finite P'"
  shows "length fl \<le> length fl' + card P' + 1024"
proof -
  obtain used where u: "fl = used @ fl'" "tables (mem s') pgd \<union> upage (mem s') pgd ` (P' - P) = tables (mem s) pgd \<union> set used"
    using assms(1) unfolding grew_def by blast
  have "distinct used" using spaceD(1) [OF uspaceD(1) [OF assms(2)]] u(1) by (simp add: free_list_def)
  then have "length used = card (set used)" by (simp add: distinct_card)
  also have "\<dots> \<le> card (tables (mem s') pgd \<union> upage (mem s') pgd ` (P' - P))"
    by (rule card_mono) (use u(2) assms(3) tables_finite in auto)
  also have "\<dots> \<le> card (tables (mem s') pgd) + card (upage (mem s') pgd ` (P' - P))" by (rule card_Un_le)
  also have "card (upage (mem s') pgd ` (P' - P)) \<le> card P'"
    using card_image_le [of "P' - P" "upage (mem s') pgd"] card_mono [OF assms(3), of "P' - P"] assms(3) by fastforce
  finally show ?thesis using u(1) card_tables [of "mem s'" pgd] by simp
qed

text \<open>No page is lost or made up: the pages of the address space and the free ones stay the same together.\<close>

lemma upages_kept:
  assumes "P \<subseteq> {..<524288}" "\<And>va. unat va div 4096 \<in> P \<Longrightarrow> lookup m' pgd va = lookup m pgd va"
  shows "upage m' pgd ` P = upage m pgd ` P"
  by (rule image_cong [OF refl upage_kept], rule assms(2)) (use assms(1) uaddr_div in auto)

lemma shrunk_pages:
  assumes "shrunk s pgd P fl s' P' fl'" "uspace s pgd P fl"
  shows "owned (mem s') pgd P' \<union> set fl' = owned (mem s) pgd P \<union> set fl"
proof -
  have "upage (mem s') pgd ` P' = upage (mem s) pgd ` P'"
    by (rule upages_kept) (use assms uspaceD(2) [OF assms(2)] in \<open>auto simp: shrunk_def\<close>)
  moreover have "P = P' \<union> (P - P')" using assms(1) by (auto simp: shrunk_def)
  then have "upage (mem s) pgd ` P = upage (mem s) pgd ` P' \<union> upage (mem s) pgd ` (P - P')" by (metis image_Un)
  ultimately show ?thesis using assms(1) unfolding shrunk_def owned_def by auto
qed

lemma grew_pages:
  assumes "grew s pgd P fl s' P' fl'" "uspace s pgd P fl"
  shows "owned (mem s') pgd P' \<union> set fl' = owned (mem s) pgd P \<union> set fl"
proof -
  obtain used where u: "fl = used @ fl'"
    "tables (mem s') pgd \<union> upage (mem s') pgd ` (P' - P) = tables (mem s) pgd \<union> set used"
    using assms(1) by (auto simp: grew_def)
  have "upage (mem s') pgd ` P = upage (mem s) pgd ` P"
    by (rule upages_kept) (use assms uspaceD(2) [OF assms(2)] in \<open>auto simp: grew_def\<close>)
  moreover have "P' = P \<union> (P' - P)" using assms(1) by (auto simp: grew_def)
  then have "upage (mem s') pgd ` P' = upage (mem s') pgd ` P \<union> upage (mem s') pgd ` (P' - P)" by (metis image_Un)
  ultimately show ?thesis using u unfolding owned_def by auto
qed

lemma undone_pages:
  assumes "undone s pgd n n N fl s' fl'" "uspace s pgd {..<n} fl"
  shows "owned (mem s') pgd {..<n} \<union> set fl' = owned (mem s) pgd {..<n} \<union> set fl"
proof -
  have "upage (mem s') pgd ` {..<n} = upage (mem s) pgd ` {..<n}"
    by (rule upages_kept) (use assms uspaceD(2) [OF assms(2)] in \<open>auto simp: undone_def\<close>)
  then show ?thesis using assms(1) unfolding undone_def owned_def by auto
qed

lemma allocuvm_grows:
  assumes "uspace s pgd {..<upages oldsz} fl" "oldsz \<le> newsz" "newsz < KERNBASE"
  obtains (ok) s' fl' where "allocuvm pgd oldsz newsz s = OK (newsz, s')" "uspace s' pgd {..<upages newsz} fl'"
      "resized (mem s) pgd (upages oldsz) (mem s') (upages newsz)"
      "owned (mem s') pgd {..<upages newsz} \<union> set fl' = owned (mem s) pgd {..<upages oldsz} \<union> set fl"
      "length fl \<le> length fl' + upages newsz + 1024"
  | (full) s' fl' where "allocuvm pgd oldsz newsz s = OK (0, s')" "uspace s' pgd {..<upages oldsz} fl'"
      "\<And>va. unat va < 2147483648 \<Longrightarrow> umem (mem s') pgd va = umem (mem s) pgd va"
      "owned (mem s') pgd {..<upages oldsz} \<union> set fl' = owned (mem s) pgd {..<upages oldsz} \<union> set fl"
      "length fl \<le> upages newsz - upages oldsz + 1024"
proof -
  have n: "unat newsz < 2147483648" using assms(3) by (simp add: word_less_nat_alt)
  have le: "unat oldsz \<le> unat newsz" using assms(2) by (simp add: word_le_nat_alt)
  have k: "upages oldsz \<le> upages newsz" using le by (simp add: upages_def div_le_mono)
  obtain r s' fl' where r: "allocuvm_loop pgd (uaddr (upages oldsz)) oldsz newsz s = OK (r, s')"
    "r = newsz \<and> grew s pgd {..<upages oldsz} fl s' {..<upages newsz} fl' \<or>
     r = 0 \<and> undone s pgd (upages oldsz) (upages oldsz) (upages newsz) fl s' fl'"
    using allocuvm_loop_grows [OF assms(1) order_refl k] n by auto
  have "\<not> KERNBASE \<le> newsz" "\<not> newsz < oldsz" using assms(2,3) by auto
  then have al: "allocuvm pgd oldsz newsz s = OK (r, s')"
    using r(1) PGROUNDUP_uaddr [of oldsz] le n by (simp add: allocuvm_def)
  show thesis
  proof (cases "r = newsz \<and> grew s pgd {..<upages oldsz} fl s' {..<upages newsz} fl'")
    case True
    then have g: "grew s pgd {..<upages oldsz} fl s' {..<upages newsz} fl'" by simp
    have "resized (mem s) pgd (upages oldsz) (mem s') (upages newsz)"
      unfolding resized_def
    proof (intro allI impI)
      fix va :: u32 assume va: "unat va < 2147483648"
      have "umem (mem s) pgd va = None" if "upages oldsz \<le> unat va div 4096"
        unfolding umem_page using uspaceD(3) [OF assms(1) user_page_number [OF va]] that by simp
      then show "umem (mem s') pgd va = (if unat va div 4096 < min (upages oldsz) (upages newsz) then umem (mem s) pgd va
            else if unat va div 4096 < upages newsz then Some 0 else None)"
        using grew_umem [OF g assms(1) va] k by auto
    qed
    then show ?thesis using ok al True grew_pages [OF g assms(1)] grew_length [OF g assms(1)] by (auto simp: grew_def)
  next
    case False
    then have u: "r = 0" "undone s pgd (upages oldsz) (upages oldsz) (upages newsz) fl s' fl'" using r(2) by auto
    then show ?thesis
      using full al undone_umem [OF u(2) assms(1)] undone_pages [OF u(2) assms(1)] unfolding undone_def by auto
  qed
qed

lemma deallocuvm_resizes:
  assumes "uspace s pgd {..<upages oldsz} fl" "newsz < oldsz" "unat oldsz \<le> 2147483648"
  obtains s' fl' where "deallocuvm pgd oldsz newsz s = OK (newsz, s')" "uspace s' pgd {..<upages newsz} fl'"
    "resized (mem s) pgd (upages oldsz) (mem s') (upages newsz)"
    "set fl' = set fl \<union> upage (mem s) pgd ` {upages newsz..<upages oldsz}"
    "owned (mem s') pgd {..<upages newsz} \<union> set fl' = owned (mem s) pgd {..<upages oldsz} \<union> set fl"
proof -
  have k: "upages newsz \<le> upages oldsz" using assms(2) by (simp add: upages_def div_le_mono word_less_nat_alt)
  then have d: "{..<upages oldsz} - {upages newsz..<upages oldsz} = {..<upages newsz}" by auto
  obtain s' fl' where s': "deallocuvm pgd oldsz newsz s = OK (newsz, s')"
    "shrunk s pgd {..<upages oldsz} fl s' {..<upages newsz} fl'"
    using deallocuvm_shrinks [OF assms] unfolding d by blast
  have "resized (mem s) pgd (upages oldsz) (mem s') (upages newsz)"
    unfolding resized_def
  proof (intro allI impI)
    fix va :: u32 assume va: "unat va < 2147483648"
    have "umem (mem s) pgd va = None" if "upages oldsz \<le> unat va div 4096"
      unfolding umem_page using uspaceD(3) [OF assms(1) user_page_number [OF va]] that by simp
    then show "umem (mem s') pgd va = (if unat va div 4096 < min (upages oldsz) (upages newsz) then umem (mem s) pgd va
          else if unat va div 4096 < upages newsz then Some 0 else None)"
      using shrunk_umem [OF s'(2) assms(1) va] k by auto
  qed
  moreover have e: "{..<upages oldsz} - {..<upages newsz} = {upages newsz..<upages oldsz}" by auto
  moreover have "uspace s' pgd {..<upages newsz} fl'" "set fl' = set fl \<union> upage (mem s) pgd ` {upages newsz..<upages oldsz}"
    using s'(2) unfolding shrunk_def e by blast+
  ultimately show thesis using that s'(1) shrunk_pages [OF s'(2) assms(1)] by blast
qed

text \<open>The current process, with a kernel stack and an address space of its size.\<close>

definition running :: "'z fils_scheme \<Rightarrow> nat \<Rightarrow> u32 list \<Rightarrow> bool" where
  "running s i fl \<longleftrightarrow> curproc s = Some i \<and> i < length (ptable s) \<and> kstack (proc_at s i) \<noteq> 0 \<and>
     uspace s (pgdir (proc_at s i)) {..<upages (psz (proc_at s i))} fl"

lemma running_size:
  assumes "running s i fl"
  shows "unat (psz (proc_at s i)) \<le> 2147483648" "pgdir (proc_at s i) \<noteq> 0"
proof -
  have u: "uspace s (pgdir (proc_at s i)) {..<upages (psz (proc_at s i))} fl" using assms by (simp add: running_def)
  have "upages (psz (proc_at s i)) \<le> 524288" using uspaceD(2) [OF u] by (auto simp: subset_iff not_less [symmetric])
  then show "unat (psz (proc_at s i)) \<le> 2147483648" by (simp add: upages_def)
  show "pgdir (proc_at s i) \<noteq> 0" using page_ok_nonzero [OF spaceD(3,2) [OF uspaceD(1) [OF u]]] by auto
qed

text \<open>The end of growproc: the new size is stored and the page table loaded again.\<close>

lemma grown_process:
  fixes s s1 :: "'z fils_scheme"
  assumes "running s i fl" "beside s s1" "uspace s1 (pgdir (proc_at s i)) {..<upages sz} fl1"
  shows "\<exists>s'. kbind (switchuvm (upd_proc s1 i (\<lambda>p. p\<lparr>psz := sz\<rparr>)) (Some i)) (\<lambda>s. OK (0 :: int, s)) = OK (0, s') \<and>
    running s' i fl1 \<and> proc_at s' i = (proc_at s i)\<lparr>psz := sz\<rparr> \<and> mem s' = mem s1"
proof -
  note b = beside_procs [OF assms(2)]
  note r = assms(1) [unfolded running_def] running_size(2) [OF assms(1)]
  let ?u = "upd_proc s1 i (\<lambda>p. p\<lparr>psz := sz\<rparr>)"
  have p: "proc_at ?u i = (proc_at s i)\<lparr>psz := sz\<rparr>" using r by (simp add: b)
  have sw: "switchuvm ?u (Some i) = OK (?u\<lparr>ts_esp0 := kstack (proc_at ?u i) + 4096, cr3 := V2P (pgdir (proc_at ?u i))\<rparr>)"
    by (rule switchuvm_ok) (use r p in simp_all)
  let ?s' = "?u\<lparr>ts_esp0 := kstack (proc_at ?u i) + 4096, cr3 := V2P (pgdir (proc_at ?u i))\<rparr>"
  have "uspace ?s' (pgdir (proc_at s i)) {..<upages sz} fl1 = uspace s1 (pgdir (proc_at s i)) {..<upages sz} fl1"
    by (rule uspace_cong) simp_all
  then have "running ?s' i fl1" using r p assms(3) by (simp add: running_def b)
  then show ?thesis using sw p by auto
qed

lemma resized_same:
  assumes "uspace s pgd {..<n} fl" "\<And>va. unat va < 2147483648 \<Longrightarrow> umem m1 pgd va = umem (mem s) pgd va"
  shows "resized (mem s) pgd n m1 n"
  unfolding resized_def
proof (intro allI impI)
  fix va :: u32 assume va: "unat va < 2147483648"
  have "umem (mem s) pgd va = None" if "n \<le> unat va div 4096"
    unfolding umem_page using uspaceD(3) [OF assms(1) user_page_number [OF va]] that by simp
  then show "umem m1 pgd va = (if unat va div 4096 < min n n then umem (mem s) pgd va
      else if unat va div 4096 < n then Some 0 else None)"
    using assms(2) [OF va] by auto
qed

lemma growproc_up:
  fixes s :: "'z fils_scheme"
  assumes r: "running s i fl"
  defines "sz \<equiv> psz (proc_at s i)" and "pgd \<equiv> pgdir (proc_at s i)"
  assumes n: "0 < n" "int (unat sz) + n < 2147483648"
  shows "\<exists>r s' fl'. growproc n s = OK (r, s') \<and> running s' i fl' \<and>
    owned (mem s') pgd {..<upages (psz (proc_at s' i))} \<union> set fl' = owned (mem s) pgd {..<upages sz} \<union> set fl \<and>
    (r = 0 \<and> proc_at s' i = (proc_at s i)\<lparr>psz := sz + word_of_int n\<rparr> \<and>
       resized (mem s) pgd (upages sz) (mem s') (upages (sz + word_of_int n)) \<or>
     r = -1 \<and> proc_at s' i = proc_at s i \<and> resized (mem s) pgd (upages sz) (mem s') (upages sz) \<and>
       length fl \<le> upages (sz + word_of_int n) - upages sz + 1024)"
proof -
  let ?new = "sz + word_of_int n"
  have new: "int (unat ?new) = int (unat sz) + n" by (rule unat_resized) (use n in linarith)+
  then have "0 < int (unat ?new)" using n by linarith
  then have le: "sz \<le> ?new" "?new < KERNBASE" "?new \<noteq> 0"
    using n new by (auto simp: word_le_def word_less_def)
  have c: "curproc s = Some i" and u: "uspace s pgd {..<upages sz} fl"
    using r by (simp_all add: running_def sz_def pgd_def)
  show ?thesis
  proof (rule allocuvm_grows [OF u le(1,2)])
    fix s1 fl1 assume a: "allocuvm pgd sz ?new s = OK (?new, s1)" "uspace s1 pgd {..<upages ?new} fl1"
      "resized (mem s) pgd (upages sz) (mem s1) (upages ?new)"
      "owned (mem s1) pgd {..<upages ?new} \<union> set fl1 = owned (mem s) pgd {..<upages sz} \<union> set fl"
      "length fl \<le> length fl1 + upages ?new + 1024"
    from grown_process [OF r vm_beside(1) [OF a(1)] a(2) [unfolded pgd_def]]
    obtain s' where "kbind (switchuvm (upd_proc s1 i (\<lambda>p. p\<lparr>psz := ?new\<rparr>)) (Some i)) (\<lambda>s. OK (0 :: int, s)) = OK (0, s')"
      "running s' i fl1" "proc_at s' i = (proc_at s i)\<lparr>psz := ?new\<rparr>" "mem s' = mem s1" by blast
    then show ?thesis
      using n(1) c a(1,3,4) le(3) by (auto simp: growproc_def sz_def pgd_def)
  next
    fix s1 fl1 assume a: "allocuvm pgd sz ?new s = OK (0, s1)" "uspace s1 pgd {..<upages sz} fl1"
      "\<And>va. unat va < 2147483648 \<Longrightarrow> umem (mem s1) pgd va = umem (mem s) pgd va"
      "owned (mem s1) pgd {..<upages sz} \<union> set fl1 = owned (mem s) pgd {..<upages sz} \<union> set fl"
      "length fl \<le> upages ?new - upages sz + 1024"
    note b = beside_procs [OF vm_beside(1) [OF a(1)]]
    have "growproc n s = OK (-1, s1)" using n(1) c a(1) by (simp add: growproc_def sz_def pgd_def)
    moreover have "running s1 i fl1" using r a(2) by (simp add: running_def b sz_def pgd_def)
    ultimately show ?thesis using a(4,5) resized_same [OF u a(3)] by (auto simp: b sz_def)
  qed
qed

lemma growproc_down:
  fixes s :: "'z fils_scheme"
  assumes r: "running s i fl"
  defines "sz \<equiv> psz (proc_at s i)" and "pgd \<equiv> pgdir (proc_at s i)"
  assumes n: "n < 0" "- int (unat sz) < n"
  shows "\<exists>s' fl'. growproc n s = OK (0, s') \<and> running s' i fl' \<and> proc_at s' i = (proc_at s i)\<lparr>psz := sz + word_of_int n\<rparr> \<and>
    resized (mem s) pgd (upages sz) (mem s') (upages (sz + word_of_int n)) \<and>
    owned (mem s') pgd {..<upages (sz + word_of_int n)} \<union> set fl' = owned (mem s) pgd {..<upages sz} \<union> set fl"
proof -
  let ?new = "sz + word_of_int n"
  have b: "unat sz \<le> 2147483648" using running_size(1) [OF r] by (simp add: sz_def)
  have "int (unat sz) \<le> 2147483648" using of_nat_mono [OF b, where 'a = int] by (simp only: of_nat_numeral)
  then have new: "int (unat ?new) = int (unat sz) + n" by (intro unat_resized) (use n in linarith)+
  then have le: "?new < sz" "?new \<noteq> 0" using n by (auto simp: word_less_def)
  have c: "curproc s = Some i" and u: "uspace s pgd {..<upages sz} fl"
    using r by (simp_all add: running_def sz_def pgd_def)
  obtain s1 fl1 where a: "deallocuvm pgd sz ?new s = OK (?new, s1)" "uspace s1 pgd {..<upages ?new} fl1"
      "resized (mem s) pgd (upages sz) (mem s1) (upages ?new)"
      "owned (mem s1) pgd {..<upages ?new} \<union> set fl1 = owned (mem s) pgd {..<upages sz} \<union> set fl"
    by (rule deallocuvm_resizes [OF u le(1) b])
  from grown_process [OF r vm_beside(2) [OF a(1)] a(2) [unfolded pgd_def]]
  obtain s' where "kbind (switchuvm (upd_proc s1 i (\<lambda>p. p\<lparr>psz := ?new\<rparr>)) (Some i)) (\<lambda>s. OK (0 :: int, s)) = OK (0, s')"
    "running s' i fl1" "proc_at s' i = (proc_at s i)\<lparr>psz := ?new\<rparr>" "mem s' = mem s1" by blast
  then show ?thesis
    using n(1) c a(1,3,4) le(2) by (auto simp: growproc_def sz_def pgd_def)
qed

lemma growproc_zero:
  fixes s :: "'z fils_scheme"
  assumes r: "running s i fl"
  shows "\<exists>s'. growproc 0 s = OK (0, s') \<and> running s' i fl \<and> proc_at s' i = proc_at s i \<and> mem s' = mem s"
proof -
  have u: "uspace s (pgdir (proc_at s i)) {..<upages (psz (proc_at s i))} fl" "curproc s = Some i"
    using r by (simp_all add: running_def)
  from grown_process [OF r beside_refl u(1)] u(2) show ?thesis by (auto simp: growproc_def)
qed

subsection \<open>An example\<close>

text \<open>A machine with all of its memory free, and a process in its first slot.\<close>

lemma pages_between_many: "8192 \<le> card (pages_between 0x80200000 0x8E000000)"
proof -
  let ?f = "\<lambda>k. uaddr (0x80200 + k)"
  have u: "unat (?f k) = 0x80200000 + 4096 * k" if "k < 8192" for k using that unat_uaddr [of "0x80200 + k"] by simp
  have "inj_on ?f {..<8192}"
  proof (rule inj_onI)
    fix x y assume xy: "x \<in> {..<8192}" "y \<in> {..<8192}" "?f x = ?f y"
    then show "x = y" using uaddr_inj [OF xy(3)] by simp
  qed
  then have "card (?f ` {..<8192}) = 8192" by (simp add: card_image)
  moreover have "?f ` {..<8192} \<subseteq> pages_between 0x80200000 0x8E000000"
    using u uaddr_aligned by (auto simp: pages_between_def word_le_nat_alt)
  moreover have "finite (pages_between 0x80200000 0x8E000000)" by simp
  ultimately show ?thesis by (metis card_mono)
qed

lemma machine_memory: "\<exists>(s :: mstate) fl. free_list s fl \<and> kend s = 0x80100000 \<and> 8192 \<le> length fl"
proof -
  have k: "kend boot_mem = 0x80100000" by (simp add: boot_mem_def)
  obtain s' :: mstate and ys where s: "free_list s' (ys @ [])" "set ys = pages_between 0x80200000 0x8E000000" "kend s' = 0x80100000"
    using freerange_loop_free_list [OF boot_mem_free_list, of "0x80200000" "0x8E000000"] k by auto
  have "distinct ys" using s(1) by (simp add: free_list_def)
  then have "length ys = card (pages_between 0x80200000 0x8E000000)" using distinct_card [of ys] unfolding s(2) by simp
  then have "8192 \<le> length ys" using pages_between_many by simp
  then show ?thesis using s(1,3) by auto
qed

definition proc_start :: fils where
  "proc_start = (pips.extend boot_pipe \<lparr>ftable = replicate NFILE
       \<lparr>f_type = FD_NONE, f_ref = 0, f_readable = False, f_writable = False, f_pipe = 0, f_ip = 0, f_off = 0\<rparr>\<rparr>)
     \<lparr>kend := 0x80100000, kdata := 0x80108000, curproc := Some 0, nextpid := 5\<rparr>"

definition example_proc :: "u32 \<Rightarrow> u32 \<Rightarrow> proc" where
  "example_proc g k = (ptable boot_procs ! 0)\<lparr>pstate := RUNNING, psz := 8192, pgdir := g, kstack := k, tf := k + 4020, cwd := Some 0\<rparr>"

lemma proc_start_fields:
  "kend proc_start = 0x80100000" "kdata proc_start = 0x80108000" "curproc proc_start = Some 0" "nextpid proc_start = 5"
  by (simp_all add: proc_start_def del: replicate.simps replicate_Suc)

lemma empty_uspace:
  assumes "space s pgd fl" "\<And>va. lookup (mem s) pgd va = 0"
  shows "uspace s pgd {} fl"
  using assms by (simp add: uspace_def upresent_def)

lemma example_memory:
  "\<exists>(s :: fils) g k fl. beside proc_start s \<and> uspace s g {..<2} fl \<and> 5000 \<le> length fl \<and>
    page_ok (kend s) k \<and> k \<notin> owned (mem s) g {..<2} \<union> set fl"
proof -
  obtain t :: mstate and fl0 where t: "free_list t fl0" "kend t = 0x80100000" "8192 \<le> length fl0"
    using machine_memory by blast
  then obtain g ps where fl0: "fl0 = g # ps" by (cases fl0) auto
  let ?s = "proc_start\<lparr>mem := mem t, freelist := freelist t\<rparr>"
  have f: "free_list ?s (g # ps)" using t fl0 by (simp add: free_list_def proc_start_fields)
  have ke: "KERNBASE < kend ?s" by (simp add: proc_start_fields)
  let ?s1 = "?s\<lparr>freelist := load32 (mem ?s) g, mem := memset (mem ?s) g 0 4096\<rparr>"
  note n = new_directory [OF f ke]
  have z: "upages 0 = 0" "upages 8192 = 2" by (simp_all add: upages_def)
  have u1: "uspace ?s1 g {..<upages 0} ps" using empty_uspace [OF n(3,5)] by (simp add: z)
  have b1: "beside proc_start ?s1" by (simp add: beside_def)
  have l: "8191 \<le> length ps" using t(3) fl0 by simp
  obtain s2 fl2 where s2: "allocuvm g 0 8192 ?s1 = OK (8192, s2)" "uspace s2 g {..<2} fl2" "length ps \<le> length fl2 + 2 + 1024"
    by (rule allocuvm_grows [OF u1, of 8192]) (use l in \<open>auto simp: z\<close>)
  have b2: "beside proc_start s2"
    using safe_result [OF s2(1) same_vm.kept_allocuvm [OF b1]] by simp
  obtain k rest where fl2: "fl2 = k # rest" using s2(3) l by (cases fl2) auto
  note ka = space_kalloc [OF uspaceD(1) [OF s2(2) [unfolded fl2]]]
  let ?s3 = "s2\<lparr>freelist := load32 (mem s2) k, mem := mem s2\<rparr>"
  have u3: "uspace ?s3 g {..<2} rest" using uspace_take(1) [OF s2(2) [unfolded fl2], of "mem s2"] by simp
  have k: "k \<notin> owned (mem s2) g {..<2} \<union> set rest"
    using uspace_owned_free [OF s2(2)] ka(3) fl2 by auto
  have "beside proc_start ?s3" using b2 by (simp add: beside_def)
  moreover have "5000 \<le> length rest" using s2(3) fl2 l by simp
  ultimately show ?thesis using u3 k ka(4) by (intro exI [of _ ?s3] exI [of _ g] exI [of _ k] exI [of _ rest]) simp
qed

lemma example_process:
  "\<exists>(s :: fils) g k fl. running s 0 fl \<and> 5000 \<le> length fl \<and> page_ok (kend s) k \<and> k \<notin> owned (mem s) g {..<2} \<union> set fl \<and>
    ptable s = (ptable boot_procs)[0 := example_proc g k] \<and> kdata s = 0x80108000 \<and> nextpid s = 5 \<and> uspace s g {..<2} fl"
proof -
  obtain s :: fils and g k fl where s: "beside proc_start s" "uspace s g {..<2} fl" "5000 \<le> length fl"
    "page_ok (kend s) k" "k \<notin> owned (mem s) g {..<2} \<union> set fl"
    using example_memory by blast
  let ?s = "s\<lparr>ptable := (ptable boot_procs)[0 := example_proc g k]\<rparr>"
  note b = beside_procs [OF s(1)]
  have kd: "kdata s = 0x80108000" using arg_cong [OF s(1) [unfolded beside_def], of kdata] by (simp add: proc_start_fields)
  have u: "uspace ?s g {..<2} fl" using s(2) uspace_cong [of ?s s g "{..<2}" fl] by simp
  have len: "length (ptable boot_procs) = 64" by (simp add: boot_procs_def mstate.defs)
  have "k \<noteq> 0" using page_ok_nonzero [OF s(4) spaceD(2) [OF uspaceD(1) [OF s(2)]]] by auto
  then have "running ?s 0 fl" using u len by (simp add: running_def b proc_start_fields example_proc_def upages_def)
  then show ?thesis using s(3-5) kd b u by (intro exI [of _ ?s] exI [of _ g] exI [of _ k] exI [of _ fl]) (simp add: proc_start_fields)
qed

subsection \<open>Properties\<close>

text \<open>
  Property C5. growproc, for a change that leaves a size of at least one byte and below the start of
  the kernel (giving back the whole size is the subject of a property of its own).  It returns; the
  address space keeps its invariant with exactly the pages of the recorded size.  Sizes count in
  whole pages here: every byte of a page that the process had and still has is kept, also beyond a
  smaller size, every byte of a new page is zero, and the other pages are not mapped.  No page is lost:
  the pages of the address space together with the free pages are the same before and after.  It
  fails only when growing without enough free pages, and then the process sees the memory it had.
\<close>

theorem growproc_resizes:
  assumes "running s i fl" and "- int (unat (psz (proc_at s i))) < n"
    and "int (unat (psz (proc_at s i))) + n < 2147483648"
  shows "\<exists>r s' fl'. growproc n s = OK (r, s') \<and> running s' i fl' \<and>
    resized (mem s) (pgdir (proc_at s i)) (upages (psz (proc_at s i))) (mem s') (upages (psz (proc_at s' i))) \<and>
    owned (mem s') (pgdir (proc_at s i)) {..<upages (psz (proc_at s' i))} \<union> set fl' =
      owned (mem s) (pgdir (proc_at s i)) {..<upages (psz (proc_at s i))} \<union> set fl \<and>
    (r = 0 \<and> int (unat (psz (proc_at s' i))) = int (unat (psz (proc_at s i))) + n \<or>
     r = -1 \<and> 0 < n \<and> proc_at s' i = proc_at s i \<and>
       length fl \<le> upages (psz (proc_at s i) + word_of_int n) - upages (psz (proc_at s i)) + 1024)"
proof -
  have u: "uspace s (pgdir (proc_at s i)) {..<upages (psz (proc_at s i))} fl" using assms(1) by (simp add: running_def)
  have new: "int (unat (psz (proc_at s i) + word_of_int n)) = int (unat (psz (proc_at s i))) + n"
    by (rule unat_resized) (use assms(2,3) in linarith)+
  consider "0 < n" | "n < 0" | "n = 0" by linarith
  then show ?thesis
  proof cases
    case 1
    from growproc_up [OF assms(1) 1 assms(3)] show ?thesis using 1 new by (elim exE conjE disjE) auto
  next
    case 2
    from growproc_down [OF assms(1) 2 assms(2)] show ?thesis using new by (elim exE conjE) auto
  next
    case 3
    from growproc_zero [OF assms(1)] obtain s' where "growproc 0 s = OK (0, s')" "running s' i fl"
      "proc_at s' i = proc_at s i" "mem s' = mem s" by blast
    then show ?thesis using 3 resized_same [OF u, of "mem s"] by auto
  qed
qed

theorem growproc_resizes_witness:
  "\<exists>(s :: fils) i s' fl'. psz (proc_at s i) = 8192 \<and> growproc 4096 s = OK (0, s') \<and> running s' i fl' \<and>
    psz (proc_at s' i) = 12288 \<and> umem (mem s') (pgdir (proc_at s i)) 8192 = Some 0"
proof -
  obtain s :: fils and g k fl where s: "running s 0 fl" "5000 \<le> length fl" "ptable s = (ptable boot_procs)[0 := example_proc g k]"
    using example_process by blast
  have len: "length (ptable boot_procs) = 64" by (simp add: boot_procs_def mstate.defs)
  have sz: "psz (proc_at s 0) = 8192" using s(3) len by (simp add: example_proc_def)
  from growproc_resizes [OF s(1), of 4096] obtain r s' fl' where r: "growproc 4096 s = OK (r, s')" "running s' 0 fl'"
    "resized (mem s) (pgdir (proc_at s 0)) 2 (mem s') (upages (psz (proc_at s' 0)))"
    "r = 0 \<and> int (unat (psz (proc_at s' 0))) = 12288 \<or> r = -1 \<and> length fl \<le> 1 + 1024"
    by (auto simp: sz upages_def simp del: One_nat_def)
  then have e: "r = 0" "psz (proc_at s' 0) = 12288" using s(2) by (auto simp: word_uint_eq_iff)
  then have "umem (mem s') (pgdir (proc_at s 0)) 8192 = Some 0" using r(3) by (simp add: resized_def upages_def)
  then show ?thesis using sz r(1,2) e by (intro exI [of _ s] exI [of _ 0] exI [of _ s'] exI [of _ fl']) simp
qed

text \<open>
  Property C20. Shrinking a process by its whole size frees every page it has: exactly the pages its
  addresses were mapped to are added to the free list, and no user address is mapped any more.  But
  growproc takes the new size 0 for a failure: it returns -1 with the old size in the process table.
\<close>

theorem growproc_to_zero_reports_failure:
  assumes "running s i fl" and "0 < psz (proc_at s i)"
  shows "\<exists>s' fl'. growproc (- int (unat (psz (proc_at s i)))) s = OK (-1, s') \<and>
    uspace s' (pgdir (proc_at s' i)) {} fl' \<and> proc_at s' i = proc_at s i \<and>
    set fl' = set fl \<union> upage (mem s) (pgdir (proc_at s i)) ` {..<upages (psz (proc_at s i))} \<and>
    (\<forall>va. unat va < 2147483648 \<longrightarrow> umem (mem s') (pgdir (proc_at s' i)) va = None)"
proof -
  let ?sz = "psz (proc_at s i)" and ?pgd = "pgdir (proc_at s i)"
  have c: "curproc s = Some i" and u: "uspace s ?pgd {..<upages ?sz} fl" using assms(1) by (simp_all add: running_def)
  have z: "?sz + word_of_int (- int (unat ?sz)) = 0" by simp
  have pos: "0 < int (unat ?sz)" using assms(2) by (simp add: word_less_def)
  obtain s1 fl1 where a: "deallocuvm ?pgd ?sz 0 s = OK (0, s1)" "uspace s1 ?pgd {..<upages 0} fl1"
      "resized (mem s) ?pgd (upages ?sz) (mem s1) (upages 0)"
      "set fl1 = set fl \<union> upage (mem s) ?pgd ` {upages 0..<upages ?sz}"
    by (rule deallocuvm_resizes [OF u assms(2) running_size(1) [OF assms(1)]])
  note b = beside_procs [OF vm_beside(2) [OF a(1)]]
  have "growproc (- int (unat ?sz)) s = OK (-1, s1)"
    using c a(1) pos by (simp add: growproc_def z)
  moreover have "upages 0 = 0" by (simp add: upages_def)
  ultimately show ?thesis using a(2-4) by (auto simp: b resized_def lessThan_atLeast0)
qed

theorem growproc_to_zero_reports_failure_witness:
  "\<exists>(s :: fils) i s'. psz (proc_at s i) = 8192 \<and> growproc (- 8192) s = OK (-1, s') \<and> psz (proc_at s' i) = 8192 \<and>
    umem (mem s') (pgdir (proc_at s' i)) 0 = None"
proof -
  obtain s :: fils and g k fl where s: "running s 0 fl" "ptable s = (ptable boot_procs)[0 := example_proc g k]"
    using example_process by blast
  have len: "length (ptable boot_procs) = 64" by (simp add: boot_procs_def mstate.defs)
  have sz: "psz (proc_at s 0) = 8192" using s(2) len by (simp add: example_proc_def)
  from growproc_to_zero_reports_failure [OF s(1)] obtain s' where "growproc (- 8192) s = OK (-1, s')"
    "proc_at s' 0 = proc_at s 0" "umem (mem s') (pgdir (proc_at s' 0)) 0 = None" by (auto simp: sz)
  then show ?thesis using sz by (intro exI [of _ s] exI [of _ 0] exI [of _ s']) simp
qed

text \<open>
  Property C18. A new page directory maps exactly what the table kmap says: nothing below the kernel,
  the kernel's text read-only, its data and all physical memory writable at their fixed offset, the
  devices at their own addresses, and no page for the user.  It returns 0 only when at most 1025
  pages are free.
\<close>

theorem setupkvm_maps_kernel:
  assumes "free_list s fl" and "KERNBASE < kend s" and "kdata s mod 4096 = 0" and "KERNLINK < kdata s" and "kdata s < P2V PHYSTOP"
  shows "\<exists>d s' fl'. setupkvm s = OK (d, s') \<and> free_list s' fl' \<and> only_in (set fl) (mem s) (mem s') \<and>
    (if d = 0 then length fl \<le> 1025 else uspace s' d {} fl' \<and> (\<forall>va. lookup (mem s') d va = kentry s va))"
proof -
  obtain d s' fl' where "setupkvm s = OK (d, s')" "setup_post s fl d s' fl'" using setupkvm_maps [OF assms] by blast
  then show ?thesis by (intro exI [of _ d] exI [of _ s'] exI [of _ fl']) (auto simp: setup_post_def fresh_space_def)
qed

theorem setupkvm_maps_kernel_witness:
  "\<exists>(s :: fils) d s'. setupkvm s = OK (d, s') \<and> lookup (mem s') d 0x80200123 = 0x200003 \<and> lookup (mem s') d 0x1000 = 0"
proof -
  obtain t :: mstate and fl where t: "free_list t fl" "kend t = 0x80100000" "8192 \<le> length fl"
    using machine_memory by blast
  let ?s = "proc_start\<lparr>mem := mem t, freelist := freelist t\<rparr>"
  have f: "free_list ?s fl" using t by (simp add: free_list_def proc_start_fields)
  have e: "kentry ?s 0x80200123 = 0x200003" "kentry ?s 0x1000 = 0"
    by (simp_all add: kentry_def proc_start_fields V2P_def P2V_def PGROUNDDOWN_def)
  from setupkvm_maps_kernel [OF f] t(3) obtain d s' where "setupkvm ?s = OK (d, s')" "\<forall>va. lookup (mem s') d va = kentry ?s va"
    by (auto simp: proc_start_fields P2V_def split: if_splits)
  then show ?thesis using e by (intro exI [of _ ?s] exI [of _ d] exI [of _ s']) simp
qed

end
