(* ===== verification/Process_Fork.thy ===== *)
theory Process_Fork
  imports Process_Space
begin

text \<open>
  fork and wait of proc.c: the new process is a copy of its parent, and a process that has ended gives
  back all the memory it had.
\<close>

subsection \<open>Making the child\<close>

lemma only_in_within:
  assumes "p mod 4096 = 0" "\<And>a. \<not> in_page p a \<Longrightarrow> m' a = m a"
  shows "only_in {p} m m'"
  unfolding only_in_def using assms in_page_apart [of _ p] by auto

lemma in_page_range:
  assumes "unat (a - (k + b)) < n" "unat b + n \<le> 4096"
  shows "in_page k a"
proof -
  define x where "x = a - (k + b)"
  have "a - k = x + b" by (simp add: x_def)
  moreover have "unat x < n" using assms(1) by (simp add: x_def)
  then have "unat (x + b) = unat x + unat b" using assms(2) by (simp add: unat_word_ariths)
  ultimately show ?thesis using assms \<open>unat x < n\<close> by (simp add: in_page_def)
qed

lemma allocproc_no_slot:
  assumes "find_idx (\<lambda>p. pstate p = UNUSED) (ptable s) = Some j" "freelist s = 0"
  shows "\<exists>q. allocproc s = (None, s\<lparr>nextpid := nextpid s + 1, ptable := (ptable s)[j := q]\<rparr>) \<and> pstate q = UNUSED"
proof -
  have j: "j < length (ptable s)" using find_idx_SomeD [OF assms(1)] by simp
  show ?thesis
    using assms j
    by (intro exI [of _ "(proc_at s j)\<lparr>pid := nextpid s, kstack := 0, pstate := UNUSED\<rparr>"])
       (simp add: allocproc_def kalloc_def Let_def upd_proc_def)
qed

text \<open>The stack page of the new process is the first free page; the parent's memory is untouched.\<close>

lemma allocproc_space:
  fixes s :: "'z procs_scheme"
  assumes "find_idx (\<lambda>p. pstate p = UNUSED) (ptable s) = Some j" "uspace s pgd P (k # ps)"
  obtains m' where "allocproc s = (Some j, s\<lparr>mem := m', freelist := load32 (mem s) k, nextpid := nextpid s + 1,
        ptable := (ptable s)[j := (proc_at s j)\<lparr>pstate := EMBRYO, pid := nextpid s,
          kstack := k, tf := k + 4020, pcontext := k + 3996\<rparr>]\<rparr>)" "only_in {k} (mem s) m'"
proof -
  have f: "freelist s = k" using spaceD(1) [OF uspaceD(1) [OF assms(2)]] by (simp add: free_list_def)
  note ka = space_kalloc [OF uspaceD(1) [OF assms(2)]]
  obtain m' where m': "allocproc s = (Some j, s\<lparr>mem := m', freelist := load32 (mem s) k, nextpid := nextpid s + 1,
        ptable := (ptable s)[j := (proc_at s j)\<lparr>pstate := EMBRYO, pid := nextpid s,
          kstack := k, tf := k + 4020, pcontext := k + 3996\<rparr>]\<rparr>)"
      "\<And>a. \<not> unat (a - (k + 3996)) < 24 \<Longrightarrow> m' a = mem s a"
    using allocproc_ok [OF assms(1)] ka(6) f by auto
  have "only_in {k} (mem s) m'"
    by (rule only_in_within [OF ka(5)]) (use m'(2) in_page_range [of _ k 3996 24] in auto)
  then show thesis using that m'(1) by blast
qed

lemma kfor_one: "kfor f [i] s = f i s"
  by (cases "f i s") simp_all

text \<open>The loop over the open files.\<close>

definition referenced :: "'z fils_scheme \<Rightarrow> nat option list \<Rightarrow> bool" where
  "referenced s fs \<longleftrightarrow> (\<forall>f. Some f \<in> set fs \<longrightarrow> 1 \<le> f_ref (file_at s f))"

lemma fork_files:
  fixes s :: "'z fils_scheme"
  assumes "j < length (ptable s)" "i \<noteq> j" "length (ofile (proc_at s i)) = 16" "ofile (proc_at s j) = replicate 16 None"
    "referenced s (ofile (proc_at s i))" "n \<le> 16"
  shows "\<exists>ft. kfor (fork_file i j) [0..<n] s = OK (s\<lparr>ftable := ft, ptable := (ptable s)[j := (proc_at s j)\<lparr>ofile :=
      take n (ofile (proc_at s i)) @ replicate (16 - n) None\<rparr>]\<rparr>) \<and> referenced (s\<lparr>ftable := ft\<rparr>) (ofile (proc_at s i))"
  using assms(6)
proof (induction n)
  case 0
  have "s\<lparr>ftable := ftable s, ptable := (ptable s)[j := (proc_at s j)\<lparr>ofile := replicate 16 None\<rparr>]\<rparr> = s"
    unfolding assms(4) [symmetric] by simp
  then show ?case using assms(5) by (intro exI [of _ "ftable s"]) (simp add: referenced_def del: replicate.simps replicate_Suc)
next
  case (Suc n)
  let ?fs = "ofile (proc_at s i)"
  let ?c = "\<lambda>n. (proc_at s j)\<lparr>ofile := take n ?fs @ replicate (16 - n) None\<rparr>"
  obtain ft where ft: "kfor (fork_file i j) [0..<n] s = OK (s\<lparr>ftable := ft, ptable := (ptable s)[j := ?c n]\<rparr>)"
    "referenced (s\<lparr>ftable := ft\<rparr>) ?fs" using Suc by auto
  have n: "n < 16" using Suc.prems by simp
  have nx: "take (Suc n) ?fs @ replicate (16 - Suc n) None = (take n ?fs @ replicate (16 - n) None)[n := ?fs ! n]"
  proof -
    have "16 - n = Suc (16 - Suc n)" using n by simp
    then show ?thesis using n assms(3) by (simp add: take_Suc_conv_app_nth list_update_append)
  qed
  have st: "kfor (fork_file i j) [0..<Suc n] s = fork_file i j n (s\<lparr>ftable := ft, ptable := (ptable s)[j := ?c n]\<rparr>)"
    by (simp add: kfor_append ft(1) kfor_one del: kfor.simps)
  show ?case
  proof (cases "?fs ! n")
    case None
    have "(take n ?fs @ replicate (16 - n) None)[n := None] = take n ?fs @ replicate (16 - n) None"
      using n assms(3) by (simp add: list_update_append) (cases "16 - n", simp_all)
    then show ?thesis
      unfolding st nx None using ft(2) assms(1,2) None by (auto simp: fork_file_def)
  next
    case (Some f)
    have mem: "Some f \<in> set ?fs" using Some n assms(3) by (metis nth_mem)
    let ?ft = "ft[f := (ft ! f)\<lparr>f_ref := f_ref (ft ! f) + 1\<rparr>]"
    have "1 \<le> f_ref (ft ! f)" using ft(2) mem by (simp add: referenced_def)
    moreover have "referenced (s\<lparr>ftable := ?ft\<rparr>) ?fs"
    proof (cases "f < length ft")
      case True
      then show ?thesis using ft(2) by (auto simp: referenced_def nth_list_update)
    next
      case False
      then show ?thesis using ft(2) by (simp add: list_update_beyond)
    qed
    ultimately show ?thesis
      unfolding st nx using assms(1,2) Some
      by (intro exI [of _ ?ft]) (simp add: fork_file_def filedup_def upd_file_def upd_proc_def)
  qed
qed

text \<open>What fork does once the memory is copied.\<close>

lemma fork_finish:
  fixes s s1 s2 :: "'z fils_scheme"
  assumes al: "allocproc s = (Some j, s1)" and cp: "copyuvm (pgdir (proc_at s1 i)) (psz (proc_at s1 i)) s1 = OK (d, s2)" "d \<noteq> 0"
    and c: "curproc s = Some i" "j < length (ptable s1)" "i \<noteq> j"
    and p: "length (ofile (proc_at s1 i)) = 16" "ofile (proc_at s1 j) = replicate 16 None" "referenced s1 (ofile (proc_at s1 i))"
      "cwd (proc_at s1 i) = Some cw"
  shows "\<exists>s'. fork s = OK (pid (proc_at s1 j), s') \<and> proc_at s' i = proc_at s1 i \<and>
    proc_at s' j = (proc_at s1 j)\<lparr>pgdir := d, psz := psz (proc_at s1 i), parent := Some i, ofile := ofile (proc_at s1 i),
      cwd := Some cw, pname := safestrcpy (pname (proc_at s1 j)) (pname (proc_at s1 i)) 16, pstate := RUNNABLE\<rparr> \<and>
    mem s' = store32 (memmove (mem s2) (tf (proc_at s1 j)) (tf (proc_at s1 i)) 76) (tf (proc_at s1 j) + TF_EAX) 0 \<and>
    freelist s' = freelist s2 \<and> kend s' = kend s2 \<and> curproc s' = curproc s2 \<and> length (ptable s') = length (ptable s1)"
proof -
  have b: "ptable s2 = ptable s1" "ftable s2 = ftable s1"
    using beside_procs(1) [OF vm_beside(3) [OF cp(1)]] beside_fils(1) [OF vm_beside(3) [OF cp(1)]] .
  let ?q = "(proc_at s1 j)\<lparr>pgdir := d, psz := psz (proc_at s1 i), parent := Some i\<rparr>"
  let ?m = "store32 (memmove (mem s2) (tf (proc_at s1 j)) (tf (proc_at s1 i)) 76) (tf (proc_at s1 j) + TF_EAX) 0"
  let ?s6 = "s2\<lparr>ptable := (ptable s1)[j := ?q], mem := ?m\<rparr>"
  have at: "proc_at ?s6 i = proc_at s1 i" "proc_at ?s6 j = ?q" using c by simp_all
  obtain ft where ft: "kfor (fork_file i j) [0..<16] ?s6 = OK (?s6\<lparr>ftable := ft, ptable := (ptable ?s6)[j := (proc_at ?s6 j)\<lparr>ofile :=
      take 16 (ofile (proc_at ?s6 i)) @ replicate (16 - 16) None\<rparr>]\<rparr>)"
    using fork_files [of j ?s6 i 16] c p b at by (auto simp: referenced_def)
  have st: "upd_proc (upd_proc s2 j (\<lambda>p. p\<lparr>pgdir := d\<rparr>)) j (\<lambda>p. p\<lparr>psz := psz (proc_at s1 i), parent := Some i\<rparr>) = s2\<lparr>ptable := (ptable s1)[j := ?q]\<rparr>"
    using c(2) by (simp add: upd_proc_def b)
  have f: "kfor (fork_file i j) [0..<16] ?s6 = OK (s2\<lparr>ptable := (ptable s1)[j := ?q\<lparr>ofile := ofile (proc_at s1 i)\<rparr>], mem := ?m, ftable := ft\<rparr>)"
    using ft p(1) c by simp
  show ?thesis
    using al cp c p(4) f
    by (simp add: fork_def upd_proc_def b idup_def upd_inode_def Let_def)
qed

subsection \<open>fork\<close>

text \<open>
  A process that may call fork: its trap frame is at the top of its kernel stack, its open files are
  referenced, it has a current directory, and free slots of the table have no open files.
\<close>

definition forkable :: "'z fils_scheme \<Rightarrow> nat \<Rightarrow> u32 list \<Rightarrow> bool" where
  "forkable s i fl \<longleftrightarrow> running s i fl \<and> kdata s mod 4096 = 0 \<and> KERNLINK < kdata s \<and> kdata s < P2V PHYSTOP \<and>
     (let p = proc_at s i
      in pstate p \<noteq> UNUSED \<and> page_ok (kend s) (kstack p) \<and> kstack p \<notin> set fl \<and> tf p = kstack p + 4020 \<and>
         length (ofile p) = NOFILE \<and> referenced s (ofile p) \<and> cwd p \<noteq> None) \<and>
     (\<forall>q \<in> set (ptable s). pstate q = UNUSED \<longrightarrow> ofile q = replicate NOFILE None)"

text \<open>
  The child: a new pid, runnable, with the size, the open files, the directory and the memory of its
  parent; its trap frame differs in the register that carries the result of the call.
\<close>

definition is_child :: "'z fils_scheme \<Rightarrow> nat \<Rightarrow> 'z fils_scheme \<Rightarrow> nat \<Rightarrow> u32 list \<Rightarrow> bool" where
  "is_child s i s' j fl' \<longleftrightarrow>
     (let p = proc_at s i; c = proc_at s' j
      in j < length (ptable s') \<and> pstate (proc_at s j) = UNUSED \<and> pid c = nextpid s \<and> pstate c = RUNNABLE \<and>
         parent c = Some i \<and> psz c = psz p \<and> ofile c = ofile p \<and> cwd c = cwd p \<and>
         uspace s' (pgdir c) {..<upages (psz p)} fl' \<and>
         owned (mem s') (pgdir p) {..<upages (psz p)} \<inter> owned (mem s') (pgdir c) {..<upages (psz p)} = {} \<and>
         (\<forall>va. unat va < 2147483648 \<longrightarrow> umem (mem s') (pgdir c) va = umem (mem s) (pgdir p) va) \<and>
         (\<forall>b. unat b < 76 \<longrightarrow> mem s' (tf c + b) = (if 28 \<le> unat b \<and> unat b < 32 then 0 else mem s (tf p + b))))"

lemma trapframe_copy:
  assumes "page_ok e k" "page_ok e q" "KERNBASE \<le> e" "unat b < 76"
  shows "store32 (memmove m (k + 4020) (q + 4020) 76) (k + 4020 + 28) 0 (k + 4020 + b) =
    (if 28 \<le> unat b \<and> unat b < 32 then 0 else m (q + 4020 + b))"
proof -
  note bk = page_ok_bound [OF assms(1,3)] and bq = page_ok_bound [OF assms(2,3)]
  have u: "unat (k + 4020) = unat k + 4020" "unat (q + 4020) = unat q + 4020"
    using bk bq by (simp_all add: unat_word_ariths)
  have mm: "memmove m (k + 4020) (q + 4020) 76 (k + 4020 + b) = m (q + 4020 + b)"
    using memmove_eq [of "q + 4020" 76 "k + 4020" m] u bk bq assms(4) by simp
  have d: "k + 4020 + b - (k + 4020 + 28) = b - 28" by simp
  show ?thesis
  proof (cases "28 \<le> unat b \<and> unat b < 32")
    case True
    then have "unat (b - 28) = unat b - 28" using unat_sub [of 28 b] by (simp add: word_le_nat_alt)
    then have "unat (b - 28) < 4" using True by linarith
    then have "k + 4020 + b \<in> {k + 4020 + 28, k + 4020 + 28 + 1, k + 4020 + 28 + 2, k + 4020 + 28 + 3}"
    proof -
      have "b - 28 \<in> {0, 1, 2, 3}"
        using \<open>unat (b - 28) < 4\<close> by (auto simp: word_unat_eq_iff)
      then have "b \<in> {28, 29, 30, 31}" by (auto simp: diff_eq_eq)
      then show ?thesis by (auto simp: algebra_simps)
    qed
    then show ?thesis using True by (auto simp: store32_def le32_def)
  next
    case False
    then have "\<not> unat (b - 28) < 4"
    proof (cases "28 \<le> unat b")
      case True
      then show ?thesis using False unat_sub [of 28 b] by (simp add: word_le_nat_alt)
    next
      case b: False
      then have "unat (b - 28) = unat b + 4294967296 - 28"
        by (simp add: unat_sub_if_size word_size word_le_nat_alt)
      then show ?thesis by simp
    qed
    then have "\<not> unat (k + 4020 + b - (k + 4020 + 28)) < 4" unfolding d .
    then have "store32 (memmove m (k + 4020) (q + 4020) 76) (k + 4020 + 28) 0 (k + 4020 + b) =
        memmove m (k + 4020) (q + 4020) 76 (k + 4020 + b)"
      by (rule store32_other)
    then show ?thesis unfolding if_not_P [OF False] using mm by (rule trans)
  qed
qed

lemma trapframe_only_in:
  assumes "page_ok e k" "page_ok e q" "KERNBASE \<le> e"
  shows "only_in {k} m (store32 (memmove m (k + 4020) (q + 4020) 76) (k + 4020 + 28) 0)"
proof (rule only_in_within [OF page_ok_aligned [OF assms(1)]])
  fix a assume a: "\<not> in_page k a"
  note bk = page_ok_bound [OF assms(1,3)] and bq = page_ok_bound [OF assms(2,3)]
  have u: "unat (k + 4020) = unat k + 4020" "unat (q + 4020) = unat q + 4020"
    using bk bq by (simp_all add: unat_word_ariths)
  have "\<not> unat (a - (k + 4020)) < 76" "\<not> unat (a - (k + 4048)) < 4"
    using a in_page_range [of a k 4020 76] in_page_range [of a k 4048 4] by auto
  then show "store32 (memmove m (k + 4020) (q + 4020) 76) (k + 4020 + 28) 0 a = m a"
    using memmove_eq [of "q + 4020" 76 "k + 4020" m] u bk bq by (simp add: store32_other add.assoc)
qed

text \<open>Writing the trap frame leaves both address spaces alone.\<close>

lemma fork_failed_memory:
  fixes s s1 s2 :: "'z fils_scheme"
  assumes al: "allocproc s = (Some j, s1)" and cp: "copyuvm (pgdir (proc_at s1 i)) (psz (proc_at s1 i)) s1 = OK (0, s2)"
    and c: "curproc s = Some i" "j < length (ptable s1)" "i \<noteq> j"
    and k: "kstack (proc_at s1 j) = k" "kfree (upd_proc s2 j (\<lambda>p. p\<lparr>pgdir := 0\<rparr>)) k = OK s3"
  shows "fork s = OK (-1, upd_proc s3 j (\<lambda>p. p\<lparr>kstack := 0, pstate := UNUSED\<rparr>))"
proof -
  have b: "ptable s2 = ptable s1" using beside_procs(1) [OF vm_beside(3) [OF cp]] .
  have "kstack (proc_at (upd_proc s2 j (\<lambda>p. p\<lparr>pgdir := 0\<rparr>)) j) = k" using k(1) c(2) by (simp add: b)
  then show ?thesis using al cp c k(2) by (simp add: fork_def)
qed

definition fork_post :: "'z fils_scheme \<Rightarrow> nat \<Rightarrow> u32 list \<Rightarrow> int \<Rightarrow> 'z fils_scheme \<Rightarrow> u32 list \<Rightarrow> bool" where
  "fork_post s i fl r s' fl' \<longleftrightarrow> running s' i fl' \<and> proc_at s' i = proc_at s i \<and>
    (\<forall>va. unat va < 2147483648 \<longrightarrow> umem (mem s') (pgdir (proc_at s i)) va = umem (mem s) (pgdir (proc_at s i)) va) \<and>
    (r = nextpid s \<and> (\<exists>j. j \<noteq> i \<and> is_child s i s' j fl') \<or>
     r = -1 \<and> ((\<forall>q \<in> set (ptable s). pstate q \<noteq> UNUSED) \<or> length fl \<le> upages (psz (proc_at s i)) + 1026))"

lemma fork_alloc_space:
  fixes s :: "'z fils_scheme"
  assumes u: "uspace s pgd P (k # ps)" and m': "only_in {k} (mem s) m'"
    and s1: "s1 = s\<lparr>mem := m', freelist := load32 (mem s) k, nextpid := x, ptable := pt\<rparr>"
  shows "uspace s1 pgd P ps" "\<And>va. unat va < 2147483648 \<Longrightarrow> umem (mem s1) pgd va = umem (mem s) pgd va"
    "owned (mem s1) pgd P = owned (mem s) pgd P" "k \<notin> owned (mem s1) pgd P" "k \<notin> set ps" "page_ok (kend s1) k"
proof -
  note ka = space_kalloc [OF uspaceD(1) [OF u]]
  have o: "owned (mem s) pgd P \<inter> set (k # ps) = {}" by (rule uspace_owned_free [OF u])
  have "free_list (s\<lparr>freelist := load32 (mem s) k, mem := m'\<rparr>) ps"
    using only_in_free_list [of "{k}" "s\<lparr>freelist := load32 (mem s) k\<rparr>" m' ps] m' spaceD(1) [OF ka(2)] ka(3) by simp
  then have f: "free_list s1 ps" using s1 by (simp add: free_list_def)
  have e: "mem s1 = m'" "kend s1 = kend s" using s1 by simp_all
  have oi: "only_in {k} (mem s) (mem s1)" using m' e by simp
  have d: "owned (mem s) pgd P \<inter> ({k} \<union> set ps) = {}" using o by auto
  note as = uspace_aside [OF u oi f e(2) d]
  show "uspace s1 pgd P ps" "owned (mem s1) pgd P = owned (mem s) pgd P" by (fact as(1) as(2))+
  show "umem (mem s1) pgd va = umem (mem s) pgd va" if "unat va < 2147483648" for va by (rule as(4) [OF that])
  show "k \<notin> owned (mem s1) pgd P" unfolding as(2) using o by auto
  show "k \<notin> set ps" "page_ok (kend s1) k" using ka e by simp_all
qed

lemma fork_no_memory:
  fixes s s1 s2 :: "'z fils_scheme"
  assumes al: "allocproc s = (Some j, s1)" and cp: "copyuvm (pgdir (proc_at s1 i)) (psz (proc_at s1 i)) s1 = OK (0, s2)"
    and c: "curproc s = Some i" "curproc s1 = Some i" "j < length (ptable s1)" "i < length (ptable s1)" "i \<noteq> j"
      "proc_at s1 i = proc_at s i" "kstack (proc_at s i) \<noteq> 0" "kstack (proc_at s1 j) = k"
    and u2: "uspace s2 (pgdir (proc_at s i)) {..<upages (psz (proc_at s i))} fl2" "kend s2 = kend s1"
    and k: "k \<notin> owned (mem s2) (pgdir (proc_at s i)) {..<upages (psz (proc_at s i))}" "k \<notin> set fl2" "page_ok (kend s1) k"
    and um: "\<And>va. unat va < 2147483648 \<Longrightarrow> umem (mem s2) (pgdir (proc_at s i)) va = umem (mem s) (pgdir (proc_at s i)) va"
    and len: "length fl \<le> upages (psz (proc_at s i)) + 1026"
  shows "\<exists>s' fl'. fork s = OK (-1, s') \<and> fork_post s i fl (-1) s' fl'"
proof -
  let ?pgd = "pgdir (proc_at s i)" and ?P = "{..<upages (psz (proc_at s i))}"
  note b = beside_procs [OF vm_beside(3) [OF cp]]
  let ?t = "upd_proc s2 j (\<lambda>p. p\<lparr>pgdir := 0\<rparr>)"
  have ut: "uspace ?t ?pgd ?P fl2" using u2(1) uspace_cong [of ?t s2 ?pgd ?P fl2] by simp
  obtain s3 where s3: "kfree ?t k = OK s3" "free_list s3 (k # fl2)" "only_in {k} (mem ?t) (mem s3)" "kend s3 = kend ?t"
    using kfree_page_ok [OF spaceD(1) [OF uspaceD(1) [OF ut]], of k] k u2(2) by auto
  note b3 = beside_procs [OF vm_beside(5) [OF s3(1)]]
  have d: "owned (mem ?t) ?pgd ?P \<inter> ({k} \<union> set (k # fl2)) = {}"
    using uspace_owned_free [OF u2(1)] k(1) by auto
  note as = uspace_aside [OF ut s3(3,2,4) d]
  let ?s' = "upd_proc s3 j (\<lambda>p. p\<lparr>kstack := 0, pstate := UNUSED\<rparr>)"
  have fk: "fork s = OK (-1, ?s')" by (rule fork_failed_memory [OF al cp c(1,3,5,8) s3(1)])
  have "uspace ?s' ?pgd ?P (k # fl2)" using as(1) uspace_cong [of ?s' s3 ?pgd ?P "k # fl2"] by simp
  then have "running ?s' i (k # fl2)" using c by (simp add: running_def b b3)
  moreover have "umem (mem ?s') ?pgd va = umem (mem s) ?pgd va" if "unat va < 2147483648" for va
    using as(4) [OF that] um [OF that] by simp
  ultimately have "fork_post s i fl (-1) ?s' (k # fl2)" using c len by (simp add: fork_post_def b b3)
  then show ?thesis using fk by blast
qed

lemma fork_memory:
  fixes s s1 s2 :: "'z fils_scheme"
  assumes f: "forkable s i fl" and al: "allocproc s = (Some j, s1)"
    and c: "j < length (ptable s)" "i \<noteq> j" "pstate (proc_at s j) = UNUSED" "fl = k # ps"
    and s1: "s1 = s\<lparr>mem := m', freelist := load32 (mem s) k, nextpid := nextpid s + 1,
        ptable := (ptable s)[j := (proc_at s j)\<lparr>pstate := EMBRYO, pid := nextpid s,
          kstack := k, tf := k + 4020, pcontext := k + 3996\<rparr>]\<rparr>" "only_in {k} (mem s) m'"
    and cp: "copyuvm (pgdir (proc_at s1 i)) (psz (proc_at s1 i)) s1 = OK (d, s2)" "d \<noteq> 0"
    and cc: "copied s1 (pgdir (proc_at s i)) (upages (psz (proc_at s i))) ps d s2 fl2"
      "owned (mem s2) d {..<upages (psz (proc_at s i))} \<subseteq> set ps"
      "uspace s2 (pgdir (proc_at s i)) {..<upages (psz (proc_at s i))} fl2" "only_in (set ps) (mem s1) (mem s2)" "kend s2 = kend s1" "set fl2 \<subseteq> set ps"
      "\<And>va. unat va < 2147483648 \<Longrightarrow> umem (mem s2) (pgdir (proc_at s i)) va = umem (mem s) (pgdir (proc_at s i)) va"
      "\<And>va. unat va < 2147483648 \<Longrightarrow> umem (mem s1) (pgdir (proc_at s i)) va = umem (mem s) (pgdir (proc_at s i)) va"
    and k: "k \<notin> owned (mem s2) (pgdir (proc_at s i)) {..<upages (psz (proc_at s i))}" "k \<notin> set ps" "page_ok (kend s1) k"
  shows "\<exists>s'. fork s = OK (nextpid s, s') \<and> fork_post s i fl (nextpid s) s' fl2"
proof -
  let ?p = "proc_at s i"
  let ?pgd = "pgdir ?p" and ?n = "upages (psz ?p)"
  note fd = f [unfolded forkable_def Let_def running_def]
  have p1: "proc_at s1 i = ?p" "curproc s1 = Some i" "length (ptable s1) = length (ptable s)" "ftable s1 = ftable s" "kend s1 = kend s"
    using s1(1) c fd by simp_all
  have j1: "proc_at s1 j = (proc_at s j)\<lparr>pstate := EMBRYO, pid := nextpid s, kstack := k, tf := k + 4020, pcontext := k + 3996\<rparr>"
    using s1(1) c by simp
  obtain cw where cw: "cwd ?p = Some cw" using fd by blast
  have oj: "ofile (proc_at s1 j) = replicate 16 None" using fd c(1,3) j1 by (simp add: all_set_conv_all_nth)
  have fi: "length (ofile (proc_at s1 i)) = 16" "referenced s1 (ofile (proc_at s1 i))" "curproc s = Some i" "j < length (ptable s1)" "cwd (proc_at s1 i) = Some cw"
    using fd p1 c(1) cw by (simp_all add: referenced_def)
  obtain s' where s': "fork s = OK (pid (proc_at s1 j), s')" "proc_at s' i = proc_at s1 i"
      "proc_at s' j = (proc_at s1 j)\<lparr>pgdir := d, psz := psz (proc_at s1 i), parent := Some i, ofile := ofile (proc_at s1 i),
        cwd := Some cw, pname := safestrcpy (pname (proc_at s1 j)) (pname (proc_at s1 i)) 16, pstate := RUNNABLE\<rparr>"
      "mem s' = store32 (memmove (mem s2) (tf (proc_at s1 j)) (tf (proc_at s1 i)) 76) (tf (proc_at s1 j) + TF_EAX) 0"
      "freelist s' = freelist s2" "kend s' = kend s2" "curproc s' = curproc s2" "length (ptable s') = length (ptable s1)"
    using fork_finish [OF al cp fi(3,4) c(2) fi(1) oj fi(2,5)] by blast
  have kb: "KERNBASE \<le> kend s1" using spaceD(2) [OF uspaceD(1), of s ?pgd] fd p1(5) by auto
  have pk: "page_ok (kend s1) (kstack ?p)" "kstack ?p \<notin> set fl" "tf ?p = kstack ?p + 4020" using fd p1(5) by auto
  have ms: "mem s' = store32 (memmove (mem s2) (k + 4020) (kstack ?p + 4020) 76) (k + 4020 + 28) 0"
    using s'(4) by (simp add: j1 p1 pk(3))
  have oi: "only_in {k} (mem s2) (mem s')" unfolding ms by (rule trapframe_only_in [OF k(3) pk(1) kb])
  have fl: "free_list s' fl2"
  proof -
    have "free_list (s2\<lparr>mem := mem s'\<rparr>) fl2"
      by (rule only_in_free_list [OF oi spaceD(1) [OF uspaceD(1) [OF cc(3)]]]) (use k(2) cc(6) in auto)
    then show ?thesis using s'(5,6) by (simp add: free_list_def)
  qed
  have ud: "uspace s2 d {..<?n} fl2" using cc(1) by (simp add: copied_def)
  have dj: "owned (mem s2) ?pgd {..<?n} \<inter> ({k} \<union> set fl2) = {}" "owned (mem s2) d {..<?n} \<inter> ({k} \<union> set fl2) = {}"
    using uspace_owned_free [OF cc(3)] uspace_owned_free [OF ud] k(1,2) cc(2) by auto
  note ap = uspace_aside [OF cc(3) oi fl s'(6) dj(1)] and ad = uspace_aside [OF ud oi fl s'(6) dj(2)]
  have frame: "mem s' (k + 4020 + b) = (if 28 \<le> unat b \<and> unat b < 32 then 0 else mem s (kstack ?p + 4020 + b))"
    if b: "unat b < 76" for b
  proof -
    have al': "kstack ?p mod 4096 = 0" using page_ok_aligned [OF pk(1)] .
    have ub: "unat (4020 + b) < 4096" using b by (simp add: unat_word_ariths)
    have "mem s2 (kstack ?p + (4020 + b)) = mem s1 (kstack ?p + (4020 + b))"
      by (rule page_bytes_kept [OF cc(4) al' _ ub]) (use pk(2) c(4) in auto)
    also have "\<dots> = mem s (kstack ?p + (4020 + b))"
      using page_bytes_kept [OF s1(2) al' _ ub] pk(2) c(4) s1(1) by auto
    finally show ?thesis
      unfolding ms trapframe_copy [OF k(3) pk(1) kb b] by (simp add: add.assoc)
  qed
  have "is_child s i s' j fl2"
    unfolding is_child_def Let_def
    using s'(3,8) p1 j1 c(1,3) cw ad(1,4) ap(2) ad(2) cc(1,8) frame pk(3) by (simp add: copied_def)
  moreover have "running s' i fl2"
    using ap(1) fd s'(2,7,8) p1 beside_procs(3) [OF vm_beside(3) [OF cp(1)]] by (simp add: running_def)
  moreover have "\<exists>j. j \<noteq> i \<and> is_child s i s' j fl2" using calculation(1) c(2) by metis
  ultimately have "fork_post s i fl (nextpid s) s' fl2"
    using s'(2) p1 ap(4) cc(7) by (simp add: fork_post_def)
  then show ?thesis using s'(1) j1 by auto
qed

lemma fork_outcome:
  fixes s :: "'z fils_scheme"
  assumes f: "forkable s i fl"
  shows "\<exists>r s' fl'. fork s = OK (r, s') \<and> fork_post s i fl r s' fl'"
proof -
  let ?p = "proc_at s i"
  let ?pgd = "pgdir ?p" and ?n = "upages (psz ?p)"
  note fd = f [unfolded forkable_def Let_def]
  have run: "running s i fl" and ci: "curproc s = Some i" "i < length (ptable s)" "kstack ?p \<noteq> 0"
    and u: "uspace s ?pgd {..<?n} fl" using fd by (auto simp: running_def)
  consider (none) "find_idx (\<lambda>p. pstate p = UNUSED) (ptable s) = None"
    | (nomem) j where "find_idx (\<lambda>p. pstate p = UNUSED) (ptable s) = Some j" "fl = []"
    | (alloc) j k ps where "find_idx (\<lambda>p. pstate p = UNUSED) (ptable s) = Some j" "fl = k # ps"
    by (cases "find_idx (\<lambda>p. pstate p = UNUSED) (ptable s)"; cases fl) auto
  then show ?thesis
  proof cases
    case none
    then have "fork s = OK (-1, s)" using ci by (simp add: fork_def allocproc_def)
    then show ?thesis using run none by (auto simp: find_idx_None_iff fork_post_def)
  next
    case nomem
    have j: "j < length (ptable s)" "j \<noteq> i" using find_idx_SomeD [OF nomem(1)] fd by auto
    have "freelist s = 0" using spaceD(1) [OF uspaceD(1) [OF u]] nomem(2) by (simp add: free_list_def)
    then obtain q where q: "allocproc s = (None, s\<lparr>nextpid := nextpid s + 1, ptable := (ptable s)[j := q]\<rparr>)"
      using allocproc_no_slot [OF nomem(1)] by blast
    let ?s' = "s\<lparr>nextpid := nextpid s + 1, ptable := (ptable s)[j := q]\<rparr>"
    have "uspace ?s' ?pgd {..<?n} fl = uspace s ?pgd {..<?n} fl" by (rule uspace_cong) simp_all
    then have "running ?s' i fl" using run j by (simp add: running_def)
    then have "fork_post s i fl (-1) ?s' fl" using j nomem(2) by (simp add: fork_post_def)
    moreover have "fork s = OK (-1, ?s')" using q ci by (simp add: fork_def)
    ultimately show ?thesis by blast
  next
    case alloc
    have j: "j < length (ptable s)" "i \<noteq> j" "pstate (proc_at s j) = UNUSED" using find_idx_SomeD [OF alloc(1)] fd by auto
    obtain m' where m': "allocproc s = (Some j, s\<lparr>mem := m', freelist := load32 (mem s) k, nextpid := nextpid s + 1,
        ptable := (ptable s)[j := (proc_at s j)\<lparr>pstate := EMBRYO, pid := nextpid s,
          kstack := k, tf := k + 4020, pcontext := k + 3996\<rparr>]\<rparr>)" "only_in {k} (mem s) m'"
      using allocproc_space [OF alloc(1) u [unfolded alloc(2)]] by blast
    define s1 where "s1 = s\<lparr>mem := m', freelist := load32 (mem s) k, nextpid := nextpid s + 1,
        ptable := (ptable s)[j := (proc_at s j)\<lparr>pstate := EMBRYO, pid := nextpid s,
          kstack := k, tf := k + 4020, pcontext := k + 3996\<rparr>]\<rparr>"
    note al = m'(1) [folded s1_def]
    note a = fork_alloc_space [OF u [unfolded alloc(2)] m'(2) s1_def]
    have p1: "proc_at s1 i = ?p" "kdata s1 = kdata s" "curproc s1 = Some i" "length (ptable s1) = length (ptable s)"
      "kstack (proc_at s1 j) = k" using j ci by (simp_all add: s1_def)
    obtain d s2 fl2 where cp: "copyuvm ?pgd (psz ?p) s1 = OK (d, s2)" "uspace s2 ?pgd {..<?n} fl2"
      "only_in (set ps) (mem s1) (mem s2)" "kend s2 = kend s1" "set fl2 \<subseteq> set ps"
      "if d = 0 then length ps \<le> ?n + 1025
       else copied s1 ?pgd ?n ps d s2 fl2 \<and> owned (mem s2) d {..<?n} \<subseteq> set ps"
      using copyuvm_copies [OF a(1)] fd p1(2) by auto
    have ops: "owned (mem s1) ?pgd {..<?n} \<inter> (set ps \<union> set fl2) = {}" using uspace_owned_free [OF a(1)] cp(5) by auto
    note b = uspace_aside [OF a(1) cp(3) spaceD(1) [OF uspaceD(1) [OF cp(2)]] cp(4) ops]
    have k2: "k \<notin> owned (mem s2) ?pgd {..<?n}" "k \<notin> set fl2" using a(4,5) b(2) cp(5) by auto
    have um: "umem (mem s2) ?pgd va = umem (mem s) ?pgd va" if "unat va < 2147483648" for va
      using a(2) [OF that] b(4) [OF that] by simp
    note cp' = cp(1) [folded p1(1)]
    show ?thesis
    proof (cases "d = 0")
      case True
      show ?thesis
        using fork_no_memory [OF al cp' [unfolded True] ci(1) p1(3) _ _ j(2) p1(1) ci(3) p1(5) cp(2,4) k2 a(6) um, of fl]
          j(1) ci(2) p1(4) True cp(6) alloc(2) by auto
    next
      case False
      show ?thesis
        using fork_memory [OF f al j alloc(2) s1_def m'(2) cp' False _ _ cp(2,3,4,5) um a(2) k2(1) a(5,6)] False cp(6) by auto
    qed
  qed
qed

subsection \<open>wait\<close>

lemma wait_reap_frees:
  fixes s :: "'z fils_scheme"
  assumes j: "j < length (ptable s)" and u: "uspace s (pgdir (proc_at s j)) P fl" and k: "page_ok (kend s) (kstack (proc_at s j))"
    "kstack (proc_at s j) \<notin> owned (mem s) (pgdir (proc_at s j)) P \<union> set fl"
  obtains s' fl' where "wait_reap j s = OK (pid (proc_at s j), s')" "free_list s' fl'"
    "set fl' = insert (kstack (proc_at s j)) (set fl \<union> owned (mem s) (pgdir (proc_at s j)) P)"
    "only_in (insert (kstack (proc_at s j)) (owned (mem s) (pgdir (proc_at s j)) P)) (mem s) (mem s')"
    "ptable s' = (ptable s)[j := (proc_at s j)\<lparr>kstack := 0, pid := 0, parent := None, pname := (pname (proc_at s j))(0 := 0),
       killed := False, pstate := UNUSED\<rparr>]"
proof -
  let ?k = "kstack (proc_at s j)" and ?g = "pgdir (proc_at s j)"
  have kn: "?k \<notin> insert ?g (tables (mem s) ?g \<union> set fl \<union> upage (mem s) ?g ` P)" using k(2) by (auto simp: owned_def)
  obtain s1 where s1: "kfree s ?k = OK s1" "uspace s1 ?g P (?k # fl)" "only_in {?k} (mem s) (mem s1)"
    "tables (mem s1) ?g = tables (mem s) ?g" "\<And>va. lookup (mem s1) ?g va = lookup (mem s) ?g va"
    using uspace_kfree [OF u k(1) kn] by metis
  have "upage (mem s1) ?g = upage (mem s) ?g" by (simp add: fun_eq_iff upage_def s1(5))
  then have o1: "owned (mem s1) ?g P = owned (mem s) ?g P" by (simp add: owned_def s1(4))
  note b1 = beside_procs [OF vm_beside(5) [OF s1(1)]]
  let ?t = "upd_proc s1 j (\<lambda>p. p\<lparr>kstack := 0\<rparr>)"
  have ut: "uspace ?t ?g P (?k # fl)" using s1(2) uspace_cong [of ?t s1 ?g P "?k # fl"] by simp
  obtain s2 fl2 where s2: "freevm ?g ?t = OK s2" "free_list s2 fl2" "set fl2 = set (?k # fl) \<union> owned (mem ?t) ?g P"
    "only_in (owned (mem ?t) ?g P) (mem ?t) (mem s2)"
    using freevm_frees [OF ut] by blast
  note b2 = beside_procs [OF vm_beside(4) [OF s2(1)]]
  let ?s' = "upd_proc s2 j (\<lambda>p. p\<lparr>pid := 0, parent := None, pname := (pname p)(0 := 0), killed := False, pstate := UNUSED\<rparr>)"
  have "wait_reap j s = OK (pid (proc_at s j), ?s')" using s1(1) s2(1) j by (simp add: wait_reap_def b1)
  moreover have "free_list ?s' fl2" using s2(2) free_list_cong [of ?s' s2 fl2] by simp
  moreover have "only_in (insert ?k (owned (mem s) ?g P)) (mem s) (mem ?s')"
    by (rule only_in_trans [OF s1(3), of "owned (mem s) ?g P"]) (use s2(4) o1 in auto)
  moreover have "ptable ?s' = (ptable s)[j := (proc_at s j)\<lparr>kstack := 0, pid := 0, parent := None, pname := (pname (proc_at s j))(0 := 0),
       killed := False, pstate := UNUSED\<rparr>]" using j by (simp add: b1 b2)
  ultimately show thesis using that s2(3) o1 by auto
qed

subsection \<open>Properties\<close>

text \<open>
  Property C3. fork by a process in good order always returns.  Either it makes a process: in a slot
  that was unused, with a new pid, runnable, with the size, open files and directory of its parent, the
  same bytes at every user address in pages of its own, and the same saved registers but for a 0 as the
  result of the call.  Or it returns -1, which happens only when no slot is free or fewer pages than
  the copy and its page tables may need.  In both cases the parent sees the memory it had.
\<close>

theorem fork_copies_process:
  assumes "forkable s i fl"
  shows "\<exists>r s' fl'. fork s = OK (r, s') \<and> running s' i fl' \<and> proc_at s' i = proc_at s i \<and>
    (\<forall>va. unat va < 2147483648 \<longrightarrow> umem (mem s') (pgdir (proc_at s i)) va = umem (mem s) (pgdir (proc_at s i)) va) \<and>
    (r = nextpid s \<and> (\<exists>j. j \<noteq> i \<and> is_child s i s' j fl') \<or>
     r = -1 \<and> ((\<forall>q \<in> set (ptable s). pstate q \<noteq> UNUSED) \<or> length fl \<le> upages (psz (proc_at s i)) + 1026))"
  using fork_outcome [OF assms] unfolding fork_post_def by blast

lemma example_forkable: "\<exists>(s :: fils) fl. forkable s 0 fl \<and> 5000 \<le> length fl \<and> nextpid s = 5 \<and>
    psz (proc_at s 0) = 8192 \<and> (\<exists>q \<in> set (ptable s). pstate q = UNUSED)"
proof -
  obtain s :: fils and g k fl where s: "running s 0 fl" "5000 \<le> length fl" "page_ok (kend s) k" "k \<notin> owned (mem s) g {..<2} \<union> set fl"
    "ptable s = (ptable boot_procs)[0 := example_proc g k]" "kdata s = 0x80108000" "nextpid s = 5"
    using example_process by blast
  have len: "length (ptable boot_procs) = 64" and sl: "\<And>q. q \<in> set (ptable boot_procs) \<Longrightarrow> ofile q = replicate 16 None \<and> pstate q = UNUSED"
    by (auto simp: boot_procs_def mstate.defs)
  have p: "proc_at s 0 = example_proc g k" using s(5) len by simp
  have o: "ofile (example_proc g k) = replicate 16 None" using sl [OF nth_mem, of 0] len by (simp add: example_proc_def)
  have "\<forall>q \<in> set (ptable s). pstate q = UNUSED \<longrightarrow> ofile q = replicate 16 None"
    using s(5) sl o set_update_subset_insert [of "ptable boot_procs" 0 "example_proc g k"] by auto
  moreover have "referenced s (ofile (example_proc g k))" by (simp add: referenced_def o)
  ultimately have "forkable s 0 fl"
    using s(1,3,4,6) p o by (simp add: forkable_def example_proc_def P2V_def del: replicate.simps replicate_Suc)
  moreover have "pstate (ptable s ! Suc 0) = UNUSED" using s(5) sl [OF nth_mem, of "Suc 0"] len by simp
  moreover have "ptable s ! Suc 0 \<in> set (ptable s)" by (rule nth_mem) (simp add: s(5) len)
  moreover have "psz (proc_at s 0) = 8192" using p by (simp add: example_proc_def)
  ultimately show ?thesis using s(2,7) by blast
qed

theorem fork_copies_process_witness:
  "\<exists>(s :: fils) i s' j fl'. fork s = OK (5, s') \<and> psz (proc_at s' j) = 8192 \<and> is_child s i s' j fl'"
proof -
  obtain s :: fils and fl where s: "forkable s 0 fl" "5000 \<le> length fl" "nextpid s = 5" "psz (proc_at s 0) = 8192"
    "\<exists>q \<in> set (ptable s). pstate q = UNUSED" using example_forkable by blast
  from fork_copies_process [OF s(1)] s(2-) obtain s' fl' j where "fork s = OK (5, s')" "is_child s 0 s' j fl'"
    by (auto simp: upages_def)
  then show ?thesis using s(4) by (intro exI [of _ s] exI [of _ 0] exI [of _ s'] exI [of _ j] exI [of _ fl']) (auto simp: is_child_def Let_def)
qed

text \<open>
  Property C16. When a child has ended, wait returns its pid and gives back everything it occupied: its
  kernel stack, its user pages, its page tables and its page directory are free again, the slot is
  unused, no other slot changes, and no byte outside those pages is written.
\<close>

theorem wait_frees_child:
  assumes "curproc s = Some i" and "find_idx (\<lambda>p. parent p = Some i \<and> pstate p = ZOMBIE) (ptable s) = Some j"
    and "uspace s (pgdir (proc_at s j)) P fl" and "page_ok (kend s) (kstack (proc_at s j))"
    and "kstack (proc_at s j) \<notin> owned (mem s) (pgdir (proc_at s j)) P \<union> set fl"
  shows "\<exists>s' fl'. wait s = OK (Done (pid (proc_at s j)) s') \<and> free_list s' fl' \<and>
    set fl' = insert (kstack (proc_at s j)) (set fl \<union> owned (mem s) (pgdir (proc_at s j)) P) \<and>
    only_in (insert (kstack (proc_at s j)) (owned (mem s) (pgdir (proc_at s j)) P)) (mem s) (mem s') \<and>
    pstate (proc_at s' j) = UNUSED \<and> pid (proc_at s' j) = 0 \<and> parent (proc_at s' j) = None \<and>
    (\<forall>n. n \<noteq> j \<longrightarrow> proc_at s' n = proc_at s n)"
proof -
  have j: "j < length (ptable s)" using find_idx_SomeD [OF assms(2)] by simp
  show ?thesis
    by (rule wait_reap_frees [OF j assms(3-5)]) (use j assms(1,2) in \<open>auto simp: wait_def\<close>)
qed

theorem wait_frees_child_witness:
  "\<exists>(s :: fils) s'. wait s = OK (Done 9 s') \<and> pstate (proc_at s' 0) = UNUSED"
proof -
  obtain s :: fils and g k fl where s: "page_ok (kend s) k" "k \<notin> owned (mem s) g {..<2} \<union> set fl"
    "ptable s = (ptable boot_procs)[0 := example_proc g k]" "uspace s g {..<2} fl"
    using example_process by blast
  let ?z = "(example_proc g k)\<lparr>pstate := ZOMBIE, pid := 9, parent := Some 1\<rparr>"
  let ?s = "s\<lparr>ptable := (ptable boot_procs)[0 := ?z], curproc := Some 1\<rparr>"
  have len: "length (ptable boot_procs) = 64" by (simp add: boot_procs_def mstate.defs)
  have p: "proc_at ?s 0 = ?z" using len by simp
  have f: "find_idx (\<lambda>p. parent p = Some 1 \<and> pstate p = ZOMBIE) (ptable ?s) = Some 0"
    using len by (simp add: find_idx_Some_iff)
  have u: "uspace ?s g {..<2} fl" using s(4) uspace_cong [of ?s s g "{..<2}" fl] by simp
  have "\<exists>s'. wait ?s = OK (Done 9 s') \<and> pstate (proc_at s' 0) = UNUSED"
    using wait_frees_child [of ?s 1 0 "{..<2}" fl] f u s(1,2) p by (auto simp: example_proc_def)
  then show ?thesis by blast
qed

end
