(* ===== verification/Scheduler.thy ===== *)
theory Scheduler
  imports Proc
begin

text \<open>
  Processes on several CPUs.  Every CPU runs the loop of scheduler (proc.c) over the one process table;
  a process that has been switched to runs until it gives up the CPU in yield, sleep or exit.  What is
  done under \<open>ptable.lock\<close> without a switch is one step, and the steps of the CPUs come in any order.
\<close>

subsection \<open>The machine\<close>

text \<open>
  The variables of a CPU: \<open>proc\<close>, which the code keeps in the CPU's own segment, the stack address in
  its task state, and its page table register.
\<close>

record cpu_vars =
  cv_proc :: "nat option"
  cv_esp0 :: u32
  cv_cr3 :: u32

record smp =
  shared :: procs
  cvars :: "nat \<Rightarrow> cpu_vars"

text \<open>The state as the code on CPU \<open>c\<close> sees it, and the machine after that code has changed it.\<close>

definition on_cpu :: "smp \<Rightarrow> nat \<Rightarrow> procs" where
  "on_cpu m c = (shared m)\<lparr>curproc := cv_proc (cvars m c), ts_esp0 := cv_esp0 (cvars m c), cr3 := cv_cr3 (cvars m c)\<rparr>"

definition by_cpu :: "nat \<Rightarrow> procs \<Rightarrow> smp \<Rightarrow> smp" where
  "by_cpu c s m = m\<lparr>shared := s, cvars := (cvars m)(c := \<lparr>cv_proc = curproc s, cv_esp0 = ts_esp0 s, cv_cr3 = cr3 s\<rparr>)\<rparr>"

text \<open>
  The changes of the table that do not switch: wakeup, kill and allocproc; filling or giving up the
  slot of a new process (userinit, fork) and making it runnable; clearing the slot of a dead one
  (wait); writing fields other than the state, the stack and the page directory; and everything that
  leaves the table alone.
\<close>

inductive table_op :: "procs \<Rightarrow> procs \<Rightarrow> bool" where
  wakes: "table_op s (wakeup s ch)"
| kills: "table_op s (snd (kill s n))"
| allocates: "table_op s (snd (allocproc s))"
| fills: "j < NPROC \<Longrightarrow> pstate (proc_at s j) = EMBRYO \<Longrightarrow>
    pstate p \<in> {EMBRYO, UNUSED} \<or> pstate p = RUNNABLE \<and> kstack p \<noteq> 0 \<and> pgdir p \<noteq> 0 \<Longrightarrow> table_op s (upd_proc s j (\<lambda>_. p))"
| reaps: "j < NPROC \<Longrightarrow> pstate (proc_at s j) = ZOMBIE \<Longrightarrow> pstate p \<in> {ZOMBIE, UNUSED} \<Longrightarrow> table_op s (upd_proc s j (\<lambda>_. p))"
| writes: "j < NPROC \<Longrightarrow> pstate (f (proc_at s j)) = pstate (proc_at s j) \<Longrightarrow> kstack (f (proc_at s j)) = kstack (proc_at s j) \<Longrightarrow>
    pgdir (f (proc_at s j)) = pgdir (proc_at s j) \<Longrightarrow> table_op s (upd_proc s j f)"
| other: "ptable s' = ptable s \<Longrightarrow> kpgdir s' = kpgdir s \<Longrightarrow> curproc s' = curproc s \<Longrightarrow>
    ts_esp0 s' = ts_esp0 s \<Longrightarrow> cr3 s' = cr3 s \<Longrightarrow> table_op s s'"

text \<open>
  The ways to give up the CPU: yield, sleep, and the end of exit.  The new state is never RUNNING, as
  sched demands.
\<close>

inductive gives_up :: "nat \<Rightarrow> procs \<Rightarrow> procs \<Rightarrow> bool" where
  yields: "gives_up j s (yield s j)"
| sleeps: "sleep_begin s ch True = OK t \<Longrightarrow> curproc s = Some j \<Longrightarrow> gives_up j s t"
| exits: "gives_up j s (upd_proc s j (\<lambda>p. p\<lparr>pstate := ZOMBIE\<rparr>))"

text \<open>
  A step of the machine: a CPU between two passes starts a pass; the process on a CPU changes the
  table, or an interrupt handler does; it changes its address space (growproc, exec) and loads it;
  it gives up the CPU, and the scheduler goes on from its slot.
\<close>

inductive sched_step :: "smp \<Rightarrow> smp \<Rightarrow> bool" where
  starts: "cv_proc (cvars m c) = None \<Longrightarrow> scheduler (on_cpu m c) = OK (r, s) \<Longrightarrow> sched_step m (by_cpu c s m)"
| changes: "table_op (on_cpu m c) s \<Longrightarrow> sched_step m (by_cpu c s m)"
| loads: "cv_proc (cvars m c) = Some j \<Longrightarrow>
    switchuvm (upd_proc (on_cpu m c) j (\<lambda>p. p\<lparr>pgdir := pgd, psz := sz\<rparr>)) (Some j) = OK s \<Longrightarrow> sched_step m (by_cpu c s m)"
| goes_on: "cv_proc (cvars m c) = Some j \<Longrightarrow> gives_up j (on_cpu m c) t \<Longrightarrow> scheduler_resume j t = OK (r, s) \<Longrightarrow>
    sched_step m (by_cpu c s m)"

text \<open>At the start no CPU runs a process and all use the page table of the kernel.\<close>

definition sched_ok :: "'z procs_scheme \<Rightarrow> bool" where
  "sched_ok s \<longleftrightarrow> length (ptable s) = NPROC \<and>
     (\<forall>i<NPROC. pstate (proc_at s i) \<in> {RUNNABLE, SLEEPING, RUNNING} \<longrightarrow> kstack (proc_at s i) \<noteq> 0 \<and> pgdir (proc_at s i) \<noteq> 0)"

definition sched_init :: "smp \<Rightarrow> bool" where
  "sched_init m \<longleftrightarrow> sched_ok (shared m) \<and> (\<forall>i<NPROC. pstate (proc_at (shared m) i) \<noteq> RUNNING) \<and>
     (\<forall>c. cv_proc (cvars m c) = None \<and> cv_cr3 (cvars m c) = V2P (kpgdir (shared m)))"

inductive sched_reachable :: "smp \<Rightarrow> bool" where
  init: "sched_init m \<Longrightarrow> sched_reachable m"
| step: "sched_reachable m \<Longrightarrow> sched_step m m' \<Longrightarrow> sched_reachable m'"

subsection \<open>The loop of the scheduler\<close>

text \<open>The switch to process \<open>k\<close>.\<close>

definition dispatched :: "nat \<Rightarrow> 'z procs_scheme \<Rightarrow> 'z procs_scheme" where
  "dispatched k s = upd_proc (s\<lparr>curproc := Some k, ts_esp0 := kstack (proc_at s k) + 4096, cr3 := V2P (pgdir (proc_at s k))\<rparr>) k
     (\<lambda>p. p\<lparr>pstate := RUNNING\<rparr>)"

lemma scheduler_loop_find:
  assumes "sched_ok s"
  shows "scheduler_loop i s =
    (case find (\<lambda>k. pstate (proc_at s k) = RUNNABLE) [i..<NPROC] of None \<Rightarrow> OK (None, s) | Some k \<Rightarrow> OK (Some k, dispatched k s))"
proof (induction "NPROC - i" arbitrary: i)
  case 0
  then show ?case by (subst scheduler_loop.simps) simp
next
  case (Suc n)
  then have i: "i < NPROC" "[i..<NPROC] = i # [Suc i..<NPROC]" by (auto simp: upt_conv_Cons)
  show ?case
  proof (cases "pstate (proc_at s i) = RUNNABLE")
    case True
    then have "switchuvm (s\<lparr>curproc := Some i\<rparr>) (Some i) =
        OK (s\<lparr>curproc := Some i, ts_esp0 := kstack (proc_at s i) + 4096, cr3 := V2P (pgdir (proc_at s i))\<rparr>)"
      using assms i(1) by (simp add: switchuvm_def sched_ok_def)
    then show ?thesis using True i by (subst scheduler_loop.simps) (simp add: dispatched_def)
  next
    case False
    then show ?thesis using Suc.hyps i by (subst scheduler_loop.simps) simp
  qed
qed

lemma scheduler_loop_cases:
  assumes "sched_ok s"
  obtains (none) "scheduler_loop i s = OK (None, s)" "\<And>k. i \<le> k \<Longrightarrow> k < NPROC \<Longrightarrow> pstate (proc_at s k) \<noteq> RUNNABLE"
  | (some) k where "scheduler_loop i s = OK (Some k, dispatched k s)" "i \<le> k" "k < NPROC" "pstate (proc_at s k) = RUNNABLE"
      "\<And>l. i \<le> l \<Longrightarrow> l < k \<Longrightarrow> pstate (proc_at s l) \<noteq> RUNNABLE"
proof (cases "find (\<lambda>k. pstate (proc_at s k) = RUNNABLE) [i..<NPROC]")
  case None
  then have "\<And>k. i \<le> k \<Longrightarrow> k < NPROC \<Longrightarrow> pstate (proc_at s k) \<noteq> RUNNABLE" by (auto simp: find_None_iff)
  then show thesis using none scheduler_loop_find [OF assms, of i] None by simp
next
  case (Some k)
  then obtain n where n: "n < NPROC - i" "k = i + n" "pstate (proc_at s k) = RUNNABLE"
    "\<And>l. l < n \<Longrightarrow> pstate (proc_at s (i + l)) \<noteq> RUNNABLE"
    by (auto simp: find_Some_iff)
  have "pstate (proc_at s l) \<noteq> RUNNABLE" if "i \<le> l" "l < k" for l using n(4) [of "l - i"] n(2) that by simp
  then show thesis using some n scheduler_loop_find [OF assms, of i] Some by simp
qed

subsection \<open>What the steps keep\<close>

definition undisturbed :: "procs \<Rightarrow> procs \<Rightarrow> bool" where
  "undisturbed s s' \<longleftrightarrow> sched_ok s' \<and> kpgdir s' = kpgdir s \<and> curproc s' = curproc s \<and> ts_esp0 s' = ts_esp0 s \<and> cr3 s' = cr3 s \<and>
     (\<forall>i<NPROC. (pstate (proc_at s' i) = RUNNING \<longleftrightarrow> pstate (proc_at s i) = RUNNING) \<and>
        (pstate (proc_at s i) = RUNNABLE \<longrightarrow> pstate (proc_at s' i) = RUNNABLE) \<and>
        (pstate (proc_at s i) = RUNNING \<longrightarrow> kstack (proc_at s' i) = kstack (proc_at s i) \<and> pgdir (proc_at s' i) = pgdir (proc_at s i)))"

lemma sched_ok_at:
  "sched_ok s \<Longrightarrow> j < NPROC \<Longrightarrow> pstate (proc_at s j) \<in> {RUNNABLE, SLEEPING, RUNNING} \<Longrightarrow>
   kstack (proc_at s j) \<noteq> 0 \<and> pgdir (proc_at s j) \<noteq> 0"
  by (auto simp: sched_ok_def)

lemma sched_ok_slot:
  assumes "sched_ok s" "ptable s' = (ptable s)[j := p]"
    "pstate p \<in> {RUNNABLE, SLEEPING, RUNNING} \<Longrightarrow> kstack p \<noteq> 0 \<and> pgdir p \<noteq> 0"
  shows "sched_ok s'"
  unfolding sched_ok_def
proof (intro conjI allI impI)
  show "length (ptable s') = NPROC" using assms(1,2) by (simp add: sched_ok_def)
  fix i assume i: "i < NPROC" "pstate (proc_at s' i) \<in> {RUNNABLE, SLEEPING, RUNNING}"
  have k: "proc_at s' i = (if i = j then p else proc_at s i)"
    using assms(1,2) i(1) by (simp add: sched_ok_def nth_list_update)
  show "kstack (proc_at s' i) \<noteq> 0" "pgdir (proc_at s' i) \<noteq> 0"
    using sched_ok_at [OF assms(1) i(1)] assms(3) i(2) k by (auto split: if_splits)
qed

lemma undisturbed_slot:
  assumes "sched_ok s" "ptable s' = (ptable s)[j := p]" "kpgdir s' = kpgdir s" "curproc s' = curproc s" "ts_esp0 s' = ts_esp0 s" "cr3 s' = cr3 s"
    "pstate p = RUNNING \<longleftrightarrow> pstate (proc_at s j) = RUNNING" "pstate (proc_at s j) = RUNNABLE \<Longrightarrow> pstate p = RUNNABLE"
    "pstate p = RUNNING \<Longrightarrow> kstack p = kstack (proc_at s j) \<and> pgdir p = pgdir (proc_at s j)"
    "pstate p \<in> {RUNNABLE, SLEEPING, RUNNING} \<Longrightarrow> kstack p \<noteq> 0 \<and> pgdir p \<noteq> 0"
  shows "undisturbed s s'"
proof -
  have k: "proc_at s' i = (if i = j then p else proc_at s i)" if "i < NPROC" for i
    using assms(1,2) that by (simp add: sched_ok_def nth_list_update)
  have "sched_ok s'" by (rule sched_ok_slot [OF assms(1,2,10)])
  then show ?thesis using assms(3-9) by (simp add: undisturbed_def k)
qed

lemma allocproc_slot:
  "ptable (snd (allocproc s)) = ptable s \<or>
   (\<exists>j p. ptable (snd (allocproc s)) = (ptable s)[j := p] \<and> pstate (proc_at s j) = UNUSED \<and> pstate p \<in> {EMBRYO, UNUSED})"
  "kpgdir (snd (allocproc s)) = kpgdir s" "curproc (snd (allocproc s)) = curproc s"
  "ts_esp0 (snd (allocproc s)) = ts_esp0 s" "cr3 (snd (allocproc s)) = cr3 s"
proof -
  show "kpgdir (snd (allocproc s)) = kpgdir s" "curproc (snd (allocproc s)) = curproc s"
    "ts_esp0 (snd (allocproc s)) = ts_esp0 s" "cr3 (snd (allocproc s)) = cr3 s"
    by (simp_all add: allocproc_def kalloc_def Let_def upd_proc_def split: option.split)
  show "ptable (snd (allocproc s)) = ptable s \<or>
   (\<exists>j p. ptable (snd (allocproc s)) = (ptable s)[j := p] \<and> pstate (proc_at s j) = UNUSED \<and> pstate p \<in> {EMBRYO, UNUSED})"
  proof (cases "find_idx (\<lambda>p. pstate p = UNUSED) (ptable s)")
    case None
    then show ?thesis by (simp add: allocproc_def)
  next
    case (Some j)
    note j = find_idx_SomeD [OF Some]
    have "ptable (snd (allocproc s)) = (ptable s)[j := proc_at (snd (allocproc s)) j]"
      "pstate (proc_at (snd (allocproc s)) j) \<in> {EMBRYO, UNUSED}"
      using Some j by (simp_all add: allocproc_def kalloc_def Let_def)
    then show ?thesis using j by blast
  qed
qed

lemma table_op_undisturbed:
  assumes "table_op s s'" "sched_ok s"
  shows "undisturbed s s'"
  using assms(1)
proof cases
  case (wakes ch)
  then show ?thesis using assms(2) by (auto simp: undisturbed_def sched_ok_def wakeup_def wakeup1_def)
next
  case (kills n)
  show ?thesis
  proof (cases "find_idx (\<lambda>p. pid p = n) (ptable s)")
    case None
    then show ?thesis using kills assms(2) by (simp add: kill_def undisturbed_def)
  next
    case (Some j)
    let ?p = "(proc_at s j)\<lparr>killed := True, pstate := (if pstate (proc_at s j) = SLEEPING then RUNNABLE else pstate (proc_at s j))\<rparr>"
    have j: "j < NPROC" using find_idx_SomeD [OF Some] assms(2) by (simp add: sched_ok_def)
    have "ptable s' = (ptable s)[j := ?p]" "kpgdir s' = kpgdir s" "curproc s' = curproc s" "ts_esp0 s' = ts_esp0 s" "cr3 s' = cr3 s"
      using kills Some find_idx_SomeD [OF Some] by (simp_all add: kill_def Let_def upd_proc_def)
    then show ?thesis
      by (rule undisturbed_slot [OF assms(2)]) (use sched_ok_at [OF assms(2) j] in \<open>auto split: if_splits\<close>)
  qed
next
  case allocates
  show ?thesis using allocproc_slot(1) [of s]
  proof (elim disjE exE conjE)
    assume "ptable (snd (allocproc s)) = ptable s"
    then show ?thesis using allocates assms(2) by (simp add: undisturbed_def sched_ok_def allocproc_slot)
  next
    fix j p assume "ptable (snd (allocproc s)) = (ptable s)[j := p]" "pstate (proc_at s j) = UNUSED" "pstate p \<in> {EMBRYO, UNUSED}"
    then show ?thesis unfolding allocates by (intro undisturbed_slot [OF assms(2), of _ j p]) (auto simp: allocproc_slot(2-))
  qed
next
  case (fills j p)
  then show ?thesis by (intro undisturbed_slot [OF assms(2), of s' j p]) (auto simp: upd_proc_def)
next
  case (reaps j p)
  then show ?thesis by (intro undisturbed_slot [OF assms(2), of s' j p]) (auto simp: upd_proc_def)
next
  case (writes j f)
  then show ?thesis
    using sched_ok_at [OF assms(2), of j] by (intro undisturbed_slot [OF assms(2), of s' j "f (proc_at s j)"]) (simp_all add: upd_proc_def)
next
  case other
  then show ?thesis using assms(2) by (simp add: undisturbed_def sched_ok_def)
qed

text \<open>
  The invariant: a process is marked as running exactly when a CPU runs it, no two CPUs run the same
  one, and a CPU that runs a process uses its page table and its kernel stack.
\<close>

definition smp_ok :: "smp \<Rightarrow> bool" where
  "smp_ok m \<longleftrightarrow> sched_ok (shared m) \<and>
     (\<forall>c. cv_proc (cvars m c) = None \<longrightarrow> cv_cr3 (cvars m c) = V2P (kpgdir (shared m))) \<and>
     (\<forall>c j. cv_proc (cvars m c) = Some j \<longrightarrow> j < NPROC \<and> pstate (proc_at (shared m) j) = RUNNING \<and>
        cv_cr3 (cvars m c) = V2P (pgdir (proc_at (shared m) j)) \<and> cv_esp0 (cvars m c) = kstack (proc_at (shared m) j) + 4096) \<and>
     (\<forall>c c' j. cv_proc (cvars m c) = Some j \<and> cv_proc (cvars m c') = Some j \<longrightarrow> c = c') \<and>
     (\<forall>j<NPROC. pstate (proc_at (shared m) j) = RUNNING \<longrightarrow> (\<exists>c. cv_proc (cvars m c) = Some j))"

lemma on_cpu_simps [simp]:
  "ptable (on_cpu m c) = ptable (shared m)" "kpgdir (on_cpu m c) = kpgdir (shared m)" "curproc (on_cpu m c) = cv_proc (cvars m c)"
  "ts_esp0 (on_cpu m c) = cv_esp0 (cvars m c)" "cr3 (on_cpu m c) = cv_cr3 (cvars m c)"
  "on_cpu (by_cpu c s m) c = s" "by_cpu c s (by_cpu c t m) = by_cpu c s m" "shared (by_cpu c s m) = s"
  "cvars (by_cpu c s m) d = (if d = c then \<lparr>cv_proc = curproc s, cv_esp0 = ts_esp0 s, cv_cr3 = cr3 s\<rparr> else cvars m d)"
  by (simp_all add: on_cpu_def by_cpu_def)

lemma sched_ok_on_cpu: "smp_ok m \<Longrightarrow> sched_ok (on_cpu m c)"
  by (simp add: smp_ok_def sched_ok_def)

text \<open>What is left to show when the code on CPU \<open>c\<close> has changed the state.\<close>

definition cpu_ok :: "procs \<Rightarrow> cpu_vars \<Rightarrow> bool" where
  "cpu_ok s v \<longleftrightarrow>
     (case cv_proc v of
        None \<Rightarrow> cv_cr3 v = V2P (kpgdir s)
      | Some j \<Rightarrow> j < NPROC \<and> pstate (proc_at s j) = RUNNING \<and> cv_cr3 v = V2P (pgdir (proc_at s j)) \<and>
          cv_esp0 v = kstack (proc_at s j) + 4096)"

lemma smp_ok_by_cpu:
  assumes "smp_ok m" "sched_ok s" "kpgdir s = kpgdir (shared m)"
    "cpu_ok s \<lparr>cv_proc = curproc s, cv_esp0 = ts_esp0 s, cv_cr3 = cr3 s\<rparr>"
    "\<And>d j. d \<noteq> c \<Longrightarrow> cv_proc (cvars m d) = Some j \<Longrightarrow> curproc s \<noteq> Some j \<and> pstate (proc_at s j) = RUNNING \<and>
       kstack (proc_at s j) = kstack (proc_at (shared m) j) \<and> pgdir (proc_at s j) = pgdir (proc_at (shared m) j)"
    "\<And>j. j < NPROC \<Longrightarrow> pstate (proc_at s j) = RUNNING \<Longrightarrow> curproc s = Some j \<or> (\<exists>d. d \<noteq> c \<and> cv_proc (cvars m d) = Some j)"
  shows "smp_ok (by_cpu c s m)"
proof -
  note ok = assms(1) [unfolded smp_ok_def]
  show ?thesis unfolding smp_ok_def
  proof (intro conjI allI impI)
    show "sched_ok (shared (by_cpu c s m))" using assms(2) by simp
  next
    fix d assume "cv_proc (cvars (by_cpu c s m) d) = None"
    then show "cv_cr3 (cvars (by_cpu c s m) d) = V2P (kpgdir (shared (by_cpu c s m)))"
      using ok assms(3,4) by (auto simp: cpu_ok_def split: if_splits)
  next
    fix d j assume d: "cv_proc (cvars (by_cpu c s m) d) = Some j"
    show "j < NPROC" "pstate (proc_at (shared (by_cpu c s m)) j) = RUNNING"
      "cv_cr3 (cvars (by_cpu c s m) d) = V2P (pgdir (proc_at (shared (by_cpu c s m)) j))"
      "cv_esp0 (cvars (by_cpu c s m) d) = kstack (proc_at (shared (by_cpu c s m)) j) + 4096"
      using ok assms(4) assms(5) [of d j] d by (auto simp: cpu_ok_def split: if_splits)
  next
    fix d e j assume "cv_proc (cvars (by_cpu c s m) d) = Some j \<and> cv_proc (cvars (by_cpu c s m) e) = Some j"
    then show "d = e" using ok assms(5) [of d j] assms(5) [of e j] by (auto split: if_splits)
  next
    fix j assume "j < NPROC" "pstate (proc_at (shared (by_cpu c s m)) j) = RUNNING"
    then show "\<exists>d. cv_proc (cvars (by_cpu c s m) d) = Some j"
      using assms(6) [of j] by auto
  qed
qed

lemma smp_okD:
  assumes "smp_ok m"
  shows "sched_ok (shared m)" "length (ptable (shared m)) = NPROC" "cpu_ok (shared m) (cvars m c)"
    "cv_proc (cvars m c) = Some j \<Longrightarrow> j < NPROC" "cv_proc (cvars m c) = Some j \<Longrightarrow> pstate (proc_at (shared m) j) = RUNNING"
    "cv_proc (cvars m c) = Some j \<Longrightarrow> cv_proc (cvars m d) = Some j \<Longrightarrow> c = d"
    "j < NPROC \<Longrightarrow> pstate (proc_at (shared m) j) = RUNNING \<Longrightarrow> \<exists>c. cv_proc (cvars m c) = Some j"
  using assms by (auto simp: smp_ok_def sched_ok_def cpu_ok_def split: option.split)

lemma smp_ok_changes:
  assumes "smp_ok m" "undisturbed (on_cpu m c) s"
  shows "smp_ok (by_cpu c s m)"
proof -
  note D = smp_okD [OF assms(1)] and u = assms(2) [unfolded undisturbed_def]
  show ?thesis
  proof (rule smp_ok_by_cpu [OF assms(1)])
    show "cpu_ok s \<lparr>cv_proc = curproc s, cv_esp0 = ts_esp0 s, cv_cr3 = cr3 s\<rparr>"
      using D(3) [of c] u by (auto simp: cpu_ok_def split: option.splits)
  next
    fix d j assume "d \<noteq> c" "cv_proc (cvars m d) = Some j"
    then show "curproc s \<noteq> Some j \<and> pstate (proc_at s j) = RUNNING \<and>
       kstack (proc_at s j) = kstack (proc_at (shared m) j) \<and> pgdir (proc_at s j) = pgdir (proc_at (shared m) j)"
      using D(4,5) [of d j] D(6) [of d j c] u by auto
  next
    fix j assume "j < NPROC" "pstate (proc_at s j) = RUNNING"
    then show "curproc s = Some j \<or> (\<exists>d. d \<noteq> c \<and> cv_proc (cvars m d) = Some j)"
      using D(7) [of j] u by auto
  qed (use u in simp_all)
qed

text \<open>A CPU changes the slot of its own process.\<close>

lemma smp_ok_own_slot:
  assumes "smp_ok m" "cv_proc (cvars m c) = Some j \<or> cv_proc (cvars m c) = None \<and> pstate (proc_at (shared m) j) \<noteq> RUNNING"
    "j < NPROC" "ptable s = (ptable (shared m))[j := p]" "kpgdir s = kpgdir (shared m)"
    "pstate p \<in> {RUNNABLE, SLEEPING, RUNNING} \<Longrightarrow> kstack p \<noteq> 0 \<and> pgdir p \<noteq> 0"
    "curproc s = Some j \<and> pstate p = RUNNING \<and> cr3 s = V2P (pgdir p) \<and> ts_esp0 s = kstack p + 4096 \<or>
     curproc s = None \<and> pstate p \<noteq> RUNNING \<and> cr3 s = V2P (kpgdir s)"
  shows "smp_ok (by_cpu c s m)"
proof -
  note D = smp_okD [OF assms(1)]
  have k: "proc_at s i = (if i = j then p else proc_at (shared m) i)" if "i < NPROC" for i
    using that D(2) assms(4) by (simp add: nth_list_update)
  have other: "i \<noteq> j" if "d \<noteq> c" "cv_proc (cvars m d) = Some i" for d i
    using that assms(2) D(5) [of d i] D(6) [of d i c] by auto
  show ?thesis
  proof (rule smp_ok_by_cpu [OF assms(1)])
    show "sched_ok s" by (rule sched_ok_slot [OF D(1) assms(4,6)])
  next
    show "cpu_ok s \<lparr>cv_proc = curproc s, cv_esp0 = ts_esp0 s, cv_cr3 = cr3 s\<rparr>"
      using assms(3,7) k [OF assms(3)] by (auto simp: cpu_ok_def)
  next
    fix d i assume d: "d \<noteq> c" "cv_proc (cvars m d) = Some i"
    then show "curproc s \<noteq> Some i \<and> pstate (proc_at s i) = RUNNING \<and>
       kstack (proc_at s i) = kstack (proc_at (shared m) i) \<and> pgdir (proc_at s i) = pgdir (proc_at (shared m) i)"
      using D(4,5) [of d i] other [OF d] k [of i] assms(7) by auto
  next
    fix i assume i: "i < NPROC" "pstate (proc_at s i) = RUNNING"
    show "curproc s = Some i \<or> (\<exists>d. d \<noteq> c \<and> cv_proc (cvars m d) = Some i)"
    proof (cases "i = j")
      case True
      then show ?thesis using i k assms(7) by auto
    next
      case False
      then obtain d where "cv_proc (cvars m d) = Some i" using D(7) [of i] i k by auto
      then show ?thesis using False assms(2) by (cases "d = c") auto
    qed
  qed (use assms(5) in simp)
qed

lemma smp_ok_loads:
  assumes "smp_ok m" "cv_proc (cvars m c) = Some j"
    "switchuvm (upd_proc (on_cpu m c) j (\<lambda>p. p\<lparr>pgdir := pgd, psz := sz\<rparr>)) (Some j) = OK s"
  shows "smp_ok (by_cpu c s m)"
proof -
  note D = smp_okD [OF assms(1)]
  show ?thesis
    by (rule smp_ok_own_slot [OF assms(1), of c j s "(proc_at (shared m) j)\<lparr>pgdir := pgd, psz := sz\<rparr>"])
      (use assms(2,3) D(2) D(4,5) [OF assms(2)] in \<open>auto simp: switchuvm_def upd_proc_def split: if_splits\<close>)
qed

lemma smp_ok_dispatched:
  assumes "smp_ok m" "cv_proc (cvars m c) = None" "k < NPROC" "pstate (proc_at (shared m) k) = RUNNABLE"
  shows "smp_ok (by_cpu c (dispatched k (on_cpu m c)) m)"
proof -
  note D = smp_okD [OF assms(1)]
  show ?thesis
    by (rule smp_ok_own_slot [OF assms(1), of c k _ "(proc_at (shared m) k)\<lparr>pstate := RUNNING\<rparr>"])
      (use assms(2-4) D(1) in \<open>auto simp: dispatched_def upd_proc_def sched_ok_def\<close>)
qed

lemma gives_up_slot:
  assumes "gives_up j s t" "curproc s = Some j"
  shows "\<exists>p. ptable t = (ptable s)[j := p] \<and> pstate p \<in> {RUNNABLE, SLEEPING, ZOMBIE} \<and> kstack p = kstack (proc_at s j) \<and> pgdir p = pgdir (proc_at s j)"
    and "kpgdir t = kpgdir s"
  using assms by (cases; force simp: yield_def sleep_begin_def upd_proc_def)+

lemma smp_ok_gives_up:
  assumes "smp_ok m" "cv_proc (cvars m c) = Some j" "gives_up j (on_cpu m c) t"
  shows "smp_ok (by_cpu c ((switchkvm t)\<lparr>curproc := None\<rparr>) m)"
    and "\<And>i. i \<noteq> j \<Longrightarrow> proc_at t i = proc_at (shared m) i"
proof -
  note D = smp_okD [OF assms(1)]
  obtain p where p: "ptable t = (ptable (shared m))[j := p]" "pstate p \<in> {RUNNABLE, SLEEPING, ZOMBIE}"
    "kstack p = kstack (proc_at (shared m) j)" "pgdir p = pgdir (proc_at (shared m) j)" "kpgdir t = kpgdir (shared m)"
    using gives_up_slot [OF assms(3)] assms(2) by auto
  show "smp_ok (by_cpu c ((switchkvm t)\<lparr>curproc := None\<rparr>) m)"
    by (rule smp_ok_own_slot [OF assms(1), of c j _ p])
      (use assms(2) p D(1) D(4,5) [OF assms(2)] in \<open>auto simp: switchkvm_def sched_ok_def\<close>)
  show "\<And>i. i \<noteq> j \<Longrightarrow> proc_at t i = proc_at (shared m) i" using p(1) by simp
qed

text \<open>The search of CPU \<open>c\<close>, which runs no process, from slot \<open>i\<close> on.\<close>

lemma smp_ok_search:
  assumes "smp_ok m" "cv_proc (cvars m c) = None"
  shows "\<exists>r s. scheduler_loop i (on_cpu m c) = OK (r, s) \<and> smp_ok (by_cpu c s m) \<and>
    (\<forall>j<NPROC. i \<le> j \<and> pstate (proc_at (shared m) j) = RUNNABLE \<longrightarrow>
       pstate (proc_at s j) = RUNNING \<or> pstate (proc_at s j) = RUNNABLE \<and> (\<exists>k<j. curproc s = Some k)) \<and>
    (\<forall>j<NPROC. pstate (proc_at (shared m) j) = RUNNABLE \<longrightarrow> pstate (proc_at s j) \<in> {RUNNING, RUNNABLE})"
proof (rule scheduler_loop_cases [OF sched_ok_on_cpu [OF assms(1), of c], of i])
  assume "scheduler_loop i (on_cpu m c) = OK (None, on_cpu m c)"
    "\<And>k. i \<le> k \<Longrightarrow> k < NPROC \<Longrightarrow> pstate (proc_at (on_cpu m c) k) \<noteq> RUNNABLE"
  moreover have "smp_ok (by_cpu c (on_cpu m c) m)"
    by (rule smp_ok_changes [OF assms(1) table_op_undisturbed [OF table_op.other sched_ok_on_cpu [OF assms(1)]]]) simp_all
  ultimately show ?thesis by auto
next
  fix k assume k: "scheduler_loop i (on_cpu m c) = OK (Some k, dispatched k (on_cpu m c))" "i \<le> k" "k < NPROC"
    "pstate (proc_at (on_cpu m c) k) = RUNNABLE" "\<And>l. i \<le> l \<Longrightarrow> l < k \<Longrightarrow> pstate (proc_at (on_cpu m c) l) \<noteq> RUNNABLE"
  let ?s = "dispatched k (on_cpu m c)"
  have s: "proc_at ?s j = (if j = k then (proc_at (shared m) k)\<lparr>pstate := RUNNING\<rparr> else proc_at (shared m) j)" "curproc ?s = Some k"
    if "j < NPROC" for j
    using that smp_okD(2) [OF assms(1)] by (simp_all add: dispatched_def nth_list_update)
  have "k < j" if "i \<le> j" "j \<noteq> k" "pstate (proc_at (shared m) j) = RUNNABLE" for j
    using k(5) [of j] that by (cases "j < k") auto
  then show ?thesis
    using k(1,3,4) smp_ok_dispatched [OF assms k(3)] s by (intro exI [of _ "Some k"] exI [of _ ?s]) auto
qed

lemma sched_step_ok:
  assumes "sched_step m m'" "smp_ok m"
  shows "smp_ok m'"
  using assms(1)
proof cases
  case (starts c r s)
  then show ?thesis using smp_ok_search [OF assms(2) starts(2), of 0] by (auto simp: scheduler_def)
next
  case (changes c s)
  then show ?thesis using smp_ok_changes [OF assms(2)] table_op_undisturbed [OF _ sched_ok_on_cpu [OF assms(2)]] by blast
next
  case (loads c j pgd sz s)
  then show ?thesis using smp_ok_loads [OF assms(2)] by blast
next
  case (goes_on c j t r s)
  let ?m = "by_cpu c ((switchkvm t)\<lparr>curproc := None\<rparr>) m"
  have "smp_ok ?m" by (rule smp_ok_gives_up [OF assms(2) goes_on(2,3)])
  then show ?thesis using smp_ok_search [of ?m c "Suc j"] goes_on(1,4) by (auto simp: scheduler_resume_def Let_def)
qed

lemma sched_reachable_ok: "sched_reachable m \<Longrightarrow> smp_ok m"
proof (induction rule: sched_reachable.induct)
  case (init m)
  then show ?case by (auto simp: sched_init_def smp_ok_def)
qed (rule sched_step_ok)

text \<open>A runnable process above the slot that CPU \<open>c\<close> runs is still ahead of that CPU's search, or it is run.\<close>

definition ahead :: "nat \<Rightarrow> nat \<Rightarrow> smp \<Rightarrow> bool" where
  "ahead c j m \<longleftrightarrow> pstate (proc_at (shared m) j) = RUNNABLE \<and> (\<exists>k<j. cv_proc (cvars m c) = Some k)"

lemma ahead_other:
  assumes "ahead c j m" "d \<noteq> c" "pstate (proc_at s j) \<in> {RUNNING, RUNNABLE}"
  shows "pstate (proc_at (shared (by_cpu d s m)) j) = RUNNING \<or> ahead c j (by_cpu d s m)"
  using assms by (auto simp: ahead_def)

lemma sched_step_ahead:
  assumes "sched_step m m'" "smp_ok m" "j < NPROC" "ahead c j m"
  shows "pstate (proc_at (shared m') j) = RUNNING \<or> ahead c j m'"
proof -
  note a = assms(4) [unfolded ahead_def]
  from assms(1) show ?thesis
  proof cases
    case (starts d r s)
    then have "d \<noteq> c" using a by auto
    moreover have "pstate (proc_at s j) \<in> {RUNNING, RUNNABLE}"
      using smp_ok_search [OF assms(2) starts(2), of 0] starts(3) a assms(3) by (auto simp: scheduler_def)
    ultimately show ?thesis unfolding starts(1) by (intro ahead_other [OF assms(4)])
  next
    case (changes d s)
    then have "undisturbed (on_cpu m d) s" using table_op_undisturbed [OF _ sched_ok_on_cpu [OF assms(2)]] by blast
    then show ?thesis using changes(1) a assms(3) by (auto simp: undisturbed_def ahead_def)
  next
    case (loads d i pgd sz s)
    then have "i \<noteq> j" using smp_okD(5) [OF assms(2) loads(2)] a by auto
    then show ?thesis using loads a by (auto simp: switchuvm_def ahead_def split: if_splits)
  next
    case (goes_on d i t r s)
    let ?m = "by_cpu d ((switchkvm t)\<lparr>curproc := None\<rparr>) m"
    have i: "i \<noteq> j" using smp_okD(5) [OF assms(2) goes_on(2)] a by auto
    have ok: "smp_ok ?m" by (rule smp_ok_gives_up [OF assms(2) goes_on(2,3)])
    have j: "pstate (proc_at (shared ?m) j) = RUNNABLE"
      using smp_ok_gives_up(2) [OF assms(2) goes_on(2,3)] i a by (simp add: switchkvm_def)
    have l: "scheduler_loop (Suc i) (on_cpu ?m d) = OK (r, s)" using goes_on(4) by (simp add: scheduler_resume_def Let_def)
    note f = smp_ok_search [OF ok, of d "Suc i"]
    show ?thesis
    proof (cases "d = c")
      case True
      then have "Suc i \<le> j" using a goes_on(2) by auto
      then show ?thesis using f l j assms(3) goes_on(1) True by (auto simp: ahead_def)
    next
      case False
      have "pstate (proc_at s j) \<in> {RUNNING, RUNNABLE}" using f l j assms(3) by auto
      then show ?thesis unfolding goes_on(1) by (intro ahead_other [OF assms(4) False])
    qed
  qed
qed

lemma ahead_runs:
  assumes "successively sched_step (m # ms)" "smp_ok m" "j < NPROC" "ahead c j m" "cv_proc (cvars (last (m # ms)) c) = None"
  shows "\<exists>m' \<in> set ms. pstate (proc_at (shared m') j) = RUNNING"
  using assms
proof (induction ms arbitrary: m)
  case Nil
  then show ?case by (auto simp: ahead_def)
next
  case (Cons m1 ms)
  then have s: "sched_step m m1" "successively sched_step (m1 # ms)" by simp_all
  show ?case
    using sched_step_ahead [OF s(1) Cons.prems(2-4)] Cons.IH [OF s(2) sched_step_ok [OF s(1) Cons.prems(2)] Cons.prems(3)]
      Cons.prems(5) by auto
qed

subsection \<open>Two processes on two CPUs\<close>

definition two_runnable :: smp where
  "two_runnable = \<lparr>shared = boot_procs\<lparr>ptable := (ptable boot_procs)
     [3 := (ptable boot_procs ! 3)\<lparr>pstate := RUNNABLE, kstack := 0x80200000, pgdir := 0x80201000\<rparr>,
      5 := (ptable boot_procs ! 5)\<lparr>pstate := RUNNABLE, kstack := 0x80202000, pgdir := 0x80203000\<rparr>]\<rparr>,
     cvars = (\<lambda>_. \<lparr>cv_proc = None, cv_esp0 = 0, cv_cr3 = V2P 0\<rparr>)\<rparr>"

text \<open>The first CPU takes the first process, the second the other; then the first process yields.\<close>

definition first_on :: smp where
  "first_on = by_cpu 0 (dispatched 3 (on_cpu two_runnable 0)) two_runnable"

definition both_on :: smp where
  "both_on = by_cpu 1 (dispatched 5 (on_cpu first_on 1)) first_on"

definition first_off :: smp where
  "first_off = by_cpu 0 ((switchkvm (yield (on_cpu both_on 0) 3))\<lparr>curproc := None\<rparr>) both_on"

lemma scheduler_loop_at:
  assumes "sched_ok s" "i \<le> k" "k < NPROC" "pstate (proc_at s k) = RUNNABLE" "\<And>l. i \<le> l \<Longrightarrow> l < k \<Longrightarrow> pstate (proc_at s l) \<noteq> RUNNABLE"
  shows "scheduler_loop i s = OK (Some k, dispatched k s)"
proof (rule scheduler_loop_cases [OF assms(1), of i])
  fix k' assume "scheduler_loop i s = OK (Some k', dispatched k' s)" "i \<le> k'" "pstate (proc_at s k') = RUNNABLE"
    "\<And>l. i \<le> l \<Longrightarrow> l < k' \<Longrightarrow> pstate (proc_at s l) \<noteq> RUNNABLE"
  moreover from this have "k' = k" using assms(2,4,5) by (metis linorder_neqE_nat)
  ultimately show ?thesis by simp
qed (use assms(2-4) in auto)

lemma two_cpus_table:
  assumes "i < 64"
  shows "pstate (proc_at (shared two_runnable) i) = (if i = 3 \<or> i = 5 then RUNNABLE else UNUSED)"
    and "pstate (proc_at (shared first_on) i) = (if i = 3 then RUNNING else if i = 5 then RUNNABLE else UNUSED)"
    and "pstate (proc_at (shared both_on) i) = (if i = 3 \<or> i = 5 then RUNNING else UNUSED)"
proof -
  have l: "length (ptable boot_procs) = 64" and u: "pstate (ptable boot_procs ! i) = UNUSED"
    using assms by (simp_all add: boot_procs_def mstate.defs)
  show "pstate (proc_at (shared two_runnable) i) = (if i = 3 \<or> i = 5 then RUNNABLE else UNUSED)"
    "pstate (proc_at (shared first_on) i) = (if i = 3 then RUNNING else if i = 5 then RUNNABLE else UNUSED)"
    "pstate (proc_at (shared both_on) i) = (if i = 3 \<or> i = 5 then RUNNING else UNUSED)"
    using assms l u by (simp_all add: both_on_def first_on_def two_runnable_def dispatched_def nth_list_update)
qed

lemma two_cpus_procs:
  "cv_proc (cvars first_on 0) = Some 3" "cv_proc (cvars first_on 1) = None" "cv_proc (cvars both_on 0) = Some 3"
  "cv_proc (cvars both_on 1) = Some 5" "cv_proc (cvars first_off 0) = None" "cv_proc (cvars two_runnable c) = None"
  by (simp_all add: first_off_def both_on_def first_on_def two_runnable_def dispatched_def upd_proc_def switchkvm_def)

lemma two_cpus_steps:
  "sched_init two_runnable" "scheduler (on_cpu two_runnable 0) = OK (Some 3, dispatched 3 (on_cpu two_runnable 0))"
  "sched_step two_runnable first_on" "sched_step first_on both_on" "sched_step both_on first_off"
proof -
  note t = two_cpus_table and p = two_cpus_procs
  have l: "length (ptable boot_procs) = 64" "kpgdir boot_procs = 0" by (simp_all add: boot_procs_def mstate.defs)
  have "\<forall>i<NPROC. pstate (proc_at (shared two_runnable) i) \<in> {RUNNABLE, SLEEPING, RUNNING} \<longrightarrow>
      kstack (proc_at (shared two_runnable) i) \<noteq> 0 \<and> pgdir (proc_at (shared two_runnable) i) \<noteq> 0"
    using l t(1) by (auto simp: two_runnable_def nth_list_update)
  moreover have "length (ptable (shared two_runnable)) = 64" "cv_cr3 (cvars two_runnable c) = V2P (kpgdir (shared two_runnable))" for c
    using l by (simp_all add: two_runnable_def)
  ultimately show init: "sched_init two_runnable" using t(1) p(6) by (simp add: sched_init_def sched_ok_def)
  have ok0: "smp_ok two_runnable" by (rule sched_reachable_ok [OF sched_reachable.init [OF init]])
  show s0: "scheduler (on_cpu two_runnable 0) = OK (Some 3, dispatched 3 (on_cpu two_runnable 0))"
    unfolding scheduler_def by (rule scheduler_loop_at [OF sched_ok_on_cpu [OF ok0]]) (use t(1) in auto)
  show 1: "sched_step two_runnable first_on" unfolding first_on_def by (rule sched_step.starts [OF p(6) s0])
  have ok1: "smp_ok first_on" by (rule sched_step_ok [OF 1 ok0])
  have "scheduler (on_cpu first_on 1) = OK (Some 5, dispatched 5 (on_cpu first_on 1))"
    unfolding scheduler_def by (rule scheduler_loop_at [OF sched_ok_on_cpu [OF ok1]]) (use t(2) in auto)
  then show 2: "sched_step first_on both_on" unfolding both_on_def by (rule sched_step.starts [OF p(2)])
  have ok2: "smp_ok both_on" by (rule sched_step_ok [OF 2 ok1])
  let ?s = "(switchkvm (yield (on_cpu both_on 0) 3))\<lparr>curproc := None\<rparr>"
  have g: "gives_up 3 (on_cpu both_on 0) (yield (on_cpu both_on 0) 3)" by (rule gives_up.yields)
  have "sched_ok ?s" using smp_okD(1) [OF smp_ok_gives_up(1) [OF ok2 p(3) g]] by simp
  moreover have "pstate (proc_at ?s i) \<noteq> RUNNABLE" if "Suc 3 \<le> i" "i < NPROC" for i
    using that t(3) by (simp add: switchkvm_def yield_def)
  ultimately have "scheduler_loop (Suc 3) ?s = OK (None, ?s)"
    by (cases rule: scheduler_loop_cases [of ?s "Suc 3"]) auto
  then have "scheduler_resume 3 (yield (on_cpu both_on 0) 3) = OK (None, ?s)" by (simp add: scheduler_resume_def)
  then show "sched_step both_on first_off" unfolding first_off_def by (rule sched_step.goes_on [OF p(3) g])
qed

subsection \<open>Properties\<close>

text \<open>
  Property C7. However the CPUs interleave, a process runs on at most one of them, and the state RUNNING
  in the table says exactly that some CPU runs it.  A CPU that runs a process has its page table and
  its kernel stack loaded; a CPU between processes uses the page table of the kernel.  The scheduler
  never panics in switchuvm, neither at the start of a pass nor after a process gave up the CPU.
\<close>

theorem process_runs_on_one_cpu:
  assumes "sched_reachable m"
  shows "(\<forall>c c' j. cv_proc (cvars m c) = Some j \<and> cv_proc (cvars m c') = Some j \<longrightarrow> c = c') \<and>
    (\<forall>j<NPROC. pstate (proc_at (shared m) j) = RUNNING \<longleftrightarrow> (\<exists>c. cv_proc (cvars m c) = Some j)) \<and>
    (\<forall>c j. cv_proc (cvars m c) = Some j \<longrightarrow> j < NPROC \<and> cv_cr3 (cvars m c) = V2P (pgdir (proc_at (shared m) j)) \<and>
       cv_esp0 (cvars m c) = kstack (proc_at (shared m) j) + 4096) \<and>
    (\<forall>c. cv_proc (cvars m c) = None \<longrightarrow> cv_cr3 (cvars m c) = V2P (kpgdir (shared m)) \<and>
       (\<exists>r s. scheduler (on_cpu m c) = OK (r, s))) \<and>
    (\<forall>c j t. cv_proc (cvars m c) = Some j \<and> gives_up j (on_cpu m c) t \<longrightarrow> (\<exists>r s. scheduler_resume j t = OK (r, s)))"
proof -
  note ok = sched_reachable_ok [OF assms]
  have "\<exists>r s. scheduler (on_cpu m c) = OK (r, s)" if "cv_proc (cvars m c) = None" for c
    using smp_ok_search [OF ok that, of 0] by (auto simp: scheduler_def)
  moreover have "\<exists>r s. scheduler_resume j t = OK (r, s)" if "cv_proc (cvars m c) = Some j" "gives_up j (on_cpu m c) t" for c j t
    using smp_ok_search [OF smp_ok_gives_up(1) [OF ok that], of c "Suc j"] by (auto simp: scheduler_resume_def Let_def)
  ultimately show ?thesis using ok unfolding smp_ok_def by blast
qed

theorem process_runs_on_one_cpu_witness:
  "\<exists>m. sched_reachable m \<and> cv_proc (cvars m 0) = Some 3 \<and> cv_proc (cvars m 1) = Some 5 \<and> cv_cr3 (cvars m 1) = V2P 0x80203000"
proof -
  have "sched_reachable both_on" 
    by (rule sched_reachable.step [OF sched_reachable.step [OF sched_reachable.init [OF two_cpus_steps(1)] two_cpus_steps(3)] two_cpus_steps(4)])
  moreover have "pgdir (proc_at (shared both_on) 5) = 0x80203000"
    by (simp add: both_on_def first_on_def two_runnable_def dispatched_def boot_procs_def mstate.defs)
  ultimately show ?thesis using process_runs_on_one_cpu [of both_on] two_cpus_procs(3,4) by (intro exI [of _ both_on]) auto
qed

text \<open>
  Property C8. No runnable process is passed over: by the end of a pass of a CPU's scheduler over the
  table, every process that was runnable when the pass began has been switched to, by this CPU or by
  another.  In every execution in which CPU \<open>c\<close>, between two processes, starts a pass and later is
  again without a process, there is a state in which the process is RUNNING.
\<close>

theorem scheduler_runs_every_runnable:
  assumes "sched_reachable m" and "cv_proc (cvars m c) = None" and "scheduler (on_cpu m c) = OK (r, s)"
    and "successively sched_step (by_cpu c s m # ms)" and "cv_proc (cvars (last (by_cpu c s m # ms)) c) = None"
    and "j < NPROC" and "pstate (proc_at (shared m) j) = RUNNABLE"
  shows "\<exists>m' \<in> set (by_cpu c s m # ms). pstate (proc_at (shared m') j) = RUNNING"
proof -
  let ?m = "by_cpu c s m"
  note f = smp_ok_search [OF sched_reachable_ok [OF assms(1)] assms(2), of 0]
  have ok: "smp_ok ?m" and "pstate (proc_at (shared ?m) j) = RUNNING \<or> ahead c j ?m"
    using f assms(3,6,7) by (auto simp: scheduler_def ahead_def)
  then show ?thesis using ahead_runs [OF assms(4) ok assms(6) _ assms(5)] by auto
qed

theorem scheduler_runs_every_runnable_witness:
  "cv_proc (cvars first_off 0) = None \<and> (\<exists>m' \<in> {first_on, both_on, first_off}. pstate (proc_at (shared m') 5) = RUNNING)"
proof -
  have "successively sched_step [first_on, both_on, first_off]" using two_cpus_steps(4,5) by simp
  then show ?thesis
    using scheduler_runs_every_runnable [OF sched_reachable.init [OF two_cpus_steps(1)] two_cpus_procs(6) two_cpus_steps(2),
        of "[both_on, first_off]" 5] two_cpus_procs(5) two_cpus_table(1) [of 5]
    by (simp add: first_on_def)
qed

end
