(* ===== verification/Spec2Isabelle.thy ===== *)
theory Spec2Isabelle
  imports Counts Kbd Process_Fork Scheduler
begin

text \<open>
  A verification library for the xv6 kernel under \<^verbatim>\<open>src/Assignment 4/xv6-Team-Assignment\<close>, a
  teaching operating system for the PC to which the repository adds counters of system calls and
  small files kept in the address array of their inode.

  \<^bold>\<open>The program.\<close>  User programs enter the kernel through \<^verbatim>\<open>trap\<close>.  A system call is fetched from the
  user stack by \<^verbatim>\<open>syscall\<close> and carried out by the handlers of \<^verbatim>\<open>sysproc.c\<close> and \<^verbatim>\<open>sysfile.c\<close>, which
  work on the process table (\<^verbatim>\<open>proc.c\<close>), the page tables (\<^verbatim>\<open>vm.c\<close>, \<^verbatim>\<open>exec.c\<close>) and the open files
  (\<^verbatim>\<open>file.c\<close>).  Open files are pipes (\<^verbatim>\<open>pipe.c\<close>), the console (\<^verbatim>\<open>console.c\<close>, \<^verbatim>\<open>kbd.c\<close>) or inodes
  (\<^verbatim>\<open>fs.c\<close>); inodes live in blocks, which are written through a redo log (\<^verbatim>\<open>log.c\<close>) and a buffer cache
  (\<^verbatim>\<open>bio.c\<close>) to the disk.  Physical pages come from \<^verbatim>\<open>kalloc.c\<close>.  The disk driver is the one of
  the build target \<^verbatim>\<open>kernelmemfs\<close>, \<^verbatim>\<open>memide.c\<close>, which keeps the disk image in memory; the default target
  links \<^verbatim>\<open>ide.c\<close> in its place, which offers the same routine \<^verbatim>\<open>iderw\<close>.

  \<^bold>\<open>The model.\<close>  Routines are functions from the state to an outcome of type \<^verbatim>\<open>kres\<close>: \<^verbatim>\<open>OK\<close> with the
  result and the new state; \<^verbatim>\<open>Panic\<close> with the message of a call of \<^verbatim>\<open>panic\<close>; \<^verbatim>\<open>Sleep\<close> with the channel
  on which the process waits; \<^verbatim>\<open>Stuck\<close> where the C code reads outside an array, follows a null pointer
  or would loop for ever.  The state is a chain of records, each extending the one before with the
  global variables of a file: memory and the free list, CPUs and processes, the buffer cache and the
  disk, the log, the inode cache, pipes, open files, the console, and the counters of calls.  A
  routine is stated over the first record that has what it uses, so that it applies to every later
  one.  Unsigned integers and the bytes and words of memory, disk and registers are words of their
  width and wrap around.  The counters that the C code declares as \<^verbatim>\<open>int\<close> (process ids, reference
  counts, nesting depths, the counters of the log) are unbounded integers, and the reference count of
  a buffer is a natural number: the C program leaves signed overflow undefined, and none of the
  properties is about 2^31 increments.

  \<^bold>\<open>Theories and code.\<close>

  \<^item> \<^verbatim>\<open>Xv6_Prelude\<close>: the types and constants of \<^verbatim>\<open>types.h\<close>, \<^verbatim>\<open>param.h\<close> and \<^verbatim>\<open>fs.h\<close>, outcomes and their
    sequencing, byte layout; \<^verbatim>\<open>Ring\<close>: ring buffers with wrapping 32-bit counters.
  \<^item> \<^verbatim>\<open>Cstring\<close>: \<^verbatim>\<open>string.c\<close>; \<^verbatim>\<open>Kalloc\<close>: \<^verbatim>\<open>kalloc.c\<close>; \<^verbatim>\<open>Spinlock\<close>: \<^verbatim>\<open>spinlock.c\<close>; \<^verbatim>\<open>Sleeplock\<close>: \<^verbatim>\<open>sleeplock.c\<close>.
  \<^item> \<^verbatim>\<open>Proc\<close>: slots, scheduler, sleep, wakeup and kill of \<^verbatim>\<open>proc.c\<close>; \<^verbatim>\<open>Proc_Life\<close>: userinit, growproc, fork,
    exit and wait of \<^verbatim>\<open>proc.c\<close>; \<^verbatim>\<open>Scheduler\<close>: the scheduler of \<^verbatim>\<open>proc.c\<close> on any number of CPUs.
  \<^item> \<^verbatim>\<open>Vm\<close>: the page tables of \<^verbatim>\<open>vm.c\<close>; \<^verbatim>\<open>Exec\<close>: \<^verbatim>\<open>exec.c\<close> and loaduvm of \<^verbatim>\<open>vm.c\<close>.
  \<^item> \<^verbatim>\<open>Memide\<close>: \<^verbatim>\<open>memide.c\<close> and \<^verbatim>\<open>buf.h\<close>; \<^verbatim>\<open>Bio\<close>: \<^verbatim>\<open>bio.c\<close>; \<^verbatim>\<open>Log\<close>: \<^verbatim>\<open>log.c\<close>; \<^verbatim>\<open>Fs\<close> and \<^verbatim>\<open>Dir\<close>: \<^verbatim>\<open>fs.c\<close>.
  \<^item> \<^verbatim>\<open>Pipe\<close>: \<^verbatim>\<open>pipe.c\<close>; \<^verbatim>\<open>File\<close>: \<^verbatim>\<open>file.c\<close> and pipealloc; \<^verbatim>\<open>Console\<close>: \<^verbatim>\<open>console.c\<close> with output through \<^verbatim>\<open>uart.c\<close>;
    \<^verbatim>\<open>Kbd\<close>: \<^verbatim>\<open>kbd.c\<close> and \<^verbatim>\<open>kbd.h\<close>.
  \<^item> \<^verbatim>\<open>Sysfile\<close>: \<^verbatim>\<open>syscall.c\<close>, \<^verbatim>\<open>sysproc.c\<close> and \<^verbatim>\<open>sysfile.c\<close>; \<^verbatim>\<open>Trap\<close>: \<^verbatim>\<open>trap.c\<close>.
  \<^item> Lemmas over several components: \<^verbatim>\<open>Vm_Space\<close>, \<^verbatim>\<open>Vm_User\<close>, \<^verbatim>\<open>Vm_Fork\<close>, \<^verbatim>\<open>Process_Space\<close> and \<^verbatim>\<open>Process_Fork\<close> on
    address spaces; \<^verbatim>\<open>Outcomes\<close>, \<^verbatim>\<open>Frames\<close> and \<^verbatim>\<open>Counts\<close> on what calls keep.

  \<^bold>\<open>What the lemmas show.\<close>

  \<^item> Memory: the free list never holds a page twice, and kalloc and kfree are inverse (locale
    \<^verbatim>\<open>page_pool\<close>); the memory routines compute what their names say.
  \<^item> Address spaces: \<^verbatim>\<open>lookup\<close> is the entry the hardware finds for an address, and \<^verbatim>\<open>uspace\<close> the invariant
    that tables and user pages are distinct pages outside the free list.  setupkvm, mappages,
    allocuvm, deallocuvm, copyuvm and freevm are described over them.  On top of that growproc keeps
    the recorded size true, fork makes a copy in pages of its own, and wait returns every page.
  \<^item> Concurrency: mutual exclusion of spin locks under every interleaving of CPUs; nesting of disabled
    interrupts.  A process runs on at most one CPU, with its own page table and stack, and no runnable
    process is passed over by a pass of a scheduler.  No wakeup of a pipe is lost but by the early
    return of pipewrite.
  \<^item> Disk: the buffer cache shows one content per block and recycles the least recently used buffer
    (locale \<^verbatim>\<open>block_cache\<close>); a commit is atomic under a stop after any prefix of its writes; end_op
    commits; small files read back what was written.
  \<^item> Streams: a pipe is a bounded first-in first-out queue (locale \<^verbatim>\<open>bounded_queue\<close>); console input is
    edited and read line by line; numbers are printed in their base; the keyboard decoder implements
    a keyboard with modifiers and locks.
  \<^item> System calls: across every trap the reference count of an open file is the number of descriptors
    that name it, and transactions are balanced.  The proofs combine rules of the collection \<^verbatim>\<open>frame\<close>,
    with the locale \<^verbatim>\<open>memory_frame\<close> for the routines on memory and \<^verbatim>\<open>quiet_devices\<close> for device drivers.
  \<^item> Deviations of the code from its intent, as theorems on what it does: kill of pid 0, admission of
    too many operations to the log, a write that ends without waking readers, an open that fails
    inside its transaction, writes that a small file cuts off, giving back all of a process's memory.

  \<^bold>\<open>Bounds.\<close>  The loops of the code are total functions with a measure.  Only the scans of the buffer
  list take fuel, \<^verbatim>\<open>NBUF + 1\<close> steps: the list has \<^verbatim>\<open>NBUF\<close> buffers and its head, and the scans are shown
  to return on every well-formed list.  The search for the end of a string is a partial function
  with the value None when there is no end.  Loops over addresses end in \<^verbatim>\<open>Stuck\<close> where the 32-bit
  address would wrap and the loop of the code not end; the properties of growproc, fork and wait
  show that this does not happen in the states they are about.  The page counts in them (1024, 1025 and 1026 pages above the user
  pages) bound the tables, the directory and the kernel stack that a call may need.

  \<^bold>\<open>Granularity.\<close>  A routine that holds a lock throughout is one step; only spin locks are modelled
  below that.  The machine of \<^verbatim>\<open>Scheduler\<close> interleaves what CPUs do under \<^verbatim>\<open>ptable.lock\<close>: scheduler passes,
  the ways to give up a CPU, and the other changes of the process table.  A system call that has to wait ends in \<^verbatim>\<open>Sleep\<close>, and the theorems on system calls are
  about the calls that return.  The crash theorem is about the order in which blocks reach the disk,
  with the write of one block atomic.

  \<^bold>\<open>Not modelled.\<close>

  \<^item> \<^verbatim>\<open>ide.c\<close>: its request queue, interrupt handler and port commands; the model has the disk of
    \<^verbatim>\<open>memide.c\<close>, where a request is finished when iderw returns.
  \<^item> \<^verbatim>\<open>main.c\<close>, \<^verbatim>\<open>bootmain.c\<close>, \<^verbatim>\<open>mp.c\<close>, \<^verbatim>\<open>lapic.c\<close>, \<^verbatim>\<open>ioapic.c\<close>, \<^verbatim>\<open>picirq.c\<close>, \<^verbatim>\<open>timer.c\<close> and the assembly files:
    they program devices and the processor, whose state is not part of the model.
  \<^item> Routines of modelled files with such effects: seginit, tvinit, idtinit, uartinit.  The interrupt
    routines kbdintr, uartintr and uartgetc are replaced by an argument of the trap handler, the
    characters that arrive.  forkret is left out; iinit and initlog, which it calls, are modelled.
  \<^item> Messages: the lines that allocuvm, iinit and the trap handler print with cprintf, because the
    console is a later component; the variable panicked of the console, because a panic ends the run.
    printint negates its argument as a word, also the most negative number, where C leaves the
    result undefined.
  \<^item> User programs and their library (\<^verbatim>\<open>sh.c\<close>, \<^verbatim>\<open>ulib.c\<close> but for memmove, \<^verbatim>\<open>printf.c\<close>, \<^verbatim>\<open>umalloc.c\<close>, the
    commands and tests), \<^verbatim>\<open>mkfs.c\<close> and the shell of the first assignment: they run outside the kernel
    and meet it only through system calls or the host.
\<close>

end
